(* ===== verification/Sqpkv_Prelude.thy ===== *)
theory Sqpkv_Prelude
  imports Main "HOL-Library.Word"
begin

text \<open>
  Shared vocabulary of the development: bytes and 32-bit words, the ways in which a call of
  the C++ code can fail to return, a result type for them with its bind, the byte buffers the
  code writes and reads through raw pointers, and the little-endian representation of
  \<^verbatim>\<open>uint32_t\<close> (the code copies the host's object representation with
  \<^verbatim>\<open>memcpy\<close>; the hosts it is built for, x86-64 with InfiniBand, are little-endian).
\<close>

unbundle bit_operations_syntax

section \<open>Bytes, words and calls that do not return\<close>

type_synonym byte = "8 word"
type_synonym bytes = "byte list"
type_synonym u32 = "32 word"

text \<open>
  A call either returns a value or halts for one of these reasons: undefined behaviour
  (a null dereference, an access outside the object a pointer points into, the value of an array
  that was never written, a downcast to
  a class the object does not have, integer division by zero, a function that flows off its
  end without a \<^verbatim>\<open>return\<close>), an exception of the C++ library that nothing catches,
  a signal that nothing handles, or a system call that never delivers.
\<close>

datatype halt =
    NullDeref
  | OutOfBounds
  | Indeterminate
  | TypeConfusion
  | DivideByZero
  | MissingReturn
  | InvalidArgument
  | OutOfRange
  | Terminated
  | Signalled
  | Blocked

type_synonym 'a result = "halt + 'a"

definition bindR :: "'a result \<Rightarrow> ('a \<Rightarrow> 'b result) \<Rightarrow> 'b result" where
  "bindR m f = (case m of Inl e \<Rightarrow> Inl e | Inr x \<Rightarrow> f x)"

named_theorems result_simps
named_theorems buffer_simps

lemma bindR_Inl [simp]: "bindR (Inl e) f = Inl e"
  by (simp add: bindR_def)

lemma bindR_Inr [simp]: "bindR (Inr x) f = f x"
  by (simp add: bindR_def)

lemma bindR_eq_Inr [result_simps]:
  "bindR m f = Inr y \<longleftrightarrow> (\<exists>x. m = Inr x \<and> f x = Inr y)"
  by (cases m) auto

lemma bindR_eq_Inl [result_simps]:
  "bindR m f = Inl e \<longleftrightarrow> m = Inl e \<or> (\<exists>x. m = Inr x \<and> f x = Inl e)"
  by (cases m) auto

lemma bindR_assoc: "bindR (bindR m f) g = bindR m (\<lambda>x. bindR (f x) g)"
  by (cases m) auto

lemma bindR_cong [fundef_cong]:
  "m = m' \<Longrightarrow> (\<And>x. m' = Inr x \<Longrightarrow> f x = f' x) \<Longrightarrow> bindR m f = bindR m' f'"
  by (cases m') auto

text \<open>\<^verbatim>\<open>make_unique\<close> of \<^verbatim>\<open>include/sqpkv/common.h\<close>: the object a constructor makes, owned
  by a pointer.\<close>

definition make_unique :: "'a result \<Rightarrow> 'a option result" where
  "make_unique ctor = bindR ctor (\<lambda>obj. Inr (Some obj))"

declare make_unique_def [simp]

text \<open>Text literals of the source as bytes.\<close>

definition bytes_of :: "string \<Rightarrow> bytes" where
  "bytes_of s = map of_char s"

lemma length_bytes_of [simp]: "length (bytes_of s) = length s"
  by (simp add: bytes_of_def)

section \<open>Buffers\<close>

text \<open>
  A pointer into a buffer is an offset into its bytes. Reading or writing outside the buffer
  is \<^const>\<open>OutOfBounds\<close>.
\<close>

definition read_bytes :: "bytes \<Rightarrow> nat \<Rightarrow> nat \<Rightarrow> bytes result" where
  "read_bytes m p n = (if p + n \<le> length m then Inr (take n (drop p m)) else Inl OutOfBounds)"

definition write_bytes :: "bytes \<Rightarrow> nat \<Rightarrow> bytes \<Rightarrow> bytes result" where
  "write_bytes m p bs =
     (if p + length bs \<le> length m
      then Inr (take p m @ bs @ drop (p + length bs) m) else Inl OutOfBounds)"

text \<open>A buffer whose first bytes have been overwritten.\<close>

definition fill :: "bytes \<Rightarrow> bytes \<Rightarrow> bytes" where
  "fill m pre = pre @ drop (length pre) m"

lemma fill_Nil [simp]: "fill m [] = m"
  by (simp add: fill_def)

lemma length_fill [simp]: "length pre \<le> length m \<Longrightarrow> length (fill m pre) = length m"
  by (simp add: fill_def)

lemma take_fill [simp]: "n = length pre \<Longrightarrow> take n (fill m pre) = pre"
  by (simp add: fill_def)

lemma write_bytes_fill:
  assumes "p = length pre" and "length pre \<le> length m"
  shows "write_bytes (fill m pre) p bs =
    (if p + length bs \<le> length m then Inr (fill m (pre @ bs)) else Inl OutOfBounds)"
  using assms by (auto simp: write_bytes_def fill_def add.commute)

lemma write_bytes_start:
  "write_bytes m 0 bs = (if length bs \<le> length m then Inr (fill m bs) else Inl OutOfBounds)"
  by (simp add: write_bytes_def fill_def)

lemma length_write_bytes: "write_bytes m p bs = Inr m' \<Longrightarrow> length m' = length m"
  by (auto simp: write_bytes_def split: if_splits)

lemma read_bytes_mid [buffer_simps]:
  "p = length a \<Longrightarrow> n = length b \<Longrightarrow> read_bytes (a @ b @ c) p n = Inr b"
  by (simp add: read_bytes_def)

lemma read_bytes_Inr:
  "read_bytes m p n = Inr b \<Longrightarrow> p + n \<le> length m \<and> b = take n (drop p m)"
  by (simp add: read_bytes_def split: if_splits)

lemma read_bytes_length: "read_bytes m p n = Inr b \<Longrightarrow> length b = n"
  by (auto simp: read_bytes_def split: if_splits)

lemma read_bytes_short: "length m < p + n \<Longrightarrow> read_bytes m p n = Inl OutOfBounds"
  by (simp add: read_bytes_def)

lemma read_bytes_split: "read_bytes m p n = Inr b \<Longrightarrow> drop p m = b @ drop (p + n) m"
  by (metis read_bytes_Inr append_take_drop_id drop_drop add.commute)

section \<open>The representation of \<^verbatim>\<open>uint32_t\<close>\<close>

definition u32_bytes :: "u32 \<Rightarrow> bytes" where
  "u32_bytes w =
     [ucast w, ucast (drop_bit 8 w), ucast (drop_bit 16 w), ucast (drop_bit 24 w)]"

definition bytes_u32 :: "bytes \<Rightarrow> u32" where
  "bytes_u32 bs =
     ucast (bs ! 0) OR push_bit 8 (ucast (bs ! 1)) OR
     push_bit 16 (ucast (bs ! 2)) OR push_bit 24 (ucast (bs ! 3))"

lemma length_u32_bytes [simp]: "length (u32_bytes w) = 4"
  by (simp add: u32_bytes_def)

lemma bytes_u32_bytes [simp]: "bytes_u32 (u32_bytes w) = w"
proof (rule bit_word_eqI)
  fix n
  assume "n < LENGTH(32)"
  moreover have "n < 24 \<or> 24 + (n - 24) = n" by arith
  ultimately show "bit (bytes_u32 (u32_bytes w)) n \<longleftrightarrow> bit w n"
    by (auto simp: bytes_u32_def u32_bytes_def bit_simps)
qed

lemma byte_bit_high [simp]: "8 \<le> n \<Longrightarrow> \<not> bit (b :: byte) n"
  by (auto dest: bit_imp_le_length)

lemma list_of_4: "length bs = 4 \<Longrightarrow> bs = [bs ! 0, bs ! 1, bs ! 2, bs ! 3]"
  by (cases bs; cases "tl bs"; cases "tl (tl bs)"; cases "tl (tl (tl bs))") auto

lemma u32_bytes_u32:
  assumes "length bs = 4"
  shows "u32_bytes (bytes_u32 bs) = bs"
proof -
  obtain a b c d where bs: "bs = [a, b, c, d]"
    using list_of_4 [OF assms] by blast
  have "ucast (bytes_u32 bs) = a"
    by (rule bit_word_eqI) (auto simp: bytes_u32_def bs bit_simps)
  moreover have "ucast (drop_bit 8 (bytes_u32 bs)) = b"
    by (rule bit_word_eqI) (auto simp: bytes_u32_def bs bit_simps)
  moreover have "ucast (drop_bit 16 (bytes_u32 bs)) = c"
    by (rule bit_word_eqI) (auto simp: bytes_u32_def bs bit_simps)
  moreover have "ucast (drop_bit 24 (bytes_u32 bs)) = d"
    by (rule bit_word_eqI) (auto simp: bytes_u32_def bs bit_simps)
  ultimately show ?thesis by (simp add: u32_bytes_def bs)
qed

lemma u32_bytes_inject [simp]: "u32_bytes v = u32_bytes w \<longleftrightarrow> v = w"
  using bytes_u32_bytes by metis

lemma u32_bytes_nonempty [simp]: "u32_bytes w \<noteq> []"
  by (simp add: u32_bytes_def)

lemma unat_of_nat_u32 [simp]: "n < 4294967296 \<Longrightarrow> unat (of_nat n :: u32) = n"
  by (simp add: unat_of_nat)

text \<open>Adding the four bytes of the length field, where it does not wrap.\<close>

lemma unat_add_4: "n + 4 < 4294967296 \<Longrightarrow> unat ((of_nat n :: u32) + 4) = n + 4"
proof -
  assume *: "n + 4 < 4294967296"
  have "(of_nat n :: u32) + 4 = of_nat (n + 4)" by simp
  with * show ?thesis by (simp only: unat_of_nat_u32)
qed

end
