(* ===== verification/Sqpkv_Status.thy ===== *)
theory Sqpkv_Status
  imports Sqpkv_Prelude
begin

text \<open>
  \<^verbatim>\<open>Status\<close> and \<^verbatim>\<open>StatusOr\<close>
  (\<^verbatim>\<open>include/sqpkv/status.h\<close>, \<^verbatim>\<open>src/protocol/status.cc\<close>) and the operation
  codes (\<^verbatim>\<open>src/protocol/packet.h\<close>), with their one-byte representation on the wire.
  \<^verbatim>\<open>strerror(errno)\<close> is an argument of \<open>Status_Err0\<close>. A \<^verbatim>\<open>rocksdb::Status\<close> is
  known through the three observations the code makes of it.
\<close>

section \<open>Operation codes\<close>

datatype op_code = kGet | kPut | kDelete | kGetAll

fun op_byte :: "op_code \<Rightarrow> byte" where
  "op_byte kGet = 0"
| "op_byte kPut = 1"
| "op_byte kDelete = 2"
| "op_byte kGetAll = 3"

text \<open>\<^verbatim>\<open>static_cast<OpCode>(buf[4])\<close> as the factories' switches see it: any other
  value takes the \<^verbatim>\<open>default\<close> branch.\<close>

definition byte_op :: "byte \<Rightarrow> op_code option" where
  "byte_op b = (if b = 0 then Some kGet else if b = 1 then Some kPut
     else if b = 2 then Some kDelete else if b = 3 then Some kGetAll else None)"

lemma byte_op_byte [simp]: "byte_op (op_byte c) = Some c"
  by (cases c) (simp_all add: byte_op_def)

lemma byte_op_Some: "byte_op b = Some c \<longleftrightarrow> b = op_byte c"
  by (cases c) (auto simp: byte_op_def)

text \<open>The enumeration is ordered by its values, as in C++.\<close>

instantiation op_code :: linorder
begin

definition less_eq_op_code :: "op_code \<Rightarrow> op_code \<Rightarrow> bool" where
  "less_eq_op_code a b \<longleftrightarrow> op_byte a \<le> op_byte b"

definition less_op_code :: "op_code \<Rightarrow> op_code \<Rightarrow> bool" where
  "less_op_code a b \<longleftrightarrow> op_byte a < op_byte b"

instance
proof
  have inj: "op_byte a = op_byte b \<Longrightarrow> a = b" for a b
    by (cases a; cases b) simp_all
  fix a b c :: op_code
  show "a < b \<longleftrightarrow> a \<le> b \<and> \<not> b \<le> a"
    by (auto simp: less_eq_op_code_def less_op_code_def)
  show "a \<le> a" by (simp add: less_eq_op_code_def)
  show "a \<le> b \<Longrightarrow> b \<le> c \<Longrightarrow> a \<le> c" by (simp add: less_eq_op_code_def)
  show "a \<le> b \<Longrightarrow> b \<le> a \<Longrightarrow> a = b" by (auto simp: less_eq_op_code_def intro: inj)
  show "a \<le> b \<or> b \<le> a" by (auto simp: less_eq_op_code_def)
qed

end

section \<open>Status\<close>

text \<open>
  A \<^verbatim>\<open>Code\<close> is one of the three enumerators or, after the unchecked
  \<^verbatim>\<open>static_cast\<close> of a received byte, any other value.
\<close>

datatype status_code = kOk | kErr | kEof | kOther byte

fun code_byte :: "status_code \<Rightarrow> byte" where
  "code_byte kOk = 0"
| "code_byte kErr = 1"
| "code_byte kEof = 2"
| "code_byte (kOther b) = b"

definition byte_code :: "byte \<Rightarrow> status_code" where
  "byte_code b = (if b = 0 then kOk else if b = 1 then kErr else if b = 2 then kEof else kOther b)"

definition valid_code :: "status_code \<Rightarrow> bool" where
  "valid_code c \<longleftrightarrow> c \<in> {kOk, kErr, kEof}"

lemma byte_code_byte [simp]: "valid_code c \<Longrightarrow> byte_code (code_byte c) = c"
  by (auto simp: valid_code_def byte_code_def)

lemma code_byte_code [simp]: "code_byte (byte_code b) = b"
  by (simp add: byte_code_def)

lemma valid_code_simps [simp]: "valid_code kOk" "valid_code kErr" "valid_code kEof"
  by (simp_all add: valid_code_def)

record status =
  code :: status_code
  message :: bytes

definition Status_new :: status where
  "Status_new = \<lparr>code = kOk, message = bytes_of ''OK''\<rparr>"

declare Status_new_def [simp]

definition Status_make :: "status_code \<Rightarrow> bytes \<Rightarrow> status" where
  "Status_make c msg = \<lparr>code = c, message = msg\<rparr>"

declare Status_make_def [simp]

definition Status_Ok :: status where
  "Status_Ok = Status_new"

definition Status_Err0 :: "bytes \<Rightarrow> status" where
  "Status_Err0 errno_text = Status_make kErr errno_text"

definition Status_Err :: "bytes \<Rightarrow> status" where
  "Status_Err msg = Status_make kErr msg"

definition Status_Eof :: status where
  "Status_Eof = Status_make kEof []"

text \<open>The observations the code makes of a \<^verbatim>\<open>rocksdb::Status\<close>: \<^verbatim>\<open>ok()\<close>,
  \<^verbatim>\<open>IsNotFound()\<close>, \<^verbatim>\<open>ToString()\<close>.\<close>

record rocks_status =
  rs_ok :: bool
  rs_not_found :: bool
  rs_text :: bytes

definition Status_of_rocks :: "rocks_status \<Rightarrow> status" where
  "Status_of_rocks s =
     (if rs_ok s then \<lparr>code = kOk, message = bytes_of ''OK''\<rparr>
      else \<lparr>code = kErr, message = rs_text s\<rparr>)"

definition ok :: "status \<Rightarrow> bool" where
  "ok s \<longleftrightarrow> code s = kOk"

definition err :: "status \<Rightarrow> bool" where
  "err s \<longleftrightarrow> code s = kErr"

definition eof :: "status \<Rightarrow> bool" where
  "eof s \<longleftrightarrow> code s = kEof"

definition ToString :: "status \<Rightarrow> bytes" where
  "ToString s = message s"

named_theorems status_simps

lemmas status_defs = Status_Ok_def Status_Err0_def Status_Err_def Status_Eof_def
  Status_of_rocks_def ok_def err_def eof_def ToString_def

lemma status_observers [simp, status_simps]:
  "ok Status_Ok" "\<not> err Status_Ok" "\<not> eof Status_Ok"
  "\<not> ok (Status_Err0 t)" "err (Status_Err0 t)" "\<not> eof (Status_Err0 t)"
  "\<not> ok (Status_Err t)" "err (Status_Err t)" "\<not> eof (Status_Err t)"
  "\<not> ok Status_Eof" "\<not> err Status_Eof" "eof Status_Eof"
  by (simp_all add: status_defs)

lemma length_message_Ok [simp]: "length (message Status_Ok) = 2"
  by (simp add: Status_Ok_def)

lemma ok_Status_of_rocks [simp]: "ok (Status_of_rocks s) \<longleftrightarrow> rs_ok s"
  by (simp add: status_defs)

lemma Status_of_rocks_ok [simp]: "rs_ok s \<Longrightarrow> Status_of_rocks s = Status_Ok"
  by (simp add: status_defs)

lemma valid_Status_of_rocks [simp]: "valid_code (code (Status_of_rocks s))"
  by (simp add: status_defs)

lemma valid_Status_consts [simp]:
  "valid_code (code Status_Ok)" "valid_code (code Status_Eof)"
  "valid_code (code (Status_Err0 t))" "valid_code (code (Status_Err t))"
  by (simp_all add: status_defs)

section \<open>StatusOr\<close>

text \<open>\<open>so_obj\<close> is the held \<^verbatim>\<open>unique_ptr\<close>; \<^const>\<open>None\<close> is the null pointer, which
  a \<open>StatusOr\<close> built from a status holds.\<close>

record 'a status_or =
  so_status :: status
  so_obj :: "'a option"

definition StatusOr_ptr :: "'a option \<Rightarrow> 'a status_or" where
  "StatusOr_ptr p = \<lparr>so_status = Status_Ok, so_obj = p\<rparr>"

definition StatusOr_status :: "status \<Rightarrow> 'a status_or" where
  "StatusOr_status s = \<lparr>so_status = s, so_obj = None\<rparr>"

text \<open>The macro \<^verbatim>\<open>RETURN_IF_ERROR\<close>: \<open>ret\<close> makes the result of the function it is used in from
  the status, and \<open>rest\<close> is what follows the macro.\<close>

definition RETURN_IF_ERROR :: "status \<Rightarrow> (status \<Rightarrow> 'r) \<Rightarrow> 'r \<Rightarrow> 'r" where
  "RETURN_IF_ERROR expr ret rest = (if \<not> ok expr then ret expr else rest)"

declare RETURN_IF_ERROR_def [simp]

text \<open>\<^verbatim>\<open>operator->\<close> and a dereference of \<^verbatim>\<open>GetPtr()\<close>.\<close>

definition so_deref :: "'a status_or \<Rightarrow> 'a result" where
  "so_deref r = (case so_obj r of None \<Rightarrow> Inl NullDeref | Some x \<Rightarrow> Inr x)"

definition so_take :: "'a status_or \<Rightarrow> 'a option \<times> 'a status_or" where
  "so_take r = (so_obj r, r\<lparr>so_obj := None\<rparr>)"

lemma StatusOr_simps [simp, status_simps]:
  "so_status (StatusOr_ptr p) = Status_Ok" "so_obj (StatusOr_ptr p) = p"
  "so_status (StatusOr_status s) = s" "so_obj (StatusOr_status s) = None"
  by (simp_all add: StatusOr_ptr_def StatusOr_status_def)

lemma so_deref_simps [simp]:
  "so_deref (StatusOr_ptr (Some x)) = Inr x" "so_deref (StatusOr_ptr None) = Inl NullDeref"
  "so_deref (StatusOr_status s) = Inl NullDeref"
  by (simp_all add: so_deref_def)

end
