(* ===== verification/Sqpkv_Packet.thy ===== *)
theory Sqpkv_Packet
  imports Sqpkv_Status
begin

text \<open>
  The wire format (\<^verbatim>\<open>src/protocol/packet.h\<close>, \<^verbatim>\<open>src/protocol/packet.cc\<close>): the
  base class \<^verbatim>\<open>Packet\<close> and its reading and writing of fields, and the contract
  \<open>wire_codec\<close> that the packet formats of the next two theories satisfy. The constructors that
  build a packet write it through a raw pointer into a buffer of the caller; they return the
  object and the bytes of that buffer afterwards. The constructors that parse one copy it out of
  the received bytes.
\<close>

section \<open>Packet\<close>

text \<open>\<^verbatim>\<open>payload_\<close> is the whole packet, length field included; \<^const>\<open>None\<close> is the null
  pointer.\<close>

record packet =
  payload_size :: u32
  payload :: "bytes option"

definition Packet_HeaderSize :: u32 where
  "Packet_HeaderSize = 0"

text \<open>\<^verbatim>\<open>Packet::Payload\<close>: the offset of the payload in \<^verbatim>\<open>payload_\<close>.\<close>

definition Packet_Payload :: nat where
  "Packet_Payload = 4"

definition AddValue :: "bytes \<Rightarrow> nat \<Rightarrow> bytes \<Rightarrow> (nat \<times> bytes) result" where
  "AddValue m p rep = bindR (write_bytes m p rep) (\<lambda>m. Inr (p + length rep, m))"

definition ReadValue :: "bytes \<Rightarrow> nat \<Rightarrow> nat \<Rightarrow> (bytes \<times> nat) result" where
  "ReadValue m p n = bindR (read_bytes m p n) (\<lambda>rep. Inr (rep, p + n))"

definition AddSlice :: "bytes \<Rightarrow> nat \<Rightarrow> bytes \<Rightarrow> (nat \<times> bytes) result" where
  "AddSlice m p data =
     bindR (AddValue m p (u32_bytes (of_nat (length data)))) (\<lambda>(p, m).
     bindR (write_bytes m p data) (\<lambda>m. Inr (p + length data, m)))"

definition AddString :: "bytes \<Rightarrow> nat \<Rightarrow> bytes \<Rightarrow> (nat \<times> bytes) result" where
  "AddString m p data =
     bindR (AddValue m p (u32_bytes (of_nat (length data)))) (\<lambda>(p, m).
     bindR (write_bytes m p data) (\<lambda>m. Inr (p + length data, m)))"

text \<open>\<^verbatim>\<open>ReadSlice\<close> logs \<^verbatim>\<open>data.ToString()\<close>, so it reads the bytes of the slice.\<close>

definition ReadSlice :: "bytes \<Rightarrow> nat \<Rightarrow> (bytes \<times> nat) result" where
  "ReadSlice m p =
     bindR (ReadValue m p 4) (\<lambda>(rep, p).
     let n = unat (bytes_u32 rep) in
     bindR (read_bytes m p n) (\<lambda>data. Inr (data, p + n)))"

text \<open>\<^verbatim>\<open>Packet(const char *buf)\<close>: the size of the copy is computed in \<^verbatim>\<open>uint32_t\<close>.\<close>

definition Packet_parse :: "bytes \<Rightarrow> packet result" where
  "Packet_parse buf =
     bindR (ReadValue buf 0 4) (\<lambda>(rep, _).
     let ps = bytes_u32 rep in
     bindR (read_bytes buf 0 (unat (ps + 4))) (\<lambda>copy.
     Inr \<lparr>payload_size = ps, payload = Some copy\<rparr>))"

text \<open>\<^verbatim>\<open>Packet(uint32_t payload_size, char *buf)\<close>: \<open>buf\<close> is taken over and its first
  four bytes are written, whether or not it is null.\<close>

definition Packet_new :: "u32 \<Rightarrow> bytes option \<Rightarrow> packet result" where
  "Packet_new ps buf =
     (case buf of
        None \<Rightarrow> Inl NullDeref
      | Some m \<Rightarrow>
          bindR (AddValue m 0 (u32_bytes ps)) (\<lambda>(_, m).
          Inr \<lparr>payload_size = ps, payload = Some m\<rparr>))"

definition payload_ptr :: "('a packet_scheme) \<Rightarrow> bytes result" where
  "payload_ptr pk = (case payload pk of None \<Rightarrow> Inl NullDeref | Some m \<Rightarrow> Inr m)"

text \<open>\<^verbatim>\<open>ToBinary\<close>: the size of the slice, and its bytes when they are read.\<close>

definition ToBinary_size :: "('a packet_scheme) \<Rightarrow> nat" where
  "ToBinary_size pk = unat (payload_size pk + 4)"

definition ToBinary :: "('a packet_scheme) \<Rightarrow> bytes result" where
  "ToBinary pk = bindR (payload_ptr pk) (\<lambda>m. read_bytes m 0 (ToBinary_size pk))"

definition Release :: "('a packet_scheme) \<Rightarrow> ('a packet_scheme)" where
  "Release pk = pk\<lparr>payload := None\<rparr>"

text \<open>The end of every building constructor: the buffer is given back to the caller.\<close>

definition finish :: "bytes option \<Rightarrow> bytes \<Rightarrow> ('a packet_scheme) \<Rightarrow> ('a packet_scheme)" where
  "finish buf m pk =
     (let pk = pk\<lparr>payload := Some m\<rparr> in if buf \<noteq> None then Release pk else pk)"

subsection \<open>Length-prefixed strings\<close>

definition str_enc :: "bytes \<Rightarrow> bytes" where
  "str_enc s = u32_bytes (of_nat (length s)) @ s"

lemma length_str_enc [simp]: "length (str_enc s) = 4 + length s"
  by (simp add: str_enc_def)

lemma AddValue_fill [buffer_simps]:
  assumes "p = length pre" and "length pre \<le> length m"
  shows "AddValue (fill m pre) p rep =
    (if p + length rep \<le> length m then Inr (p + length rep, fill m (pre @ rep))
     else Inl OutOfBounds)"
  using assms by (simp add: AddValue_def write_bytes_fill)

lemma AddString_fill [buffer_simps]:
  assumes "p = length pre" and "length pre \<le> length m"
  shows "AddString (fill m pre) p s =
    (if p + (4 + length s) \<le> length m
     then Inr (p + (4 + length s), fill m (pre @ str_enc s)) else Inl OutOfBounds)"
proof (cases "p + 4 \<le> length m")
  case True
  let ?hd = "u32_bytes (of_nat (length s))"
  have "AddString (fill m pre) p s =
      bindR (write_bytes (fill m (pre @ ?hd)) (p + 4) s) (\<lambda>m. Inr (p + 4 + length s, m))"
    using assms True by (simp add: AddString_def AddValue_fill)
  also have "write_bytes (fill m (pre @ ?hd)) (p + 4) s =
      (if p + 4 + length s \<le> length m then Inr (fill m ((pre @ ?hd) @ s)) else Inl OutOfBounds)"
    using assms True by (intro write_bytes_fill) simp_all
  finally show ?thesis by (simp add: str_enc_def ac_simps)
next
  case False
  then show ?thesis using assms by (simp add: AddString_def AddValue_fill)
qed

lemma AddSlice_eq_AddString: "AddSlice = AddString"
  by (intro ext) (simp add: AddSlice_def AddString_def)

lemma ReadSlice_at [buffer_simps]:
  assumes "p = length pre" and "length s < 4294967296"
  shows "ReadSlice (pre @ str_enc s @ post) p = Inr (s, p + (4 + length s))"
proof -
  let ?hd = "u32_bytes (of_nat (length s))"
  have "read_bytes (pre @ str_enc s @ post) p 4 = Inr ?hd"
    using read_bytes_mid [of p pre 4 ?hd "s @ post"] assms by (simp add: str_enc_def)
  moreover have "read_bytes (pre @ str_enc s @ post) (p + 4) (length s) = Inr s"
    using read_bytes_mid [of "p + 4" "pre @ ?hd" "length s" s post] assms
    by (simp add: str_enc_def)
  ultimately show ?thesis
    using assms by (simp add: ReadSlice_def ReadValue_def add.assoc)
qed

lemma ReadSlice_within:
  "ReadSlice m p = Inr (d, q) \<Longrightarrow>
     p + 4 \<le> q \<and> q \<le> length m \<and> q = p + 4 + length d \<and> d = take (length d) (drop (p + 4) m)"
  by (auto simp: ReadSlice_def ReadValue_def Let_def result_simps dest!: read_bytes_Inr)

lemma ReadSlice_sound:
  assumes "ReadSlice m p = Inr (d, q)"
  shows "drop p m = str_enc d @ drop q m \<and> q \<le> length m"
proof -
  from assms obtain rep where rep: "read_bytes m p 4 = Inr rep"
    and d: "read_bytes m (p + 4) (unat (bytes_u32 rep)) = Inr d"
    and q: "q = p + 4 + unat (bytes_u32 rep)"
    by (auto simp: ReadSlice_def ReadValue_def Let_def result_simps)
  have "length d = unat (bytes_u32 rep)" using d by (rule read_bytes_length)
  then have hd: "u32_bytes (of_nat (length d)) = rep"
    using u32_bytes_u32 [OF read_bytes_length [OF rep]] by simp
  have "drop p m = rep @ drop (p + 4) m"
    by (rule read_bytes_split [OF rep])
  moreover have "drop (p + 4) m = d @ drop q m"
    using read_bytes_split [OF d] q by simp
  moreover have "q \<le> length m" using read_bytes_Inr [OF d] q by simp
  ultimately show ?thesis using hd by (simp add: str_enc_def)
qed

lemma Packet_new_eq:
  "Packet_new ps (Some m) =
     (if 4 \<le> length m then Inr \<lparr>payload_size = ps, payload = Some (fill m (u32_bytes ps))\<rparr>
      else Inl OutOfBounds)"
  using AddValue_fill [of 0 "[]" m "u32_bytes ps"] by (simp add: Packet_new_def)

lemma Packet_new_null [simp]: "Packet_new ps None = Inl NullDeref"
  by (simp add: Packet_new_def)

lemma payload_ptr_Some [simp]: "payload pk = Some m \<Longrightarrow> payload_ptr pk = Inr m"
  by (simp add: payload_ptr_def)

lemma finish_Some [simp]: "finish (Some b) m pk = pk\<lparr>payload := None\<rparr>"
  by (simp add: finish_def Release_def)

text \<open>A length field followed by as many bytes as it says.\<close>

definition framed :: "bytes \<Rightarrow> bytes" where
  "framed pl = u32_bytes (of_nat (length pl)) @ pl"

lemma length_framed [simp]: "length (framed pl) = 4 + length pl"
  by (simp add: framed_def)

lemma Packet_parse_framed:
  assumes "length pl + 4 < 4294967296"
  shows "Packet_parse (framed pl @ rest) =
    Inr \<lparr>payload_size = of_nat (length pl), payload = Some (framed pl)\<rparr>"
proof -
  have "read_bytes (framed pl @ rest) 0 4 = Inr (u32_bytes (of_nat (length pl)))"
    by (simp add: framed_def read_bytes_def)
  moreover have "read_bytes (framed pl @ rest) 0 (length pl + 4) = Inr (framed pl)"
    by (simp add: read_bytes_def)
  ultimately show ?thesis
    using assms by (simp add: Packet_parse_def ReadValue_def unat_add_4)
qed

lemma Packet_parse_short:
  assumes "length pl + 4 < 4294967296" and "n < length (framed pl)"
  shows "Packet_parse (take n (framed pl)) = Inl OutOfBounds"
proof (cases "n < 4")
  case True
  then show ?thesis
    using assms by (simp add: Packet_parse_def ReadValue_def read_bytes_short)
next
  case False
  then have "read_bytes (take n (framed pl)) 0 4 = Inr (u32_bytes (of_nat (length pl)))"
    by (simp add: framed_def read_bytes_def)
  moreover have "read_bytes (take n (framed pl)) 0 (length pl + 4) = Inl OutOfBounds"
    using assms(2) by (simp add: read_bytes_short)
  ultimately show ?thesis
    using assms by (simp add: Packet_parse_def ReadValue_def unat_add_4)
qed

lemma Packet_parse_size:
  "Packet_parse buf = Inr pk \<Longrightarrow>
     \<exists>m. payload pk = Some m \<and> length m = ToBinary_size pk \<and> m = take (ToBinary_size pk) buf
         \<and> ToBinary_size pk \<le> length buf"
  by (auto simp: Packet_parse_def ReadValue_def ToBinary_size_def Let_def result_simps
      dest!: read_bytes_Inr)

section \<open>The contract of a packet format\<close>

text \<open>
  What the handlers, the proxy and the client rely on: an encoding that starts with the size
  of the rest, a constructor that writes exactly the encoding at the start of the caller's
  buffer, and a factory that reads it back whatever follows it. \<open>norm\<close> is what the format
  keeps of a value, \<open>osize\<close> the size of \<^verbatim>\<open>ToBinary()\<close> of the built object.
\<close>

locale wire_codec =
  fixes wf :: "'a \<Rightarrow> bool"
    and enc :: "'a \<Rightarrow> bytes"
    and norm :: "'a \<Rightarrow> 'a"
    and build :: "'a \<Rightarrow> bytes option \<Rightarrow> ('p \<times> bytes) result"
    and osize :: "'p \<Rightarrow> nat"
    and parse :: "bytes \<Rightarrow> 'q option result"
    and view :: "'q \<Rightarrow> 'a"
  assumes enc_framed: "wf x \<Longrightarrow> \<exists>pl. enc x = framed pl \<and> length pl + 4 < 4294967296"
    and enc_norm: "enc (norm x) = enc x"
    and build_null: "build x None = Inl NullDeref"
    and build_fits: "wf x \<Longrightarrow> length (enc x) \<le> length m \<Longrightarrow>
      \<exists>p. build x (Some m) = Inr (p, fill m (enc x)) \<and> osize p = length (enc x)"
    and build_short: "wf x \<Longrightarrow> length m < length (enc x) \<Longrightarrow> build x (Some m) = Inl OutOfBounds"
    and parse_enc: "wf x \<Longrightarrow> \<exists>q. parse (enc x @ rest) = Inr (Some q) \<and> view q = norm x"
    and parse_short: "wf x \<Longrightarrow> n < length (enc x) \<Longrightarrow> parse (take n (enc x)) = Inl OutOfBounds"
begin

lemma build_returns_iff:
  "wf x \<Longrightarrow> (\<exists>p m'. build x (Some m) = Inr (p, m')) \<longleftrightarrow> length (enc x) \<le> length m"
  using build_fits [of x m] build_short [of x m] by (cases "length (enc x) \<le> length m") auto

lemma build_writes:
  assumes "wf x" and "build x (Some m) = Inr (p, m')"
  shows "m' = fill m (enc x) \<and> osize p = length (enc x) \<and> length m' = length m"
proof -
  have le: "length (enc x) \<le> length m" using assms build_returns_iff by blast
  then show ?thesis using assms build_fits [OF assms(1) le] by auto
qed

lemma parse_built:
  assumes "wf x" and "build x (Some m) = Inr (p, m')"
  shows "\<exists>q. parse m' = Inr (Some q) \<and> view q = norm x"
  using build_writes [OF assms] parse_enc [OF assms(1), of "drop (length (enc x)) m"]
  by (simp add: fill_def)

lemma prefix_free:
  assumes "wf x" and "wf y" and eq: "enc x @ r = enc y @ s"
  shows "norm x = norm y \<and> r = s"
proof -
  obtain q where q: "parse (enc x @ r) = Inr (Some q)" "view q = norm x"
    using parse_enc [OF assms(1)] by blast
  obtain q' where q': "parse (enc y @ s) = Inr (Some q')" "view q' = norm y"
    using parse_enc [OF assms(2)] by blast
  have n: "norm x = norm y" using q q' eq by simp
  then have "enc x = enc y" using enc_norm [of x] enc_norm [of y] by simp
  then show ?thesis using eq n by simp
qed

lemma parse_truncated: "wf x \<Longrightarrow> enc x = a @ b \<Longrightarrow> b \<noteq> [] \<Longrightarrow> parse a = Inl OutOfBounds"
  using parse_short [of x "length a"] by simp

lemma length_field: "wf x \<Longrightarrow> unat (bytes_u32 (take 4 (enc x @ rest)) + 4) = length (enc x)"
  using enc_framed [of x] by (auto simp: framed_def unat_add_4)

end

end
