(* ===== verification/Sqpkv_Command.thy ===== *)
theory Sqpkv_Command
  imports Sqpkv_Packet
begin

text \<open>
  The command packets \<^verbatim>\<open>GetPacket\<close>, \<^verbatim>\<open>PutPacket\<close>, \<^verbatim>\<open>DeletePacket\<close> and
  \<^verbatim>\<open>GetAllPacket\<close> of \<^verbatim>\<open>src/protocol/packet.cc\<close> and
  \<^verbatim>\<open>CommandPacketFactory\<close>; the abstract command a packet stands for, its encoding, and
  the proof that they satisfy the contract \<open>wire_codec\<close>.
\<close>

section \<open>The packet classes\<close>

text \<open>Each object holds its packet part and the slices read from it.\<close>

datatype command_packet =
    GetPacket packet bytes
  | PutPacket packet bytes bytes
  | DeletePacket packet bytes
  | GetAllPacket packet bytes

fun GetOp :: "command_packet \<Rightarrow> op_code" where
  "GetOp (GetPacket pk key) = kGet"
| "GetOp (PutPacket pk key value) = kPut"
| "GetOp (DeletePacket pk key) = kDelete"
| "GetOp (GetAllPacket pk prefix) = kGetAll"

fun command_base :: "command_packet \<Rightarrow> packet" where
  "command_base (GetPacket pk key) = pk"
| "command_base (PutPacket pk key value) = pk"
| "command_base (DeletePacket pk key) = pk"
| "command_base (GetAllPacket pk prefix) = pk"

definition GetPacket_HeaderSize :: u32 where
  "GetPacket_HeaderSize = Packet_HeaderSize + 1 + 4"

definition PutPacket_HeaderSize :: u32 where
  "PutPacket_HeaderSize = Packet_HeaderSize + 1 + 4 + 4"

definition DeletePacket_HeaderSize :: u32 where
  "DeletePacket_HeaderSize = Packet_HeaderSize + 1 + 4"

definition GetAllPacket_HeaderSize :: u32 where
  "GetAllPacket_HeaderSize = Packet_HeaderSize + 1 + 4"

lemmas HeaderSize_defs = Packet_HeaderSize_def GetPacket_HeaderSize_def
  PutPacket_HeaderSize_def DeletePacket_HeaderSize_def GetAllPacket_HeaderSize_def

subsection \<open>Building a packet\<close>

text \<open>
  The bodies of the \<^verbatim>\<open>Get\<close>, \<^verbatim>\<open>Delete\<close> and \<^verbatim>\<open>GetAll\<close> constructors are the
  same up to the operation code: the operation code, one string, and the slice read back.
\<close>

definition one_string_new ::
  "op_code \<Rightarrow> u32 \<Rightarrow> (packet \<Rightarrow> bytes \<Rightarrow> command_packet) \<Rightarrow> bytes \<Rightarrow> bytes option
     \<Rightarrow> (command_packet \<times> bytes) result" where
  "one_string_new op header mk s buf =
     bindR (Packet_new (header + of_nat (length s)) buf) (\<lambda>pk.
     bindR (payload_ptr pk) (\<lambda>m.
     bindR (AddValue m Packet_Payload [op_byte op]) (\<lambda>(p, m).
     bindR (AddString m p s) (\<lambda>(p, m).
     bindR (ReadSlice m (Packet_Payload + 1)) (\<lambda>(slice, _).
     Inr (mk (finish buf m pk) slice, m))))))"

definition GetPacket_new :: "bytes \<Rightarrow> bytes option \<Rightarrow> (command_packet \<times> bytes) result" where
  "GetPacket_new = one_string_new kGet GetPacket_HeaderSize GetPacket"

definition DeletePacket_new :: "bytes \<Rightarrow> bytes option \<Rightarrow> (command_packet \<times> bytes) result" where
  "DeletePacket_new = one_string_new kDelete DeletePacket_HeaderSize DeletePacket"

definition GetAllPacket_new :: "bytes \<Rightarrow> bytes option \<Rightarrow> (command_packet \<times> bytes) result" where
  "GetAllPacket_new = one_string_new kGetAll GetAllPacket_HeaderSize GetAllPacket"

definition PutPacket_new ::
  "bytes \<Rightarrow> bytes \<Rightarrow> bytes option \<Rightarrow> (command_packet \<times> bytes) result" where
  "PutPacket_new key value buf =
     bindR (Packet_new (PutPacket_HeaderSize + of_nat (length key) + of_nat (length value)) buf)
       (\<lambda>pk.
     bindR (payload_ptr pk) (\<lambda>m.
     bindR (AddValue m Packet_Payload [op_byte kPut]) (\<lambda>(p, m).
     bindR (AddString m p key) (\<lambda>(p, m).
     bindR (AddString m p value) (\<lambda>(p, m).
     bindR (ReadSlice m (Packet_Payload + 1)) (\<lambda>(k, q).
     bindR (ReadSlice m q) (\<lambda>(v, _).
     Inr (PutPacket (finish buf m pk) k v, m))))))))"

subsection \<open>Parsing a packet\<close>

definition GetPacket_parse :: "bytes \<Rightarrow> command_packet result" where
  "GetPacket_parse buf =
     bindR (Packet_parse buf) (\<lambda>pk.
     bindR (payload_ptr pk) (\<lambda>m.
     bindR (ReadSlice m (Packet_Payload + 1)) (\<lambda>(key, _).
     Inr (GetPacket pk key))))"

definition PutPacket_parse :: "bytes \<Rightarrow> command_packet result" where
  "PutPacket_parse buf =
     bindR (Packet_parse buf) (\<lambda>pk.
     bindR (payload_ptr pk) (\<lambda>m.
     bindR (ReadSlice m (Packet_Payload + 1)) (\<lambda>(key, p).
     bindR (ReadSlice m p) (\<lambda>(value, _).
     Inr (PutPacket pk key value)))))"

definition DeletePacket_parse :: "bytes \<Rightarrow> command_packet result" where
  "DeletePacket_parse buf =
     bindR (Packet_parse buf) (\<lambda>pk.
     bindR (payload_ptr pk) (\<lambda>m.
     bindR (ReadSlice m (Packet_Payload + 1)) (\<lambda>(key, _).
     Inr (DeletePacket pk key))))"

definition GetAllPacket_parse :: "bytes \<Rightarrow> command_packet result" where
  "GetAllPacket_parse buf =
     bindR (Packet_parse buf) (\<lambda>pk.
     bindR (payload_ptr pk) (\<lambda>m.
     bindR (ReadSlice m (Packet_Payload + 1)) (\<lambda>(prefix, _).
     Inr (GetAllPacket pk prefix))))"

text \<open>\<^const>\<open>None\<close> is the null pointer the factory returns for an unknown operation.\<close>

definition CreateCommandPacket :: "bytes \<Rightarrow> command_packet option result" where
  "CreateCommandPacket buf =
     bindR (ReadValue buf 4 1) (\<lambda>(rep, _).
     case byte_op (hd rep) of
       Some kGet \<Rightarrow> make_unique (GetPacket_parse buf)
     | Some kPut \<Rightarrow> make_unique (PutPacket_parse buf)
     | Some kDelete \<Rightarrow> make_unique (DeletePacket_parse buf)
     | Some kGetAll \<Rightarrow> make_unique (GetAllPacket_parse buf)
     | None \<Rightarrow> Inr None)"

section \<open>Commands and their encoding\<close>

text \<open>The abstract command, and the format the comments of \<^verbatim>\<open>packet.h\<close> document.\<close>

datatype command = Get bytes | Put bytes bytes | Delete bytes | GetAll bytes

fun command_op :: "command \<Rightarrow> op_code" where
  "command_op (Get k) = kGet"
| "command_op (Put k v) = kPut"
| "command_op (Delete k) = kDelete"
| "command_op (GetAll p) = kGetAll"

fun command_args :: "command \<Rightarrow> bytes" where
  "command_args (Get k) = str_enc k"
| "command_args (Put k v) = str_enc k @ str_enc v"
| "command_args (Delete k) = str_enc k"
| "command_args (GetAll p) = str_enc p"

definition encode_command :: "command \<Rightarrow> bytes" where
  "encode_command c = framed (op_byte (command_op c) # command_args c)"

text \<open>The sizes \<^verbatim>\<open>uint32_t\<close> arithmetic can represent.\<close>

definition wf_command :: "command \<Rightarrow> bool" where
  "wf_command c \<longleftrightarrow> length (command_args c) + 5 < 4294967296"

fun command_new :: "command \<Rightarrow> bytes option \<Rightarrow> (command_packet \<times> bytes) result" where
  "command_new (Get k) = GetPacket_new k"
| "command_new (Put k v) = PutPacket_new k v"
| "command_new (Delete k) = DeletePacket_new k"
| "command_new (GetAll p) = GetAllPacket_new p"

fun packet_command :: "command_packet \<Rightarrow> command" where
  "packet_command (GetPacket pk key) = Get key"
| "packet_command (PutPacket pk key value) = Put key value"
| "packet_command (DeletePacket pk key) = Delete key"
| "packet_command (GetAllPacket pk prefix) = GetAll prefix"

lemma GetOp_packet_command: "GetOp p = command_op (packet_command p)"
  by (cases p) simp_all

lemma length_encode_command: "length (encode_command c) = 5 + length (command_args c)"
  by (simp add: encode_command_def)

section \<open>Building\<close>

lemma one_string_new_eq:
  fixes op :: op_code and s :: bytes
  defines "pl \<equiv> op_byte op # str_enc s"
  assumes hd: "header = 5" and len: "length s + 9 < 4294967296"
  shows "one_string_new op header mk s (Some m) =
    (if length (framed pl) \<le> length m
     then Inr (mk \<lparr>payload_size = of_nat (length pl), payload = None\<rparr> s, fill m (framed pl))
     else Inl OutOfBounds)"
proof -
  let ?ps = "of_nat (length pl) :: u32"
  have ps: "header + of_nat (length s) = ?ps" by (simp add: hd pl_def)
  have fr: "framed pl = u32_bytes ?ps @ op_byte op # str_enc s"
    by (simp add: framed_def pl_def)
  have rd: "ReadSlice (fill m (u32_bytes ?ps @ op_byte op # str_enc s)) 5 =
      Inr (s, 5 + (4 + length s))"
    using ReadSlice_at [of 5 "u32_bytes ?ps @ [op_byte op]" s] len by (simp add: fill_def)
  show ?thesis
    using len unfolding one_string_new_def ps fr
    by (auto simp: Packet_new_eq Packet_Payload_def buffer_simps rd)
qed

lemma PutPacket_new_eq:
  fixes k v :: bytes
  defines "pl \<equiv> op_byte kPut # str_enc k @ str_enc v"
  assumes len: "length k + length v + 13 < 4294967296"
  shows "PutPacket_new k v (Some m) =
    (if length (framed pl) \<le> length m
     then Inr (PutPacket \<lparr>payload_size = of_nat (length pl), payload = None\<rparr> k v,
               fill m (framed pl))
     else Inl OutOfBounds)"
proof -
  let ?ps = "of_nat (length pl) :: u32"
  let ?b = "u32_bytes ?ps @ [op_byte kPut] @ str_enc k @ str_enc v"
  have ps: "PutPacket_HeaderSize + of_nat (length k) + of_nat (length v) = ?ps"
    by (simp add: HeaderSize_defs pl_def)
  have fr: "framed pl = ?b" by (simp add: framed_def pl_def)
  have rk: "ReadSlice (fill m ?b) 5 = Inr (k, 5 + (4 + length k))"
    using ReadSlice_at [of 5 "u32_bytes ?ps @ [op_byte kPut]" k] len by (simp add: fill_def)
  have rv: "ReadSlice (fill m ?b) (9 + length k) = Inr (v, 9 + length k + (4 + length v))"
    using ReadSlice_at [of "9 + length k" "u32_bytes ?ps @ [op_byte kPut] @ str_enc k" v] len
    by (simp add: fill_def)
  show ?thesis
    using len rk rv unfolding PutPacket_new_def ps fr
    by (auto simp: Packet_new_eq Packet_Payload_def buffer_simps)
qed

text \<open>The object a constructor builds into a caller's buffer: its payload is released.\<close>

definition built_packet :: "command \<Rightarrow> packet" where
  "built_packet c =
     \<lparr>payload_size = of_nat (length (encode_command c) - 4), payload = None\<rparr>"

fun command_object :: "packet \<Rightarrow> command \<Rightarrow> command_packet" where
  "command_object pk (Get k) = GetPacket pk k"
| "command_object pk (Put k v) = PutPacket pk k v"
| "command_object pk (Delete k) = DeletePacket pk k"
| "command_object pk (GetAll p) = GetAllPacket pk p"

lemma packet_command_object [simp]: "packet_command (command_object pk c) = c"
  by (cases c) simp_all

lemma command_base_object [simp]: "command_base (command_object pk c) = pk"
  by (cases c) simp_all

lemma command_new_eq:
  assumes "wf_command c"
  shows "command_new c (Some m) =
    (if length (encode_command c) \<le> length m
     then Inr (command_object (built_packet c) c, fill m (encode_command c))
     else Inl OutOfBounds)"
  using assms
  by (cases c)
    (simp_all add: wf_command_def encode_command_def built_packet_def one_string_new_eq
      PutPacket_new_eq GetPacket_new_def DeletePacket_new_def GetAllPacket_new_def HeaderSize_defs)

lemma command_new_null: "command_new c None = Inl NullDeref"
  by (cases c)
    (simp_all add: GetPacket_new_def DeletePacket_new_def GetAllPacket_new_def
      one_string_new_def PutPacket_new_def)

section \<open>Parsing\<close>

definition received_packet :: "command \<Rightarrow> packet" where
  "received_packet c =
     \<lparr>payload_size = of_nat (length (encode_command c) - 4), payload = Some (encode_command c)\<rparr>"

lemma ReadSlice_framed:
  assumes "length s < 4294967296"
  shows "ReadSlice (framed (b # str_enc s @ post)) 5 = Inr (s, 9 + length s)"
  using ReadSlice_at [of 5 "u32_bytes (of_nat (length (b # str_enc s @ post))) @ [b]" s post] assms
  by (simp add: framed_def)

lemma ReadSlice_framed_second:
  assumes "length s < 4294967296"
  shows "ReadSlice (framed (b # str_enc k @ str_enc s)) (9 + length k) =
    Inr (s, 13 + length k + length s)"
  using assms ReadSlice_at [of "9 + length k"
      "u32_bytes (of_nat (length (b # str_enc k @ str_enc s))) @ b # str_enc k" s "[]"]
  by (simp add: framed_def)

lemma ReadValue_op:
  "ReadValue (framed (b # pl) @ rest) 4 1 = Inr ([b], 5)"
  using read_bytes_mid [of 4 "u32_bytes (of_nat (length (b # pl)))" 1 "[b]" "pl @ rest"]
  by (simp add: ReadValue_def framed_def)

lemma CreateCommandPacket_dispatch:
  assumes "ReadValue buf 4 1 = Inr ([op_byte op], 5)"
  shows "CreateCommandPacket buf =
    (case op of
       kGet \<Rightarrow> make_unique (GetPacket_parse buf)
     | kPut \<Rightarrow> make_unique (PutPacket_parse buf)
     | kDelete \<Rightarrow> make_unique (DeletePacket_parse buf)
     | kGetAll \<Rightarrow> make_unique (GetAllPacket_parse buf))"
  using assms by (simp add: CreateCommandPacket_def)

lemma CreateCommandPacket_encode:
  assumes "wf_command c"
  shows "CreateCommandPacket (encode_command c @ rest) =
    Inr (Some (command_object (received_packet c) c))"
proof -
  have pk: "Packet_parse (encode_command c @ rest) = Inr (received_packet c)"
    using assms Packet_parse_framed [of "op_byte (command_op c) # command_args c" rest]
    by (simp add: wf_command_def encode_command_def received_packet_def)
  have op: "ReadValue (encode_command c @ rest) 4 1 = Inr ([op_byte (command_op c)], 5)"
    unfolding encode_command_def by (rule ReadValue_op)
  note create = CreateCommandPacket_dispatch [OF op]
  show ?thesis
  proof (cases c)
    case (Put k v)
    then show ?thesis
      using assms pk create
      by (simp add: PutPacket_parse_def received_packet_def
          wf_command_def encode_command_def Packet_Payload_def ReadSlice_framed
          ReadSlice_framed_second)
  qed (use assms pk create ReadSlice_framed [where post = "[]"] in
      \<open>simp_all add: GetPacket_parse_def DeletePacket_parse_def
        GetAllPacket_parse_def received_packet_def wf_command_def encode_command_def
        Packet_Payload_def\<close>)
qed

lemma CreateCommandPacket_short:
  assumes "wf_command c" and "n < length (encode_command c)"
  shows "CreateCommandPacket (take n (encode_command c)) = Inl OutOfBounds"
proof (cases "n < 5")
  case True
  then show ?thesis by (simp add: CreateCommandPacket_def ReadValue_def read_bytes_short)
next
  case False
  let ?pl = "op_byte (command_op c) # command_args c"
  have "Packet_parse (take n (encode_command c)) = Inl OutOfBounds"
    using assms Packet_parse_short [of ?pl n] by (simp add: wf_command_def encode_command_def)
  moreover have op:
    "ReadValue (take n (encode_command c)) 4 1 = Inr ([op_byte (command_op c)], 5)"
  proof -
    have "take n (encode_command c) = u32_bytes (of_nat (length ?pl)) @
        [op_byte (command_op c)] @ take (n - 5) (command_args c)"
      using False by (simp add: encode_command_def framed_def take_Cons' min_def)
    then show ?thesis by (simp add: ReadValue_def read_bytes_def)
  qed
  moreover note CreateCommandPacket_dispatch [OF op]
  ultimately show ?thesis
    by (cases "command_op c")
      (simp_all add: GetPacket_parse_def PutPacket_parse_def
        DeletePacket_parse_def GetAllPacket_parse_def)
qed

interpretation cmd: wire_codec wf_command encode_command id command_new
  "\<lambda>p. ToBinary_size (command_base p)" CreateCommandPacket packet_command
proof unfold_locales
  fix c :: command and m rest :: bytes and n :: nat
  show "encode_command (id c) = encode_command c" by simp
  show "command_new c None = Inl NullDeref" by (rule command_new_null)
  assume wf: "wf_command c"
  show "\<exists>pl. encode_command c = framed pl \<and> length pl + 4 < 4294967296"
    using wf by (auto simp: encode_command_def wf_command_def)
  show "\<exists>q. CreateCommandPacket (encode_command c @ rest) = Inr (Some q) \<and> packet_command q = id c"
    using wf by (simp add: CreateCommandPacket_encode)
  show "length m < length (encode_command c) \<Longrightarrow> command_new c (Some m) = Inl OutOfBounds"
    using wf by (simp add: command_new_eq)
  show "n < length (encode_command c) \<Longrightarrow>
      CreateCommandPacket (take n (encode_command c)) = Inl OutOfBounds"
    using wf by (rule CreateCommandPacket_short)
  have "unat (of_nat (Suc (length (command_args c))) + 4 :: u32) = 5 + length (command_args c)"
    using wf unat_add_4 [of "Suc (length (command_args c))"] by (simp add: wf_command_def)
  then have "ToBinary_size (built_packet c) = length (encode_command c)"
    by (simp add: ToBinary_size_def built_packet_def length_encode_command)
  then show "length (encode_command c) \<le> length m \<Longrightarrow>
      \<exists>p. command_new c (Some m) = Inr (p, fill m (encode_command c)) \<and>
        ToBinary_size (command_base p) = length (encode_command c)"
    using wf by (simp add: command_new_eq)
qed

section \<open>What the parser returns was on the wire\<close>

text \<open>The packet object holds a prefix of the received bytes, of exactly the size it announces,
  whose bytes from the first argument on start with \<open>args\<close>.\<close>

definition copied :: "bytes \<Rightarrow> packet \<Rightarrow> bytes \<Rightarrow> bool" where
  "copied buf pk args \<longleftrightarrow>
     payload pk = Some (take (ToBinary_size pk) buf) \<and> ToBinary_size pk \<le> length buf \<and>
     5 \<le> ToBinary_size pk \<and> (\<exists>tail. drop 5 (take (ToBinary_size pk) buf) = args @ tail)"

lemma copiedI:
  assumes "Packet_parse buf = Inr pk" and "payload_ptr pk = Inr m"
    and "ReadSlice m 5 = Inr (s, r)" and "drop r m = args @ tail"
  shows "copied buf pk (str_enc s @ args)"
  using Packet_parse_size [OF assms(1)] assms(2,4) ReadSlice_sound [OF assms(3)]
    ReadSlice_within [OF assms(3)]
  by (auto simp: copied_def)

lemma parse_one_string_sound:
  assumes "bindR (Packet_parse buf) (\<lambda>pk. bindR (payload_ptr pk) (\<lambda>m.
      bindR (ReadSlice m (Packet_Payload + 1)) (\<lambda>(s, _). Inr (mk pk s)))) = Inr q"
  shows "\<exists>pk s. q = mk pk s \<and> copied buf pk (str_enc s)"
  using assms copiedI [where args = "[]"]
  by (fastforce simp: result_simps Packet_Payload_def)

lemma PutPacket_parse_sound:
  assumes "PutPacket_parse buf = Inr q"
  shows "\<exists>pk k v. q = PutPacket pk k v \<and> copied buf pk (str_enc k @ str_enc v)"
  using assms copiedI ReadSlice_sound
  by (fastforce simp: PutPacket_parse_def result_simps Packet_Payload_def)

lemma one_string_parse_sound:
  assumes "GetPacket_parse buf = Inr q \<or> DeletePacket_parse buf = Inr q \<or>
    GetAllPacket_parse buf = Inr q"
  shows "copied buf (command_base q) (command_args (packet_command q))"
  using assms unfolding GetPacket_parse_def DeletePacket_parse_def GetAllPacket_parse_def
  by (elim disjE) (drule parse_one_string_sound, fastforce)+

lemma CreateCommandPacket_Some:
  assumes "CreateCommandPacket buf = Inr (Some q)"
  shows "5 \<le> length buf \<and> buf ! 4 = op_byte (GetOp q) \<and>
    (case GetOp q of kGet \<Rightarrow> GetPacket_parse buf | kPut \<Rightarrow> PutPacket_parse buf
       | kDelete \<Rightarrow> DeletePacket_parse buf | kGetAll \<Rightarrow> GetAllPacket_parse buf) = Inr q"
proof -
  from assms obtain rep where rep: "read_bytes buf 4 1 = Inr rep"
    by (auto simp: CreateCommandPacket_def ReadValue_def result_simps)
  then have len: "5 \<le> length buf" and "rep = [buf ! 4]"
    by (auto dest!: read_bytes_Inr simp: take_Suc hd_drop_conv_nth)
  then have rv: "ReadValue buf 4 1 = Inr ([buf ! 4], 5)"
    using rep by (simp add: ReadValue_def)
  then obtain op where op: "byte_op (buf ! 4) = Some op"
    using assms by (cases "byte_op (buf ! 4)") (auto simp: CreateCommandPacket_def)
  then have b: "buf ! 4 = op_byte op" by (simp add: byte_op_Some)
  have *: "CreateCommandPacket buf = (case op of
       kGet \<Rightarrow> make_unique (GetPacket_parse buf)
     | kPut \<Rightarrow> make_unique (PutPacket_parse buf)
     | kDelete \<Rightarrow> make_unique (DeletePacket_parse buf)
     | kGetAll \<Rightarrow> make_unique (GetAllPacket_parse buf))"
    using CreateCommandPacket_dispatch [of buf op] rv b by simp
  have "GetOp q = op"
    using assms * by (cases op)
      (auto simp: result_simps GetPacket_parse_def PutPacket_parse_def DeletePacket_parse_def
        GetAllPacket_parse_def)
  then show ?thesis
    using assms * b len by (cases op) (auto simp: result_simps)
qed

text \<open>C15: Parsing is sound for arbitrary received bytes: when the factory returns an object, the
  copied packet is a prefix of the received bytes of exactly the size it announces, and that
  prefix starts, after the length field, with the operation code and the arguments of the
  command the object stands for. No field of the object lies outside the packet.\<close>

theorem CreateCommandPacket_sound:
  assumes "CreateCommandPacket buf = Inr (Some q)"
  shows "\<exists>tail. ToBinary (command_base q) = Inr (take (ToBinary_size (command_base q)) buf) \<and>
     ToBinary_size (command_base q) \<le> length buf \<and>
     drop 4 (take (ToBinary_size (command_base q)) buf) =
       op_byte (GetOp q) # command_args (packet_command q) @ tail"
proof -
  note create = CreateCommandPacket_Some [OF assms]
  let ?m = "take (ToBinary_size (command_base q)) buf"
  have "copied buf (command_base q) (command_args (packet_command q))"
  proof (cases "GetOp q")
    case kPut
    then show ?thesis using create by (auto dest!: PutPacket_parse_sound)
  qed (use create one_string_parse_sound in auto)
  then obtain tail where m: "payload (command_base q) = Some ?m"
      "ToBinary_size (command_base q) \<le> length buf" "5 \<le> ToBinary_size (command_base q)"
      "drop 5 ?m = command_args (packet_command q) @ tail"
    by (auto simp: copied_def)
  have "drop 4 ?m = buf ! 4 # drop 5 ?m" using m(2,3) Cons_nth_drop_Suc [of 4 ?m] by simp
  moreover have "ToBinary (command_base q) = Inr ?m"
    using m(1,2) by (simp add: ToBinary_def read_bytes_def)
  ultimately show ?thesis using m create by auto
qed

text \<open>The packet a client sends to look up the key \<open>k_7\<close>.\<close>

lemma CreateCommandPacket_sound_witness:
  "\<exists>q. CreateCommandPacket ([8, 0, 0, 0, 0, 3, 0, 0, 0, 107, 95, 55] @ [99]) = Inr (Some q) \<and>
     (\<exists>tail. drop 4 (take (ToBinary_size (command_base q))
          ([8, 0, 0, 0, 0, 3, 0, 0, 0, 107, 95, 55] @ [99])) =
       op_byte (GetOp q) # command_args (packet_command q) @ tail)"
proof -
  have "encode_command (Get [107, 95, 55]) = [8, 0, 0, 0, 0, 3, 0, 0, 0, 107, 95, 55]"
    by (simp add: encode_command_def framed_def str_enc_def u32_bytes_def)
  then have "CreateCommandPacket ([8, 0, 0, 0, 0, 3, 0, 0, 0, 107, 95, 55] @ [99]) =
      Inr (Some (GetPacket (received_packet (Get [107, 95, 55])) [107, 95, 55]))"
    using CreateCommandPacket_encode [of "Get [107, 95, 55]" "[99]"]
    by (simp add: wf_command_def)
  from this CreateCommandPacket_sound [OF this] show ?thesis by blast
qed

section \<open>Properties of the command format\<close>

text \<open>The constructor of a command packet, given a caller's buffer, writes exactly the
  documented format at the start of the buffer, keeps the rest of it, and announces the size it
  wrote; it runs past the end of the buffer exactly when the packet is longer than the buffer.
  Without a buffer (the default argument, as every call in the client uses it) it writes through
  the null pointer.\<close>

lemma command_new_writes:
  assumes "wf_command c"
  shows "command_new c None = Inl NullDeref \<and>
    (length m < length (encode_command c) \<longrightarrow> command_new c (Some m) = Inl OutOfBounds) \<and>
    (length (encode_command c) \<le> length m \<longrightarrow>
      (\<exists>p. command_new c (Some m) = Inr (p, fill m (encode_command c)) \<and>
        ToBinary_size (command_base p) = length (encode_command c) \<and>
        packet_command p = c \<and> ToBinary (command_base p) = Inl NullDeref))"
  using assms cmd.build_null cmd.build_short [OF assms] cmd.build_fits [OF assms, of m]
  by (auto simp: command_new_eq built_packet_def ToBinary_def payload_ptr_def split: if_splits)

lemma command_new_writes_witness:
  "\<exists>p. command_new (Put [107] [118, 118]) (Some (replicate 20 0)) =
     Inr (p, [12, 0, 0, 0, 1, 1, 0, 0, 0, 107, 2, 0, 0, 0, 118, 118, 0, 0, 0, 0])"
proof -
  have wf: "wf_command (Put [107] [118, 118])" by (simp add: wf_command_def)
  have "encode_command (Put [107] [118, 118]) =
      [12, 0, 0, 0, 1, 1, 0, 0, 0, 107, 2, 0, 0, 0, 118, 118]"
    by (simp add: encode_command_def framed_def str_enc_def u32_bytes_def)
  then show ?thesis
    using command_new_writes [OF wf, of "replicate 20 0"]
    by (auto simp: fill_def numeral_eq_Suc)
qed

text \<open>C11: Round trip of every command: whatever a constructor wrote into a buffer, the factory
  reads back from that buffer as a packet of the same operation with the same key, value or
  prefix, and the packet it returns holds the very bytes that were written, so it can be sent on
  unchanged.\<close>

theorem command_roundtrip:
  assumes "wf_command c" and "command_new c (Some m) = Inr (p, m')"
  shows "\<exists>q. CreateCommandPacket m' = Inr (Some q) \<and> packet_command q = c \<and>
     GetOp q = command_op c \<and> ToBinary (command_base q) = Inr (encode_command c)"
proof -
  have m': "m' = encode_command c @ drop (length (encode_command c)) m"
    using cmd.build_writes [OF assms] by (simp add: fill_def)
  obtain q where q: "CreateCommandPacket m' = Inr (Some q)" "packet_command q = c"
    using cmd.parse_built [OF assms] by auto
  have "q = command_object (received_packet c) c"
    using q(1) m' CreateCommandPacket_encode [OF assms(1)] by simp
  moreover have "ToBinary (received_packet c) = Inr (encode_command c)"
    using cmd.length_field [OF assms(1), of "[]"] assms(1)
    by (simp add: ToBinary_def ToBinary_size_def received_packet_def read_bytes_def
        encode_command_def framed_def wf_command_def)
  ultimately show ?thesis using q by (auto simp: GetOp_packet_command)
qed

lemma command_roundtrip_witness:
  "\<exists>p m' q. command_new (Delete [107, 95, 49]) (Some (replicate 16 255)) = Inr (p, m') \<and>
     CreateCommandPacket m' = Inr (Some q) \<and> packet_command q = Delete [107, 95, 49]"
proof -
  have wf: "wf_command (Delete [107, 95, 49])" by (simp add: wf_command_def)
  then obtain p m' where b: "command_new (Delete [107, 95, 49]) (Some (replicate 16 255)) = Inr (p, m')"
    using cmd.build_returns_iff [OF wf, of "replicate 16 255"]
    by (auto simp: length_encode_command)
  then show ?thesis using command_roundtrip [OF wf b] by blast
qed

text \<open>The command format is prefix-free: a byte stream starts with the encoding of at most
  one command, so packets that follow each other in a stream can be told apart by their bytes
  alone.\<close>

lemma command_prefix_free:
  assumes "wf_command c" and "wf_command d" and "encode_command c @ r = encode_command d @ s"
  shows "c = d \<and> r = s"
  using cmd.prefix_free [OF assms] by simp

lemma command_prefix_free_witness:
  "Get [107] = Get [107] \<and> [1, 2] = [1, 2::byte]"
  using command_prefix_free [of "Get [107]" "Get [107]" "[1, 2]" "[1, 2]"]
  by (simp add: wf_command_def)

text \<open>A proper prefix of a packet is never accepted: handed fewer bytes than the packet has,
  the factory reads past the end of what it was given.\<close>

lemma command_truncated:
  assumes "wf_command c" and "encode_command c = a @ b" and "b \<noteq> []"
  shows "CreateCommandPacket a = Inl OutOfBounds"
  using cmd.parse_truncated [OF assms] .

lemma command_truncated_witness:
  "CreateCommandPacket [6, 0, 0, 0, 0, 1, 0, 0] = Inl OutOfBounds"
  by (rule command_truncated [of "Get [107]" _ "[0, 107]"])
    (simp_all add: wf_command_def encode_command_def framed_def str_enc_def u32_bytes_def)

end
