(* ===== verification/Sqpkv_Response.thy ===== *)
theory Sqpkv_Response
  imports Sqpkv_Command
begin

text \<open>
  The response packets \<^verbatim>\<open>GetResponsePacket\<close>, \<^verbatim>\<open>PutResponsePacket\<close>,
  \<^verbatim>\<open>DeleteResponsePacket\<close> and \<^verbatim>\<open>GetAllResponsePacket\<close> of
  \<^verbatim>\<open>src/protocol/packet.cc\<close> and \<^verbatim>\<open>ResponsePacketFactory\<close>; the abstract
  response, its encoding, and the proof that all but the \<^verbatim>\<open>GetAll\<close> response satisfy the
  contract \<open>wire_codec\<close>; what is special about the \<^verbatim>\<open>GetAll\<close> response.
\<close>

section \<open>The packet classes\<close>

record resp_packet = packet +
  status_of :: status
  extra_header_size :: u32

datatype response_packet =
    GetResponsePacket resp_packet bytes
  | PutResponsePacket resp_packet
  | DeleteResponsePacket resp_packet
  | GetAllResponsePacket resp_packet "bytes list"

fun response_base :: "response_packet \<Rightarrow> resp_packet" where
  "response_base (GetResponsePacket rp value) = rp"
| "response_base (PutResponsePacket rp) = rp"
| "response_base (DeleteResponsePacket rp) = rp"
| "response_base (GetAllResponsePacket rp keys) = rp"

definition ResponsePacket_HeaderSize :: u32 where
  "ResponsePacket_HeaderSize = Packet_HeaderSize + 6"

definition GetResponsePacket_HeaderSize :: u32 where
  "GetResponsePacket_HeaderSize = ResponsePacket_HeaderSize + 4"

definition GetAllResponsePacket_HeaderSize :: u32 where
  "GetAllResponsePacket_HeaderSize = ResponsePacket_HeaderSize + 4"

lemmas response_HeaderSize_defs = HeaderSize_defs ResponsePacket_HeaderSize_def
  GetResponsePacket_HeaderSize_def GetAllResponsePacket_HeaderSize_def

text \<open>\<^verbatim>\<open>ResponsePacket::Payload\<close>: behind the status.\<close>

definition ResponsePacket_Payload :: "resp_packet \<Rightarrow> nat" where
  "ResponsePacket_Payload rp = Packet_Payload + unat (extra_header_size rp)"

text \<open>\<^verbatim>\<open>SumSizes\<close>: the accumulator is a \<^verbatim>\<open>uint32_t\<close>.\<close>

definition SumSizes :: "bytes list \<Rightarrow> u32" where
  "SumSizes keys = fold (\<lambda>key sum. sum + (4 + of_nat (length key))) keys 0"

subsection \<open>Building a packet\<close>

text \<open>The status is written, and not kept in the object: \<^verbatim>\<open>status_\<close> stays the default.\<close>

definition ResponsePacket_new ::
  "u32 \<Rightarrow> op_code \<Rightarrow> status \<Rightarrow> bytes option \<Rightarrow> (resp_packet \<times> bytes) result" where
  "ResponsePacket_new ps op st buf =
     bindR (Packet_new ps buf) (\<lambda>pk.
     bindR (payload_ptr pk) (\<lambda>m.
     bindR (AddValue m Packet_Payload [op_byte op]) (\<lambda>(p, m).
     bindR (AddValue m p [code_byte (code st)]) (\<lambda>(p, m).
     bindR (AddString m p (message st)) (\<lambda>(_, m).
     Inr (\<lparr>payload_size = ps, payload = Some m, status_of = Status_Ok,
            extra_header_size = 6 + of_nat (length (message st))\<rparr>, m))))))"

definition GetResponsePacket_new ::
  "status \<Rightarrow> bytes \<Rightarrow> bytes option \<Rightarrow> (response_packet \<times> bytes) result" where
  "GetResponsePacket_new st value buf =
     bindR (ResponsePacket_new
       (GetResponsePacket_HeaderSize + of_nat (length (message st)) + of_nat (length value))
       kGet st buf) (\<lambda>(rp, m).
     bindR (AddString m (ResponsePacket_Payload rp) value) (\<lambda>(_, m).
     Inr (GetResponsePacket (finish buf m rp) [], m)))"

definition PutResponsePacket_new ::
  "status \<Rightarrow> bytes option \<Rightarrow> (response_packet \<times> bytes) result" where
  "PutResponsePacket_new st buf =
     bindR (ResponsePacket_new (ResponsePacket_HeaderSize + of_nat (length (message st)))
       kPut st buf) (\<lambda>(rp, m).
     Inr (PutResponsePacket (finish buf m rp), m))"

text \<open>The operation code the source writes here is \<^verbatim>\<open>kPut\<close>.\<close>

definition DeleteResponsePacket_new ::
  "status \<Rightarrow> bytes option \<Rightarrow> (response_packet \<times> bytes) result" where
  "DeleteResponsePacket_new st buf =
     bindR (ResponsePacket_new (ResponsePacket_HeaderSize + of_nat (length (message st)))
       kPut st buf) (\<lambda>(rp, m).
     Inr (DeleteResponsePacket (finish buf m rp), m))"

fun AddStrings :: "bytes \<Rightarrow> nat \<Rightarrow> bytes list \<Rightarrow> (nat \<times> bytes) result" where
  "AddStrings m p [] = Inr (p, m)"
| "AddStrings m p (key # keys) =
     bindR (AddString m p key) (\<lambda>(p, m). AddStrings m p keys)"

text \<open>The loop \<^verbatim>\<open>for (i = 0; i < num_keys; i++) ReadSlice(...)\<close>.\<close>

fun ReadSlices :: "bytes \<Rightarrow> nat \<Rightarrow> nat \<Rightarrow> (bytes list \<times> nat) result" where
  "ReadSlices m p 0 = Inr ([], p)"
| "ReadSlices m p (Suc n) =
     bindR (ReadSlice m p) (\<lambda>(key, p).
     bindR (ReadSlices m p n) (\<lambda>(keys, p). Inr (key # keys, p)))"

definition GetAllResponsePacket_new ::
  "status \<Rightarrow> bytes list \<Rightarrow> bytes option \<Rightarrow> (response_packet \<times> bytes) result" where
  "GetAllResponsePacket_new st keys buf =
     bindR (ResponsePacket_new (GetAllResponsePacket_HeaderSize + 4 + SumSizes keys)
       kGetAll st buf) (\<lambda>(rp, m).
     bindR (AddValue m (ResponsePacket_Payload rp) (u32_bytes (of_nat (length keys)))) (\<lambda>(p, m).
     bindR (AddStrings m p keys) (\<lambda>(_, m).
     bindR (ReadValue m (ResponsePacket_Payload rp) 4) (\<lambda>(rep, p).
     bindR (ReadSlices m p (unat (bytes_u32 rep))) (\<lambda>(ks, _).
     Inr (GetAllResponsePacket (finish buf m rp) ks, m))))))"

subsection \<open>Parsing a packet\<close>

text \<open>\<^verbatim>\<open>ResponsePacket(const char *buf)\<close> and \<^verbatim>\<open>ParseStatus\<close>.\<close>

definition ParseStatus :: "packet \<Rightarrow> resp_packet result" where
  "ParseStatus pk =
     bindR (payload_ptr pk) (\<lambda>m.
     bindR (ReadValue m (Packet_Payload + 1) 1) (\<lambda>(scode, p).
     bindR (ReadValue m p 4) (\<lambda>(rep, p).
     bindR (read_bytes m p (unat (bytes_u32 rep))) (\<lambda>msg.
     Inr \<lparr>payload_size = payload_size pk, payload = payload pk,
          status_of = \<lparr>code = byte_code (hd scode), message = msg\<rparr>,
          extra_header_size = 6 + bytes_u32 rep\<rparr>))))"

definition ResponsePacket_parse :: "bytes \<Rightarrow> resp_packet result" where
  "ResponsePacket_parse buf = bindR (Packet_parse buf) ParseStatus"

definition GetResponsePacket_parse :: "bytes \<Rightarrow> response_packet result" where
  "GetResponsePacket_parse buf =
     bindR (ResponsePacket_parse buf) (\<lambda>rp.
     bindR (payload_ptr rp) (\<lambda>m.
     bindR (ReadSlice m (ResponsePacket_Payload rp)) (\<lambda>(value, _).
     Inr (GetResponsePacket rp value))))"

definition PutResponsePacket_parse :: "bytes \<Rightarrow> response_packet result" where
  "PutResponsePacket_parse buf = bindR (ResponsePacket_parse buf) (\<lambda>rp. Inr (PutResponsePacket rp))"

definition DeleteResponsePacket_parse :: "bytes \<Rightarrow> response_packet result" where
  "DeleteResponsePacket_parse buf =
     bindR (ResponsePacket_parse buf) (\<lambda>rp. Inr (DeleteResponsePacket rp))"

definition GetAllResponsePacket_parse :: "bytes \<Rightarrow> response_packet result" where
  "GetAllResponsePacket_parse buf =
     bindR (ResponsePacket_parse buf) (\<lambda>rp.
     bindR (payload_ptr rp) (\<lambda>m.
     bindR (ReadValue m (ResponsePacket_Payload rp) 4) (\<lambda>(rep, p).
     bindR (ReadSlices m p (unat (bytes_u32 rep))) (\<lambda>(keys, _).
     Inr (GetAllResponsePacket rp keys)))))"

text \<open>\<^verbatim>\<open>AddKeys\<close> appends the keys of the packet to a vector.\<close>

definition AddKeys :: "bytes list \<Rightarrow> bytes list \<Rightarrow> bytes list" where
  "AddKeys packet_keys keys = keys @ packet_keys"

definition CreateResponsePacket :: "bytes \<Rightarrow> response_packet option result" where
  "CreateResponsePacket buf =
     bindR (ReadValue buf 4 1) (\<lambda>(rep, _).
     case byte_op (hd rep) of
       Some kGet \<Rightarrow> make_unique (GetResponsePacket_parse buf)
     | Some kPut \<Rightarrow> make_unique (PutResponsePacket_parse buf)
     | Some kDelete \<Rightarrow> make_unique (DeleteResponsePacket_parse buf)
     | Some kGetAll \<Rightarrow> make_unique (GetAllResponsePacket_parse buf)
     | None \<Rightarrow> Inr None)"

section \<open>Responses and their encoding\<close>

datatype response =
    RGet status bytes
  | RPut status
  | RDelete status
  | RGetAll status "bytes list"

fun response_op :: "response \<Rightarrow> op_code" where
  "response_op (RGet st v) = kGet"
| "response_op (RPut st) = kPut"
| "response_op (RDelete st) = kPut"
| "response_op (RGetAll st ks) = kGetAll"

fun response_status :: "response \<Rightarrow> status" where
  "response_status (RGet st v) = st"
| "response_status (RPut st) = st"
| "response_status (RDelete st) = st"
| "response_status (RGetAll st ks) = st"

definition keys_enc :: "bytes list \<Rightarrow> bytes" where
  "keys_enc ks = u32_bytes (of_nat (length ks)) @ concat (map str_enc ks)"

fun response_body :: "response \<Rightarrow> bytes" where
  "response_body (RGet st v) = str_enc v"
| "response_body (RPut st) = []"
| "response_body (RDelete st) = []"
| "response_body (RGetAll st ks) = keys_enc ks"

text \<open>Everything behind the length field, and what the length field is declared to be.\<close>

definition response_payload :: "response \<Rightarrow> bytes" where
  "response_payload r =
     op_byte (response_op r) # code_byte (code (response_status r)) #
     str_enc (message (response_status r)) @ response_body r"

definition encode_response :: "response \<Rightarrow> bytes" where
  "encode_response r = framed (response_payload r)"

definition is_getall :: "response \<Rightarrow> bool" where
  "is_getall r = (case r of RGetAll st ks \<Rightarrow> True | _ \<Rightarrow> False)"

definition wf_response :: "response \<Rightarrow> bool" where
  "wf_response r \<longleftrightarrow> \<not> is_getall r \<and> valid_code (code (response_status r)) \<and>
     length (response_payload r) + 4 < 4294967296"

fun response_new :: "response \<Rightarrow> bytes option \<Rightarrow> (response_packet \<times> bytes) result" where
  "response_new (RGet st v) = GetResponsePacket_new st v"
| "response_new (RPut st) = PutResponsePacket_new st"
| "response_new (RDelete st) = DeleteResponsePacket_new st"
| "response_new (RGetAll st ks) = GetAllResponsePacket_new st ks"

text \<open>What a parsed response says, and what the format keeps of a response: the answer to a
  delete travels as the answer to a put.\<close>

fun packet_response :: "response_packet \<Rightarrow> response" where
  "packet_response (GetResponsePacket rp v) = RGet (status_of rp) v"
| "packet_response (PutResponsePacket rp) = RPut (status_of rp)"
| "packet_response (DeleteResponsePacket rp) = RDelete (status_of rp)"
| "packet_response (GetAllResponsePacket rp ks) = RGetAll (status_of rp) ks"

fun response_norm :: "response \<Rightarrow> response" where
  "response_norm (RDelete st) = RPut st"
| "response_norm r = r"

lemma length_response_payload:
  "length (response_payload r) =
     6 + length (message (response_status r)) + length (response_body r)"
  by (simp add: response_payload_def)

lemma length_encode_response:
  "length (encode_response r) =
     10 + length (message (response_status r)) + length (response_body r)"
  by (simp add: encode_response_def length_response_payload)

lemma encode_response_norm [simp]: "encode_response (response_norm r) = encode_response r"
  by (cases r) (simp_all add: encode_response_def response_payload_def)

section \<open>Building\<close>

definition response_header :: "u32 \<Rightarrow> op_code \<Rightarrow> status \<Rightarrow> bytes" where
  "response_header ps op st =
     u32_bytes ps @ op_byte op # code_byte (code st) # str_enc (message st)"

lemma length_response_header [simp]:
  "length (response_header ps op st) = 10 + length (message st)"
  by (simp add: response_header_def)

lemma ResponsePacket_new_null [simp]: "ResponsePacket_new ps op st None = Inl NullDeref"
  by (simp add: ResponsePacket_new_def)

lemma ResponsePacket_new_eq:
  "ResponsePacket_new ps op st (Some m) =
     (if 10 + length (message st) \<le> length m
      then Inr (\<lparr>payload_size = ps, payload = Some (fill m (response_header ps op st)),
                 status_of = Status_Ok, extra_header_size = 6 + of_nat (length (message st))\<rparr>,
                fill m (response_header ps op st))
      else Inl OutOfBounds)"
  unfolding ResponsePacket_new_def response_header_def
  by (auto simp: Packet_new_eq Packet_Payload_def buffer_simps)

lemma Payload_offset:
  "length (message st) + 6 < 4294967296 \<Longrightarrow>
   extra_header_size rp = 6 + of_nat (length (message st)) \<Longrightarrow>
   ResponsePacket_Payload rp = 10 + length (message st)"
  using unat_of_nat_u32 [of "6 + length (message st)"]
  by (simp add: ResponsePacket_Payload_def Packet_Payload_def)

lemma encode_response_header:
  "encode_response r =
     response_header (of_nat (length (response_payload r))) (response_op r) (response_status r) @
     response_body r"
  by (simp add: encode_response_def framed_def response_header_def response_payload_def)

lemma GetResponsePacket_new_eq:
  fixes st :: status and v :: bytes
  defines "r \<equiv> RGet st v"
  assumes len: "length (response_payload r) + 4 < 4294967296"
  shows "GetResponsePacket_new st v (Some m) =
    (if length (encode_response r) \<le> length m
     then Inr (GetResponsePacket
            \<lparr>payload_size = of_nat (length (response_payload r)), payload = None,
             status_of = Status_Ok, extra_header_size = 6 + of_nat (length (message st))\<rparr> [],
          fill m (encode_response r))
     else Inl OutOfBounds)"
proof -
  have ps: "GetResponsePacket_HeaderSize + of_nat (length (message st)) + of_nat (length v) =
      (of_nat (length (response_payload r)) :: u32)"
    by (simp add: response_HeaderSize_defs length_response_payload r_def)
  have "length (message st) + 6 < 4294967296"
    using len by (simp add: length_response_payload r_def)
  then show ?thesis
    unfolding GetResponsePacket_new_def ps encode_response_header
    by (auto simp: r_def ResponsePacket_new_eq Payload_offset buffer_simps)
qed

lemma PutResponsePacket_new_eq:
  "PutResponsePacket_new st (Some m) =
    (if length (encode_response (RPut st)) \<le> length m
     then Inr (PutResponsePacket
            \<lparr>payload_size = of_nat (length (response_payload (RPut st))), payload = None,
             status_of = Status_Ok, extra_header_size = 6 + of_nat (length (message st))\<rparr>,
          fill m (encode_response (RPut st)))
     else Inl OutOfBounds)"
  unfolding PutResponsePacket_new_def encode_response_header
  by (simp add: response_HeaderSize_defs length_response_payload ResponsePacket_new_eq)

lemma DeleteResponsePacket_new_eq:
  "DeleteResponsePacket_new st (Some m) =
    (if length (encode_response (RDelete st)) \<le> length m
     then Inr (DeleteResponsePacket
            \<lparr>payload_size = of_nat (length (response_payload (RDelete st))), payload = None,
             status_of = Status_Ok, extra_header_size = 6 + of_nat (length (message st))\<rparr>,
          fill m (encode_response (RDelete st)))
     else Inl OutOfBounds)"
  unfolding DeleteResponsePacket_new_def encode_response_header
  by (simp add: response_HeaderSize_defs length_response_payload ResponsePacket_new_eq)

subsection \<open>The list of keys\<close>

abbreviation strs_enc :: "bytes list \<Rightarrow> bytes" where
  "strs_enc ks \<equiv> concat (map str_enc ks)"

lemma SumSizes_eq: "SumSizes ks = of_nat (length (strs_enc ks))"
proof -
  have "fold (\<lambda>key sum. sum + (4 + of_nat (length key))) ks a = a + of_nat (length (strs_enc ks))"
    for a :: u32
    by (induction ks arbitrary: a) (simp_all add: algebra_simps)
  then show ?thesis by (simp add: SumSizes_def)
qed

lemma AddStrings_fill [buffer_simps]:
  assumes "p = length pre" and "length pre \<le> length m"
  shows "AddStrings (fill m pre) p ks =
    (if p + length (strs_enc ks) \<le> length m
     then Inr (p + length (strs_enc ks), fill m (pre @ strs_enc ks)) else Inl OutOfBounds)"
  using assms
proof (induction ks arbitrary: p pre)
  case Nil
  then show ?case by simp
next
  case (Cons k ks)
  show ?case
  proof (cases "p + (4 + length k) \<le> length m")
    case True
    then show ?thesis
      using Cons.IH [of "p + (4 + length k)" "pre @ str_enc k"] Cons.prems
      by (simp add: AddString_fill add.assoc)
  next
    case False
    then show ?thesis using Cons.prems by (simp add: AddString_fill)
  qed
qed

lemma length_strs_enc: "k \<in> set ks \<Longrightarrow> length k + 4 \<le> length (strs_enc ks)"
  by (induction ks) auto

lemma length_list_strs_enc: "4 * length ks \<le> length (strs_enc ks)"
  by (induction ks) auto

lemma ReadSlices_at:
  assumes "p = length pre" and "length (strs_enc ks) < 4294967296"
  shows "ReadSlices (pre @ strs_enc ks @ post) p (length ks) =
    Inr (ks, p + length (strs_enc ks))"
  using assms
proof (induction ks arbitrary: p pre)
  case Nil
  then show ?case by simp
next
  case (Cons k ks)
  have "ReadSlice (pre @ str_enc k @ strs_enc ks @ post) p = Inr (k, p + (4 + length k))"
    using Cons.prems by (intro ReadSlice_at) simp_all
  moreover have "ReadSlices ((pre @ str_enc k) @ strs_enc ks @ post) (p + (4 + length k)) (length ks) =
      Inr (ks, p + (4 + length k) + length (strs_enc ks))"
    using Cons.prems by (intro Cons.IH) simp_all
  ultimately show ?case by (simp add: add.assoc)
qed

text \<open>The number of keys and the keys behind an arbitrary prefix.\<close>

lemma read_keys_at:
  assumes "p = length pre" and "length (strs_enc ks) < 4294967296"
  shows "bindR (ReadValue (pre @ keys_enc ks @ post) p 4) (\<lambda>(rep, p).
     bindR (ReadSlices (pre @ keys_enc ks @ post) p (unat (bytes_u32 rep))) (\<lambda>(keys, _). f keys)) =
     f ks"
proof -
  let ?n = "u32_bytes (of_nat (length ks))"
  have "read_bytes (pre @ keys_enc ks @ post) p 4 = Inr ?n"
    using read_bytes_mid [of p pre 4 ?n "strs_enc ks @ post"] assms by (simp add: keys_enc_def)
  moreover have "ReadSlices (pre @ keys_enc ks @ post) (p + 4) (length ks) =
      Inr (ks, p + 4 + length (strs_enc ks))"
    using ReadSlices_at [of "p + 4" "pre @ ?n" ks post] assms by (simp add: keys_enc_def)
  moreover have "length ks < 4294967296"
    using length_list_strs_enc [of ks] assms(2) by linarith
  ultimately show ?thesis by (simp add: ReadValue_def)
qed

lemma GetAllResponsePacket_new_eq:
  fixes st :: status and ks :: "bytes list"
  defines "ps \<equiv> of_nat (14 + length (strs_enc ks)) :: u32"
  defines "out \<equiv> response_header ps kGetAll st @ keys_enc ks"
  assumes len: "length (message st) + length (strs_enc ks) + 14 < 4294967296"
  shows "GetAllResponsePacket_new st ks (Some m) =
    (if length out \<le> length m
     then Inr (GetAllResponsePacket
            \<lparr>payload_size = ps, payload = None,
             status_of = Status_Ok, extra_header_size = 6 + of_nat (length (message st))\<rparr> ks,
          fill m out)
     else Inl OutOfBounds)"
proof -
  let ?h = "response_header ps kGetAll st"
  have ps: "GetAllResponsePacket_HeaderSize + 4 + SumSizes ks = ps"
    by (simp add: response_HeaderSize_defs SumSizes_eq ps_def)
  have rd: "bindR (ReadValue (fill m out) (10 + length (message st)) 4) (\<lambda>(rep, p).
     bindR (ReadSlices (fill m out) p (unat (bytes_u32 rep))) (\<lambda>(keys, _). f keys)) = f ks"
    for f :: "bytes list \<Rightarrow> (response_packet \<times> bytes) result"
    using read_keys_at [of "10 + length (message st)" ?h ks "drop (length out) m" f] len
    by (simp add: out_def fill_def)
  have "length (message st) + 6 < 4294967296" using len by simp
  then show ?thesis
    unfolding GetAllResponsePacket_new_def ps
    using rd
    by (auto simp: ResponsePacket_new_eq Payload_offset buffer_simps out_def keys_enc_def)
qed

section \<open>Parsing\<close>

text \<open>A packet may hold more bytes than its fields use: \<open>slack\<close> is what follows them.\<close>

definition received_resp :: "response \<Rightarrow> bytes \<Rightarrow> resp_packet" where
  "received_resp r slack =
     \<lparr>payload_size = of_nat (length (response_payload r @ slack)),
      payload = Some (framed (response_payload r @ slack)),
      status_of = response_status r,
      extra_header_size = 6 + of_nat (length (message (response_status r)))\<rparr>"

fun response_object :: "resp_packet \<Rightarrow> response \<Rightarrow> response_packet" where
  "response_object rp (RGet st v) = GetResponsePacket rp v"
| "response_object rp (RPut st) = PutResponsePacket rp"
| "response_object rp (RDelete st) = PutResponsePacket rp"
| "response_object rp (RGetAll st ks) = GetAllResponsePacket rp ks"

lemma packet_response_object:
  "status_of rp = response_status r \<Longrightarrow> packet_response (response_object rp r) = response_norm r"
  by (cases r) simp_all

lemma response_base_object [simp]: "response_base (response_object rp r) = rp"
  by (cases r) simp_all

definition response_bytes :: "response \<Rightarrow> bytes \<Rightarrow> bytes" where
  "response_bytes r slack =
     response_header (of_nat (length (response_payload r @ slack))) (response_op r)
       (response_status r) @ response_body r @ slack"

lemma framed_response: "framed (response_payload r @ slack) = response_bytes r slack"
  by (simp add: framed_def response_bytes_def response_header_def response_payload_def)

lemma ResponsePacket_parse_slack:
  assumes wf: "valid_code (code (response_status r))"
    and len: "length (response_payload r @ slack) + 4 < 4294967296"
  shows "ResponsePacket_parse (framed (response_payload r @ slack) @ rest) =
    Inr (received_resp r slack)"
proof -
  let ?pl = "response_payload r @ slack"
  let ?msg = "message (response_status r)"
  let ?h = "u32_bytes (of_nat (length ?pl)) @ [op_byte (response_op r)]"
  let ?tail = "response_body r @ slack"
  have fr: "framed ?pl = ?h @ [code_byte (code (response_status r))] @ str_enc ?msg @ ?tail"
    by (simp add: framed_def response_payload_def)
  have fr': "framed ?pl = (?h @ [code_byte (code (response_status r))]) @
      u32_bytes (of_nat (length ?msg)) @ ?msg @ ?tail"
    by (simp add: fr str_enc_def)
  have "read_bytes (framed ?pl) 5 1 = Inr [code_byte (code (response_status r))]"
    unfolding fr by (rule read_bytes_mid) simp_all
  moreover have "read_bytes (framed ?pl) 6 4 = Inr (u32_bytes (of_nat (length ?msg)))"
    unfolding fr' by (rule read_bytes_mid) simp_all
  moreover have "read_bytes (framed ?pl) 10 (length ?msg) = Inr ?msg"
    using read_bytes_mid [of 10 "?h @ [code_byte (code (response_status r))] @
        u32_bytes (of_nat (length ?msg))" "length ?msg" ?msg ?tail]
    by (simp add: fr')
  moreover have "length ?msg < 4294967296"
    using len by (simp add: length_response_payload)
  ultimately have "ParseStatus \<lparr>payload_size = of_nat (length ?pl), payload = Some (framed ?pl)\<rparr> =
      Inr (received_resp r slack)"
    using wf by (simp add: ParseStatus_def ReadValue_def Packet_Payload_def received_resp_def)
  then show ?thesis
    using Packet_parse_framed [OF len, of rest] by (simp add: ResponsePacket_parse_def)
qed

lemma ReadValue_response_op:
  "ReadValue (framed (response_payload r @ slack) @ rest) 4 1 =
     Inr ([op_byte (response_op r)], 5)"
  using ReadValue_op [of "op_byte (response_op r)" "tl (response_payload r) @ slack" rest]
  by (simp add: response_payload_def)

lemma CreateResponsePacket_dispatch:
  assumes "ReadValue buf 4 1 = Inr ([op_byte op], 5)"
  shows "CreateResponsePacket buf =
    (case op of
       kGet \<Rightarrow> make_unique (GetResponsePacket_parse buf)
     | kPut \<Rightarrow> make_unique (PutResponsePacket_parse buf)
     | kDelete \<Rightarrow> make_unique (DeleteResponsePacket_parse buf)
     | kGetAll \<Rightarrow> make_unique (GetAllResponsePacket_parse buf))"
  using assms by (simp add: CreateResponsePacket_def)

lemma CreateResponsePacket_slack:
  assumes wf: "valid_code (code (response_status r))"
    and len: "length (response_payload r @ slack) + 4 < 4294967296"
  shows "CreateResponsePacket (framed (response_payload r @ slack) @ rest) =
    Inr (Some (response_object (received_resp r slack) r))"
proof -
  let ?buf = "framed (response_payload r @ slack) @ rest"
  let ?h = "response_header (of_nat (length (response_payload r @ slack))) (response_op r)
    (response_status r)"
  have rp: "ResponsePacket_parse ?buf = Inr (received_resp r slack)"
    by (rule ResponsePacket_parse_slack [OF wf len])
  have off: "ResponsePacket_Payload (received_resp r slack) = length ?h"
    using len Payload_offset [of "response_status r" "received_resp r slack"]
    by (simp add: received_resp_def length_response_payload)
  have ptr: "payload_ptr (received_resp r slack) = Inr (?h @ response_body r @ slack)"
    by (simp add: received_resp_def framed_response response_bytes_def)
  note create = CreateResponsePacket_dispatch [OF ReadValue_response_op [of r slack rest]]
  show ?thesis
  proof (cases r)
    case (RGet st v)
    then have "ReadSlice (?h @ response_body r @ slack) (length ?h) = Inr (v, length ?h + (4 + length v))"
      using len ReadSlice_at [of "length ?h" ?h v slack] by (simp add: length_response_payload)
    then show ?thesis
      using create rp off ptr RGet by (simp add: GetResponsePacket_parse_def)
  next
    case (RGetAll st ks)
    have "length (strs_enc ks) < 4294967296"
      using len RGetAll by (simp add: length_response_payload keys_enc_def)
    then have "GetAllResponsePacket_parse ?buf = Inr (GetAllResponsePacket (received_resp r slack) ks)"
      using rp off ptr RGetAll
        read_keys_at [of "length ?h" ?h ks slack
          "\<lambda>keys. Inr (GetAllResponsePacket (received_resp r slack) keys)"]
      by (simp add: GetAllResponsePacket_parse_def)
    then show ?thesis using create RGetAll by simp
  qed (use create rp in \<open>simp_all add: PutResponsePacket_parse_def\<close>)
qed

lemma CreateResponsePacket_encode:
  assumes "wf_response r"
  shows "CreateResponsePacket (encode_response r @ rest) =
    Inr (Some (response_object (received_resp r []) r))"
  using assms CreateResponsePacket_slack [of r "[]" rest]
  by (simp add: wf_response_def encode_response_def)

lemma CreateResponsePacket_short:
  assumes "length pl + 4 < 4294967296" and "n < length (framed pl)" and "0 < length pl"
    and "byte_op (hd pl) \<noteq> None"
  shows "CreateResponsePacket (take n (framed pl)) = Inl OutOfBounds"
proof (cases "n < 5")
  case True
  then show ?thesis by (simp add: CreateResponsePacket_def ReadValue_def read_bytes_short)
next
  case False
  have parse: "Packet_parse (take n (framed pl)) = Inl OutOfBounds"
    using assms by (intro Packet_parse_short) simp_all
  obtain op where op: "hd pl = op_byte op" using assms(4) by (auto simp: byte_op_Some)
  have "take n (framed pl) = u32_bytes (of_nat (length pl)) @ hd pl # take (n - 5) (tl pl)"
    using False assms(3) by (cases pl) (simp_all add: framed_def take_Cons' min_def)
  then have "ReadValue (take n (framed pl)) 4 1 = Inr ([op_byte op], 5)"
    by (simp add: ReadValue_def read_bytes_def op)
  from CreateResponsePacket_dispatch [OF this] parse show ?thesis
    by (cases op)
      (simp_all add: GetResponsePacket_parse_def PutResponsePacket_parse_def
        DeleteResponsePacket_parse_def GetAllResponsePacket_parse_def ResponsePacket_parse_def)
qed

text \<open>The object a constructor builds into a caller's buffer.\<close>

definition built_resp :: "response \<Rightarrow> resp_packet" where
  "built_resp r =
     \<lparr>payload_size = of_nat (length (response_payload r)), payload = None,
      status_of = Status_Ok,
      extra_header_size = 6 + of_nat (length (message (response_status r)))\<rparr>"

lemma response_new_eq:
  assumes "wf_response r"
  shows "\<exists>p. response_base p = built_resp r \<and>
    response_new r (Some m) =
      (if length (encode_response r) \<le> length m then Inr (p, fill m (encode_response r))
       else Inl OutOfBounds)"
proof (cases r)
  case (RGet st v)
  then show ?thesis
    using assms
    by (intro exI [of _ "GetResponsePacket (built_resp r) []"])
      (simp add: GetResponsePacket_new_eq built_resp_def wf_response_def)
next
  case (RPut st)
  then show ?thesis
    by (intro exI [of _ "PutResponsePacket (built_resp r)"])
      (simp add: PutResponsePacket_new_eq built_resp_def)
next
  case (RDelete st)
  then show ?thesis
    by (intro exI [of _ "DeleteResponsePacket (built_resp r)"])
      (simp add: DeleteResponsePacket_new_eq built_resp_def)
next
  case (RGetAll st ks)
  then show ?thesis using assms by (simp add: wf_response_def is_getall_def)
qed

lemma response_new_null: "response_new r None = Inl NullDeref"
  by (cases r)
    (simp_all add: GetResponsePacket_new_def PutResponsePacket_new_def
      DeleteResponsePacket_new_def GetAllResponsePacket_new_def)

interpretation resp: wire_codec wf_response encode_response response_norm response_new
  "\<lambda>p. ToBinary_size (response_base p)" CreateResponsePacket packet_response
proof unfold_locales
  fix r :: response and m rest :: bytes and n :: nat
  show "encode_response (response_norm r) = encode_response r" by simp
  show "response_new r None = Inl NullDeref" by (rule response_new_null)
  assume wf: "wf_response r"
  show "\<exists>pl. encode_response r = framed pl \<and> length pl + 4 < 4294967296"
    using wf by (auto simp: encode_response_def wf_response_def)
  show "\<exists>q. CreateResponsePacket (encode_response r @ rest) = Inr (Some q) \<and>
      packet_response q = response_norm r"
    using wf by (simp add: CreateResponsePacket_encode packet_response_object received_resp_def)
  obtain p where p: "response_base p = built_resp r" "response_new r (Some m) =
      (if length (encode_response r) \<le> length m then Inr (p, fill m (encode_response r))
       else Inl OutOfBounds)"
    using response_new_eq [OF wf] by blast
  then show "length m < length (encode_response r) \<Longrightarrow> response_new r (Some m) = Inl OutOfBounds"
    by simp
  have "ToBinary_size (built_resp r) = length (encode_response r)"
    using wf by (simp add: ToBinary_size_def built_resp_def encode_response_def unat_add_4
        wf_response_def)
  then show "length (encode_response r) \<le> length m \<Longrightarrow>
      \<exists>p. response_new r (Some m) = Inr (p, fill m (encode_response r)) \<and>
        ToBinary_size (response_base p) = length (encode_response r)"
    using p by auto
  show "n < length (encode_response r) \<Longrightarrow>
      CreateResponsePacket (take n (encode_response r)) = Inl OutOfBounds"
    using wf CreateResponsePacket_short [of "response_payload r" n]
    by (simp add: encode_response_def wf_response_def response_payload_def)
qed

section \<open>Properties of the response format\<close>

text \<open>C12: Round trip of the get, put and delete responses: what the constructor wrote into the
  caller's buffer, whatever follows it there, is read back by the factory with the same status
  and value. The answer to a delete carries the operation code of a put, so it comes back as a
  put response with the same status. The object reports the exact size of the packet, and keeps
  neither the bytes nor the status it was built from.\<close>

theorem response_roundtrip:
  assumes "wf_response r" and "response_new r (Some m) = Inr (p, m')"
  shows "\<exists>q. CreateResponsePacket m' = Inr (Some q) \<and> packet_response q = response_norm r \<and>
     status_of (response_base q) = response_status r \<and>
     m' = fill m (encode_response r) \<and> ToBinary_size (response_base p) = length (encode_response r) \<and>
     ToBinary (response_base p) = Inl NullDeref \<and> status_of (response_base p) = Status_Ok"
proof -
  note w = resp.build_writes [OF assms]
  have "CreateResponsePacket m' = Inr (Some (response_object (received_resp r []) r))"
    using w CreateResponsePacket_encode [OF assms(1)] by (simp add: fill_def)
  moreover have "response_base p = built_resp r"
    using response_new_eq [OF assms(1), of m] assms(2) by (auto split: if_splits)
  ultimately show ?thesis
    using w by (simp add: packet_response_object received_resp_def built_resp_def ToBinary_def
        payload_ptr_def)
qed

lemma response_roundtrip_witness:
  "\<exists>p m' q. response_new (RDelete Status_Ok) (Some (replicate 14 7)) = Inr (p, m') \<and>
     CreateResponsePacket m' = Inr (Some q) \<and> packet_response q = RPut Status_Ok"
proof -
  have wf: "wf_response (RDelete Status_Ok)"
    by (simp add: wf_response_def is_getall_def length_response_payload Status_Ok_def)
  then obtain p m' where b: "response_new (RDelete Status_Ok) (Some (replicate 14 7)) = Inr (p, m')"
    using resp.build_returns_iff [OF wf, of "replicate 14 7"]
    by (auto simp: length_encode_response Status_Ok_def)
  then show ?thesis using response_roundtrip [OF wf b] by auto
qed

text \<open>What the constructor of the GetAll response writes, and the size it declares: the message
  is left out and four bytes are counted twice.\<close>

definition getall_written :: "bytes list \<Rightarrow> bytes" where
  "getall_written ks =
     response_header (of_nat (14 + length (strs_enc ks))) kGetAll Status_Ok @ keys_enc ks"

definition getall_size :: "bytes list \<Rightarrow> nat" where
  "getall_size ks = 18 + length (strs_enc ks)"

lemma length_getall_written [simp]: "length (getall_written ks) = 16 + length (strs_enc ks)"
  by (simp add: getall_written_def keys_enc_def)

lemma GetAllResponsePacket_new_ok:
  assumes "length (strs_enc ks) + 18 < 4294967296"
  shows "GetAllResponsePacket_new Status_Ok ks (Some m) =
    (if length (getall_written ks) \<le> length m
     then Inr (GetAllResponsePacket
            \<lparr>payload_size = of_nat (14 + length (strs_enc ks)), payload = None,
             status_of = Status_Ok, extra_header_size = 6 + of_nat (length (message Status_Ok))\<rparr> ks,
          fill m (getall_written ks))
     else Inl OutOfBounds)"
  unfolding getall_written_def by (rule GetAllResponsePacket_new_eq) (use assms in simp)

lemma GetAllResponsePacket_written:
  assumes "length (strs_enc ks) + 18 < 4294967296"
  shows "(length m < length (getall_written ks) \<longrightarrow>
       response_new (RGetAll Status_Ok ks) (Some m) = Inl OutOfBounds) \<and>
     (length (getall_written ks) \<le> length m \<longrightarrow>
       (\<exists>p. response_new (RGetAll Status_Ok ks) (Some m) = Inr (p, fill m (getall_written ks)) \<and>
          ToBinary_size (response_base p) = length (getall_written ks) + 2))"
proof -
  have "unat (of_nat (14 + length (strs_enc ks)) + 4 :: u32) = length (getall_written ks) + 2"
    using unat_add_4 [of "14 + length (strs_enc ks)"] assms by simp
  then show ?thesis
    using GetAllResponsePacket_new_ok [OF assms] by (simp add: ToBinary_size_def)
qed

text \<open>The GetAll response leaves the status message out of the declared size and counts four
  bytes twice. With the message \<open>OK\<close>, the only one the servers send, the packet is two bytes
  longer than what the constructor wrote: the last two bytes on the wire are whatever the
  caller's buffer held there. The constructor only needs room for what it writes, so it returns
  with a size up to two bytes beyond the end of the buffer.\<close>

lemma getall_response_size:
  assumes "length (strs_enc ks) + 18 < 4294967296"
  shows "(length m < length (getall_written ks) \<longrightarrow>
       response_new (RGetAll Status_Ok ks) (Some m) = Inl OutOfBounds) \<and>
     (length (getall_written ks) \<le> length m \<longrightarrow>
       (\<exists>p. response_new (RGetAll Status_Ok ks) (Some m) = Inr (p, fill m (getall_written ks)) \<and>
          ToBinary_size (response_base p) = length (getall_written ks) + 2))"
  by (rule GetAllResponsePacket_written [OF assms])

lemma getall_response_size_witness:
  "\<exists>p m'. response_new (RGetAll Status_Ok [[107]]) (Some (replicate 21 0)) = Inr (p, m') \<and>
     length m' = 21 \<and> ToBinary_size (response_base p) = 23"
  using getall_response_size [of "[[107]]" "replicate 21 0"] by (auto simp: getall_size_def)

lemma GetAllResponsePacket_parse_written:
  assumes "length (strs_enc ks) + 18 < 4294967296" and "getall_size ks \<le> length m"
    and "response_new (RGetAll Status_Ok ks) (Some m) = Inr (p, m')"
  shows "\<exists>q. CreateResponsePacket m' = Inr (Some q) \<and> packet_response q = RGetAll Status_Ok ks \<and>
     ToBinary (response_base q) = Inr (take (getall_size ks) m')"
proof -
  let ?r = "RGetAll Status_Ok ks"
  let ?slack = "take 2 (drop (length (getall_written ks)) m)"
  have m': "m' = getall_written ks @ drop (length (getall_written ks)) m"
    using assms GetAllResponsePacket_new_ok [OF assms(1), of m]
    by (auto simp: fill_def split: if_splits)
  have lp: "length (response_payload ?r @ ?slack) = 14 + length (strs_enc ks)"
    using assms(2) by (simp add: length_response_payload keys_enc_def getall_size_def)
  have "framed (response_payload ?r @ ?slack) = getall_written ks @ ?slack"
    unfolding framed_response response_bytes_def lp by (simp add: getall_written_def)
  then have split: "m' = framed (response_payload ?r @ ?slack) @ drop (length (getall_written ks) + 2) m"
    using m' append_take_drop_id [of 2 "drop (length (getall_written ks)) m"]
    by (simp add: drop_drop add.commute del: append_take_drop_id)
  have "CreateResponsePacket m' = Inr (Some (response_object (received_resp ?r ?slack) ?r))"
    unfolding split using assms(1) lp by (intro CreateResponsePacket_slack) simp_all
  moreover have "ToBinary_size (received_resp ?r ?slack) = getall_size ks"
    using unat_add_4 [of "14 + length (strs_enc ks)"] assms(1) lp
    by (simp add: ToBinary_size_def received_resp_def getall_size_def)
  moreover have "take (getall_size ks) m' = framed (response_payload ?r @ ?slack)"
    unfolding split using lp by (simp add: getall_size_def)
  ultimately show ?thesis
    using lp by (simp add: packet_response_object received_resp_def ToBinary_def read_bytes_def
        getall_size_def)
qed

text \<open>C23: Round trip of the GetAll response with an ok status, as the servers send it: from a
  buffer that has room for the declared size, the factory reads back exactly the keys, in
  order, whatever the two bytes behind them are.\<close>

theorem getall_response_roundtrip:
  assumes "length (strs_enc ks) + 18 < 4294967296" and "getall_size ks \<le> length m"
    and "response_new (RGetAll Status_Ok ks) (Some m) = Inr (p, m')"
  shows "\<exists>q. CreateResponsePacket m' = Inr (Some q) \<and> packet_response q = RGetAll Status_Ok ks \<and>
     ToBinary (response_base q) = Inr (take (getall_size ks) m')"
  by (rule GetAllResponsePacket_parse_written [OF assms])

lemma getall_response_roundtrip_witness:
  "\<exists>p m' q. response_new (RGetAll Status_Ok [[97, 95], []]) (Some (replicate 30 9)) = Inr (p, m') \<and>
     CreateResponsePacket m' = Inr (Some q) \<and>
     packet_response q = RGetAll Status_Ok [[97, 95], []]"
proof -
  obtain p m' where b: "response_new (RGetAll Status_Ok [[97, 95], []]) (Some (replicate 30 9)) = Inr (p, m')"
    using GetAllResponsePacket_written [of "[[97, 95], []]" "replicate 30 9"] by auto
  show ?thesis using b getall_response_roundtrip [OF _ _ b] by (auto simp: getall_size_def)
qed

section \<open>What the parser of a response returns was on the wire\<close>

lemma ReadSlices_sound:
  "ReadSlices m p n = Inr (ks, q) \<Longrightarrow>
     p \<le> length m \<Longrightarrow> drop p m = concat (map str_enc ks) @ drop q m \<and> length ks = n \<and> q \<le> length m"
proof (induction n arbitrary: p ks)
  case (Suc n)
  then obtain k p' ks' where k: "ReadSlice m p = Inr (k, p')" "ReadSlices m p' n = Inr (ks', q)" "ks = k # ks'"
    by (auto simp: result_simps)
  from ReadSlice_sound [OF k(1)] Suc.IH [OF k(2)] k(3) show ?case by auto
qed simp

text \<open>The parsed status and what is behind it.\<close>

lemma ResponsePacket_parse_sound:
  assumes "ResponsePacket_parse buf = Inr rp"
  shows "\<exists>m. payload rp = Some m \<and> m = take (ToBinary_size rp) buf \<and> ToBinary_size rp \<le> length buf \<and>
    10 + length (message (status_of rp)) \<le> length m \<and>
    ResponsePacket_Payload rp = 10 + length (message (status_of rp)) \<and>
    drop 5 m = code_byte (code (status_of rp)) # str_enc (message (status_of rp)) @
      drop (10 + length (message (status_of rp))) m"
proof -
  obtain pk where pk: "Packet_parse buf = Inr pk" "ParseStatus pk = Inr rp"
    using assms by (auto simp: ResponsePacket_parse_def result_simps)
  obtain m where m: "payload pk = Some m" "length m = ToBinary_size pk" "m = take (ToBinary_size pk) buf"
      "ToBinary_size pk \<le> length buf"
    using Packet_parse_size [OF pk(1)] by blast
  obtain scode rep msg where rd: "read_bytes m 5 1 = Inr scode" "read_bytes m 6 4 = Inr rep"
      "read_bytes m 10 (unat (bytes_u32 rep)) = Inr msg"
    and rp: "rp = \<lparr>payload_size = payload_size pk, payload = payload pk,
      status_of = \<lparr>code = byte_code (hd scode), message = msg\<rparr>, extra_header_size = 6 + bytes_u32 rep\<rparr>"
    using pk(2) m(1) by (auto simp: ParseStatus_def ReadValue_def result_simps Packet_Payload_def)
  have len: "length msg = unat (bytes_u32 rep)" using rd(3) by (rule read_bytes_length)
  have fit: "10 + length msg \<le> length m" using read_bytes_Inr [OF rd(3)] len by simp
  have small: "length m < 4294967296" using m(2) unsigned_less [of "payload_size pk + 4"]
    by (simp add: ToBinary_size_def)
  have "6 + bytes_u32 rep = of_nat (6 + length msg)" by (simp add: len)
  then have "unat (6 + bytes_u32 rep) = 6 + length msg"
    using fit small by (simp only: unat_of_nat_u32)
  then have off: "ResponsePacket_Payload rp = 10 + length msg"
    by (simp add: ResponsePacket_Payload_def Packet_Payload_def rp)
  obtain b where b: "scode = [b]" using read_bytes_length [OF rd(1)] by (cases scode) auto
  have "u32_bytes (of_nat (length msg)) = rep"
    using u32_bytes_u32 [OF read_bytes_length [OF rd(2)]] len by simp
  moreover have "drop 5 m = [b] @ rep @ msg @ drop (10 + length msg) m"
    using read_bytes_split [OF rd(1)] read_bytes_split [OF rd(2)] read_bytes_split [OF rd(3)] len b
    by simp
  ultimately have "drop 5 m = b # str_enc msg @ drop (10 + length msg) m" by (simp add: str_enc_def)
  then show ?thesis using m fit off by (auto simp: rp b ToBinary_size_def)
qed

fun packet_type :: "response_packet \<Rightarrow> op_code" where
  "packet_type (GetResponsePacket rp v) = kGet"
| "packet_type (PutResponsePacket rp) = kPut"
| "packet_type (DeleteResponsePacket rp) = kDelete"
| "packet_type (GetAllResponsePacket rp ks) = kGetAll"

text \<open>The object holds a prefix of the received bytes, of exactly the size it announces, whose
  bytes from the status on start with the status and with what the object says is behind it.\<close>

definition copied_resp :: "bytes \<Rightarrow> response_packet \<Rightarrow> bool" where
  "copied_resp buf q \<longleftrightarrow>
     (let rp = response_base q; m = take (ToBinary_size rp) buf in
      payload rp = Some m \<and> ToBinary_size rp \<le> length buf \<and> 10 \<le> ToBinary_size rp \<and>
      (\<exists>tail. drop 5 m = code_byte (code (status_of rp)) # str_enc (message (status_of rp)) @
         response_body (packet_response q) @ tail))"

lemma copied_respI:
  assumes "ResponsePacket_parse buf = Inr (response_base q)"
    and "\<And>m. payload_ptr (response_base q) = Inr m \<Longrightarrow>
      ResponsePacket_Payload (response_base q) \<le> length m \<Longrightarrow>
      \<exists>tail. drop (ResponsePacket_Payload (response_base q)) m = response_body (packet_response q) @ tail"
  shows "copied_resp buf q"
proof -
  from ResponsePacket_parse_sound [OF assms(1)] obtain m where m: "payload (response_base q) = Some m"
    "m = take (ToBinary_size (response_base q)) buf" "ToBinary_size (response_base q) \<le> length buf"
    "ResponsePacket_Payload (response_base q) \<le> length m" "10 \<le> length m"
    "drop 5 m = code_byte (code (status_of (response_base q))) # str_enc (message (status_of (response_base q))) @
      drop (ResponsePacket_Payload (response_base q)) m"
    by auto
  then obtain tail where "drop (ResponsePacket_Payload (response_base q)) m =
      response_body (packet_response q) @ tail"
    using assms(2) [of m] by (auto simp: payload_ptr_def)
  then show ?thesis using m by (auto simp: copied_resp_def Let_def)
qed

lemma GetResponsePacket_parse_sound:
  "GetResponsePacket_parse buf = Inr q \<Longrightarrow> packet_type q = kGet \<and> copied_resp buf q"
  by (auto simp: GetResponsePacket_parse_def result_simps dest!: ReadSlice_sound intro!: copied_respI)

lemma GetAllResponsePacket_parse_sound:
  assumes "GetAllResponsePacket_parse buf = Inr q"
  shows "packet_type q = kGetAll \<and> copied_resp buf q"
proof -
  from assms obtain rp m rep ks e where q: "ResponsePacket_parse buf = Inr rp" "payload_ptr rp = Inr m"
    "read_bytes m (ResponsePacket_Payload rp) 4 = Inr rep"
    "ReadSlices m (ResponsePacket_Payload rp + 4) (unat (bytes_u32 rep)) = Inr (ks, e)"
    "q = GetAllResponsePacket rp ks"
    by (auto simp: GetAllResponsePacket_parse_def ReadValue_def result_simps)
  have "ResponsePacket_Payload rp + 4 \<le> length m" using read_bytes_Inr [OF q(3)] by simp
  from ReadSlices_sound [OF q(4) this] have ks: "drop (ResponsePacket_Payload rp + 4) m =
      concat (map str_enc ks) @ drop e m" "length ks = unat (bytes_u32 rep)" by simp_all
  have "u32_bytes (of_nat (length ks)) = rep"
    using u32_bytes_u32 [OF read_bytes_length [OF q(3)]] ks(2) by simp
  then have "drop (ResponsePacket_Payload rp) m = keys_enc ks @ drop e m"
    using read_bytes_split [OF q(3)] ks(1) by (simp add: keys_enc_def)
  then show ?thesis using q by (auto intro!: copied_respI)
qed

lemma status_parse_sound:
  "PutResponsePacket_parse buf = Inr q \<Longrightarrow> packet_type q = kPut \<and> copied_resp buf q"
  "DeleteResponsePacket_parse buf = Inr q \<Longrightarrow> packet_type q = kDelete \<and> copied_resp buf q"
  by (auto simp: PutResponsePacket_parse_def DeleteResponsePacket_parse_def result_simps intro!: copied_respI)

lemma CreateResponsePacket_typed:
  assumes "CreateResponsePacket buf = Inr (Some q)"
  shows "5 \<le> length buf \<and> buf ! 4 = op_byte (packet_type q) \<and> copied_resp buf q"
proof -
  from assms obtain rep where rep: "read_bytes buf 4 1 = Inr rep"
    by (auto simp: CreateResponsePacket_def ReadValue_def result_simps)
  then have len: "5 \<le> length buf" and "rep = [buf ! 4]"
    by (auto dest!: read_bytes_Inr simp: take_Suc hd_drop_conv_nth)
  moreover obtain op where op: "byte_op (buf ! 4) = Some op"
    using assms rep calculation by (cases "byte_op (buf ! 4)")
      (auto simp: CreateResponsePacket_def ReadValue_def)
  ultimately have "packet_type q = op \<and> copied_resp buf q"
    using assms rep GetResponsePacket_parse_sound GetAllResponsePacket_parse_sound status_parse_sound
    by (cases op) (auto simp: CreateResponsePacket_def ReadValue_def result_simps)
  then show ?thesis using len op by (simp add: byte_op_Some)
qed

text \<open>C16: Parsing a response is type-sound for arbitrary received bytes: when the factory returns an
  object, its class is the one the operation code on the wire stands for, the copied packet is a
  prefix of the received bytes of exactly the size it announces, and that prefix holds, after the
  operation code, the status the object reports and then its value or its keys. Nothing in the
  object lies outside the packet.\<close>

theorem CreateResponsePacket_sound:
  assumes "CreateResponsePacket buf = Inr (Some q)"
  shows "\<exists>tail. ToBinary (response_base q) = Inr (take (ToBinary_size (response_base q)) buf) \<and>
     ToBinary_size (response_base q) \<le> length buf \<and>
     drop 4 (take (ToBinary_size (response_base q)) buf) =
       op_byte (packet_type q) # code_byte (code (status_of (response_base q))) #
       str_enc (message (status_of (response_base q))) @ response_body (packet_response q) @ tail"
proof -
  let ?m = "take (ToBinary_size (response_base q)) buf"
  from CreateResponsePacket_typed [OF assms] obtain tail where m: "payload (response_base q) = Some ?m"
    "ToBinary_size (response_base q) \<le> length buf" "10 \<le> ToBinary_size (response_base q)"
    "drop 5 ?m = code_byte (code (status_of (response_base q))) #
       str_enc (message (status_of (response_base q))) @ response_body (packet_response q) @ tail"
    "buf ! 4 = op_byte (packet_type q)"
    by (auto simp: copied_resp_def Let_def)
  have "drop 4 ?m = buf ! 4 # drop 5 ?m" using m(2,3) Cons_nth_drop_Suc [of 4 ?m] by simp
  moreover have "ToBinary (response_base q) = Inr ?m"
    using m(1,2) by (simp add: ToBinary_def read_bytes_def payload_ptr_def)
  ultimately show ?thesis using m(2,4,5) by auto
qed

text \<open>A get answer with the value \<open>v\<close>, and one byte behind it.\<close>

lemma CreateResponsePacket_sound_witness:
  "\<exists>q tail. CreateResponsePacket [13, 0, 0, 0, 0, 0, 2, 0, 0, 0, 79, 75, 1, 0, 0, 0, 118, 9] = Inr (Some q) \<and>
     packet_type q = kGet \<and>
     drop 4 (take 17 [13, 0, 0, 0, 0, 0, 2, 0, 0, 0, 79, 75, 1, 0, 0, 0, 118, 9 :: byte]) =
       op_byte kGet # 0 # str_enc [79, 75] @ response_body (packet_response q) @ tail"
proof -
  let ?b = "[13, 0, 0, 0, 0, 0, 2, 0, 0, 0, 79, 75, 1, 0, 0, 0, 118, 9 :: byte]"
  have "CreateResponsePacket ?b = Inr (Some (GetResponsePacket \<lparr>payload_size = 13, payload = Some (take 17 ?b),
      status_of = \<lparr>code = kOk, message = [79, 75]\<rparr>, extra_header_size = 8\<rparr> [118]))"
    by (simp add: CreateResponsePacket_def ReadValue_def read_bytes_def byte_op_def
        GetResponsePacket_parse_def ResponsePacket_parse_def Packet_parse_def ParseStatus_def
        bytes_u32_def payload_ptr_def Packet_Payload_def ResponsePacket_Payload_def ReadSlice_def byte_code_def)
  from this CreateResponsePacket_sound [OF this] show ?thesis
    by (auto simp: ToBinary_size_def)
qed

end
