(* ===== verification/Sqpkv_Protocol.thy ===== *)
theory Sqpkv_Protocol
  imports Sqpkv_Response
begin

text \<open>
  The framing of packets on stream sockets (\<^verbatim>\<open>src/protocol/protocol.cc\<close>): sending a packet
  in pieces of \<^verbatim>\<open>kMaxNetPacketSize\<close> bytes, reading pieces until one is shorter, and
  forwarding pieces from one socket to another. A socket is what the process sees of it: the
  arrivals that its next reads return, and how its next writes end.
\<close>

section \<open>Sockets\<close>

text \<open>One arrival is one batch of bytes the kernel hands out (a read returns at most one, or the
  part of it that fits), the peer's end of the stream, or a failing read.\<close>

datatype arrival = Segment bytes | Hangup | Failure

text \<open>\<open>wplan\<close> holds the return values of the next writes (a positive value below the length
  is a short write); when it is exhausted, every write takes all its bytes. \<open>outq\<close> is what
  each successful write put on the wire.\<close>

record socket =
  is_open :: bool
  inq :: "arrival list"
  outq :: "bytes list"
  wplan :: "int list"
  errno_text :: bytes

text \<open>The most that one \<^verbatim>\<open>read\<close> or \<^verbatim>\<open>write\<close> transfers on Linux.\<close>

definition max_transfer :: nat where
  "max_transfer = 2147479552"

definition sys_read :: "nat \<Rightarrow> socket \<Rightarrow> (int \<times> bytes \<times> socket) result" where
  "sys_read n s =
     (if \<not> is_open s then Inr (-1, [], s)
      else case inq s of
        [] \<Rightarrow> Inl Blocked
      | Hangup # q \<Rightarrow> Inr (0, [], s)
      | Failure # q \<Rightarrow> Inr (-1, [], s\<lparr>inq := q\<rparr>)
      | Segment bs # q \<Rightarrow>
          let k = min n max_transfer in
          if length bs \<le> k then Inr (int (length bs), bs, s\<lparr>inq := q\<rparr>)
          else Inr (int k, take k bs, s\<lparr>inq := Segment (drop k bs) # q\<rparr>))"

definition sys_write :: "bytes \<Rightarrow> socket \<Rightarrow> int \<times> socket" where
  "sys_write bs s =
     (if \<not> is_open s then (-1, s)
      else case wplan s of
        [] \<Rightarrow> (int (length bs), s\<lparr>outq := outq s @ [bs]\<rparr>)
      | r # rs \<Rightarrow>
          if r \<le> 0 then (r, s\<lparr>wplan := rs\<rparr>)
          else let k = min (nat r) (length bs) in
            (int k, s\<lparr>wplan := rs, outq := outq s @ [take k bs]\<rparr>))"

definition sys_close :: "socket \<Rightarrow> socket" where
  "sys_close s = s\<lparr>is_open := False\<rparr>"

fun arrival_bytes :: "arrival \<Rightarrow> bytes" where
  "arrival_bytes (Segment bs) = bs"
| "arrival_bytes Hangup = []"
| "arrival_bytes Failure = []"

definition stream :: "socket \<Rightarrow> bytes" where
  "stream s = concat (map arrival_bytes (inq s))"

lemma sys_read_positive:
  assumes "sys_read n s = Inr (rc, data, s')" and "0 < rc"
  shows "stream s = data @ stream s' \<and> rc = int (length data) \<and> length data \<le> n \<and>
    is_open s' \<and> outq s' = outq s \<and> wplan s' = wplan s \<and>
    length (inq s') \<le> length (inq s)"
  using assms
  by (auto simp: sys_read_def stream_def Let_def min_def split: if_splits list.splits arrival.splits)

lemma sys_read_pending:
  "sys_read n s = Inr (rc, data, s') \<Longrightarrow> 0 < rc \<Longrightarrow> length (stream s') < length (stream s)"
  by (drule (1) sys_read_positive) auto

lemma stream_sys_write [simp]: "stream (snd (sys_write bs s)) = stream s"
  by (auto simp: sys_write_def stream_def Let_def split: list.splits)

section \<open>Protocol\<close>

definition kMaxNetPacketSize :: nat where
  "kMaxNetPacketSize = 131072"

lemma kMax_pos [simp]: "0 < kMaxNetPacketSize" "kMaxNetPacketSize \<noteq> 0"
  by (simp_all add: kMaxNetPacketSize_def)

subsection \<open>SendPacket\<close>

text \<open>\<open>n\<close> is \<^verbatim>\<open>data.size_\<close>, \<open>w\<close> the \<^verbatim>\<open>uint32_t size_written\<close>.\<close>

function send_loop :: "bytes \<Rightarrow> nat \<Rightarrow> u32 \<Rightarrow> socket \<Rightarrow> (status \<times> socket) result" where
  "send_loop data n w s =
     (if 0 < n then
        (if kMaxNetPacketSize \<le> n then
           bindR (read_bytes data (unat w) kMaxNetPacketSize) (\<lambda>chunk.
           let (rc, s) = sys_write chunk s in
           if rc \<le> 0 then Inr (Status_Err0 (errno_text s), s)
           else send_loop data (n - kMaxNetPacketSize) (w + of_nat kMaxNetPacketSize) s)
         else
           bindR (read_bytes data (unat w) n) (\<lambda>chunk.
           let (rc, s) = sys_write chunk s in
           if rc \<le> 0 then Inr (Status_Err0 (errno_text s), s) else Inr (Status_Ok, s)))
      else
        (let (rc, s) = sys_write [0] s in
         if rc \<le> 0 then Inr (Status_Err0 (errno_text s), s) else Inr (Status_Ok, s)))"
  by pat_completeness auto
termination
  by (relation "measure (\<lambda>(data, n, w, s). n)") auto

declare send_loop.simps [simp del]

definition SendPacket_data :: "bytes \<Rightarrow> socket \<Rightarrow> (status \<times> socket) result" where
  "SendPacket_data data s = send_loop data (length data) 0 s"

text \<open>\<^verbatim>\<open>LogBinary\<close>, the line that a packet leaves in the log: it shows the bytes of the packet.\<close>

definition LogBinary :: "bytes \<Rightarrow> bytes" where
  "LogBinary data = bytes_of ''['' @ concat (map (\<lambda>b. b # bytes_of '' '') data) @ bytes_of '']'' @ [10]"

lemma LogBinary_inject: "LogBinary a = LogBinary b \<longleftrightarrow> a = b"
proof -
  have "length (concat (map (\<lambda>b. b # bytes_of '' '') c)) = 2 * length c" for c by (induction c) simp_all
  then have "length a = length b" if "LogBinary a = LogBinary b"
    using arg_cong [OF that, of length] by (simp add: LogBinary_def)
  moreover have "a = b" if "length a = length b" "concat (map (\<lambda>b. b # bytes_of '' '') a) @ x =
      concat (map (\<lambda>b. b # bytes_of '' '') b) @ x" for x
    using that by (induction a b rule: list_induct2) simp_all
  ultimately show ?thesis by (auto simp: LogBinary_def)
qed

definition SendPacket :: "('a packet_scheme) \<Rightarrow> socket \<Rightarrow> (status \<times> socket) result" where
  "SendPacket pk s = bindR (ToBinary pk) (\<lambda>data. SendPacket_data data s)"

subsection \<open>ReadWholePacket\<close>

text \<open>\<open>cap\<close> is the capacity of the vector (\<^verbatim>\<open>reserve\<close> makes it at least what is asked
  for), \<open>blen\<close> is \<^verbatim>\<open>buf_len\<close>.\<close>

function read_loop ::
  "bytes \<Rightarrow> nat \<Rightarrow> nat \<Rightarrow> socket \<Rightarrow> (status \<times> bytes \<times> socket) result" where
  "read_loop buf cap blen s =
     (let (cap, blen) =
        (if blen < kMaxNetPacketSize
         then (max cap (length buf * 2), max cap (length buf * 2) - length buf)
         else (cap, blen)) in
      bindR (sys_read blen s) (\<lambda>(rc, data, s).
      if rc = 0 then Inr (Status_Eof, [], s)
      else if rc < 0 then Inr (Status_Err0 (errno_text s), [], s)
      else if rc < int kMaxNetPacketSize then Inr (Status_Ok, buf @ data, s)
      else read_loop (buf @ data) (max cap (length buf + blen)) (blen - nat rc) s))"
  by pat_completeness auto
termination
  by (relation "measure (\<lambda>(buf, cap, blen, s). length (stream s))") (auto dest: sys_read_pending)

declare read_loop.simps [simp del]

definition ReadWholePacket :: "socket \<Rightarrow> (status \<times> bytes \<times> socket) result" where
  "ReadWholePacket s = read_loop [] kMaxNetPacketSize kMaxNetPacketSize s"

definition ReadFromClient :: "socket \<Rightarrow> (command_packet status_or \<times> socket) result" where
  "ReadFromClient s =
     bindR (ReadWholePacket s) (\<lambda>(st, buf, s).
     if \<not> ok st then Inr (StatusOr_status st, s)
     else bindR (CreateCommandPacket buf) (\<lambda>p. Inr (StatusOr_ptr p, s)))"

definition ReadFromServer :: "socket \<Rightarrow> (response_packet status_or \<times> socket) result" where
  "ReadFromServer s =
     bindR (ReadWholePacket s) (\<lambda>(st, buf, s).
     if \<not> ok st then Inr (StatusOr_status st, s)
     else bindR (CreateResponsePacket buf) (\<lambda>p. Inr (StatusOr_ptr p, s)))"

subsection \<open>ForwardPacket\<close>

text \<open>The process's sockets by descriptor.\<close>

type_synonym net = "int \<Rightarrow> socket"

function ForwardPacket :: "int \<Rightarrow> int \<Rightarrow> net \<Rightarrow> (status \<times> net) result" where
  "ForwardPacket src dst net =
     bindR (sys_read kMaxNetPacketSize (net src)) (\<lambda>(rc, buffer, s).
     let net = net(src := s) in
     if rc = 0 then Inr (Status_Eof, net)
     else if rc < 0 then Inr (Status_Err0 (errno_text s), net)
     else
       (let end = (rc < int kMaxNetPacketSize); (wrc, t) = sys_write buffer (net dst) in
        let net = net(dst := t) in
        if wrc \<le> 0 then Inr (Status_Eof, net)
        else if end then Inr (Status_Ok, net)
        else ForwardPacket src dst net))"
  by pat_completeness auto
termination
proof (relation "measure (\<lambda>(src, dst, net). length (stream (net src)))", goal_cases)
  case (2 src dst net x rc y buffer s net' fin z wrc t net'')
  then have "length (stream s) < length (stream (net src))"
    by (auto dest!: sys_read_pending)
  moreover have "stream t = stream (net' dst)"
    using 2(8,9) stream_sys_write [of buffer "net' dst"] by (metis snd_conv)
  ultimately show ?case using 2 by auto
qed simp

declare ForwardPacket.simps [simp del]

section \<open>The pieces of a packet\<close>

text \<open>What a packet looks like on the wire: full pieces, then a shorter one, which is a lone
  zero byte when the size is a multiple of the piece size.\<close>

function packet_chunks :: "bytes \<Rightarrow> bytes list" where
  "packet_chunks d =
     (if kMaxNetPacketSize \<le> length d
      then take kMaxNetPacketSize d # packet_chunks (drop kMaxNetPacketSize d)
      else if d = [] then [[0]] else [d])"
  by pat_completeness auto
termination
  by (relation "measure length") (auto simp: kMaxNetPacketSize_def)

declare packet_chunks.simps [simp del]

lemma packet_chunks_short:
  "d \<noteq> [] \<Longrightarrow> length d < kMaxNetPacketSize \<Longrightarrow> packet_chunks d = [d]"
  by (simp add: packet_chunks.simps)

lemma packet_chunks_nonempty [simp]: "packet_chunks d \<noteq> []"
  by (subst packet_chunks.simps) simp

lemma packet_chunks_shape:
  "concat (packet_chunks d) = d @ (if kMaxNetPacketSize dvd length d then [0] else []) \<and>
   (\<forall>c \<in> set (butlast (packet_chunks d)). length c = kMaxNetPacketSize) \<and>
   0 < length (last (packet_chunks d)) \<and> length (last (packet_chunks d)) < kMaxNetPacketSize"
proof (induction d rule: packet_chunks.induct)
  case (1 d)
  show ?case
  proof (cases "kMaxNetPacketSize \<le> length d")
    case True
    let ?c = "take kMaxNetPacketSize d" and ?r = "drop kMaxNetPacketSize d"
    have chunks: "packet_chunks d = ?c # packet_chunks ?r"
      using True by (simp add: packet_chunks.simps [of d])
    have dvd: "kMaxNetPacketSize dvd length ?r \<longleftrightarrow> kMaxNetPacketSize dvd length d"
      using True by (simp add: dvd_minus_self)
    note IH = "1.IH" [OF True, unfolded dvd]
    have "concat (packet_chunks d) = (?c @ ?r) @ (if kMaxNetPacketSize dvd length d then [0] else [])"
      unfolding chunks using IH by simp
    moreover have "length ?c = kMaxNetPacketSize" using True by simp
    ultimately show ?thesis
      unfolding append_take_drop_id using IH by (auto simp: chunks)
  next
    case False
    then have "kMaxNetPacketSize dvd length d \<longleftrightarrow> d = []"
      by (auto dest: dvd_imp_le)
    then show ?thesis using False by (simp add: packet_chunks.simps [of d]) (simp add: kMaxNetPacketSize_def)
  qed
qed

lemma sys_write_all:
  "is_open s \<Longrightarrow> wplan s = [] \<Longrightarrow>
   sys_write bs s = (int (length bs), s\<lparr>outq := outq s @ [bs]\<rparr>)"
  by (simp add: sys_write_def)

lemma send_loop_chunks:
  assumes "is_open s" and "wplan s = []" and "length (pre @ d) < 4294967296"
  shows "send_loop (pre @ d) (length d) (of_nat (length pre)) s =
    Inr (Status_Ok, s\<lparr>outq := outq s @ packet_chunks d\<rparr>)"
  using assms
proof (induction d arbitrary: pre s rule: packet_chunks.induct)
  case (1 d)
  show ?case
  proof (cases "kMaxNetPacketSize \<le> length d")
    case True
    let ?c = "take kMaxNetPacketSize d" and ?r = "drop kMaxNetPacketSize d"
    let ?s = "s\<lparr>outq := outq s @ [?c]\<rparr>"
    have rd: "read_bytes (pre @ d) (length pre) kMaxNetPacketSize = Inr ?c"
      using True by (simp add: read_bytes_def)
    have "send_loop ((pre @ ?c) @ ?r) (length ?r) (of_nat (length (pre @ ?c))) ?s =
        Inr (Status_Ok, ?s\<lparr>outq := outq ?s @ packet_chunks ?r\<rparr>)"
      using 1 True by (intro "1.IH") simp_all
    moreover have "length (pre @ ?c) = length pre + kMaxNetPacketSize" using True by simp
    ultimately have "send_loop (pre @ d) (length d - kMaxNetPacketSize)
        (of_nat (length pre) + of_nat kMaxNetPacketSize) ?s =
        Inr (Status_Ok, s\<lparr>outq := outq s @ packet_chunks d\<rparr>)"
      using True by (simp only: packet_chunks.simps [of d]) simp
    moreover have "d \<noteq> []" using True by auto
    ultimately show ?thesis
      using "1.prems" True rd sys_write_all [of s ?c]
      by (subst send_loop.simps) (simp add: min_def)
  next
    case False
    have "read_bytes (pre @ d) (length pre) (length d) = Inr d"
      by (simp add: read_bytes_def)
    then show ?thesis
      using 1 False by (subst send_loop.simps) (simp add: sys_write_all packet_chunks.simps [of d])
  qed
qed

lemma SendPacket_data_chunks:
  "is_open s \<Longrightarrow> wplan s = [] \<Longrightarrow> length d < 4294967296 \<Longrightarrow>
   SendPacket_data d s = Inr (Status_Ok, s\<lparr>outq := outq s @ packet_chunks d\<rparr>)"
  using send_loop_chunks [of s "[]" d] by (simp add: SendPacket_data_def)

text \<open>Whatever the writes return, \<open>SendPacket\<close> returns ok or an error and does not touch what has come in.\<close>

lemma send_loop_returns:
  "length data < 4294967296 \<Longrightarrow> unat w + n = length data \<Longrightarrow>
     \<exists>st s'. send_loop data n w s = Inr (st, s') \<and> (ok st \<or> err st) \<and> inq s' = inq s \<and> is_open s' = is_open s"
proof (induction data n w s rule: send_loop.induct)
  case (1 data n w s)
  have wr: "inq (snd (sys_write bs s)) = inq s" "is_open (snd (sys_write bs s)) = is_open s" for bs
    by (auto simp: sys_write_def Let_def split: list.splits)
  show ?case
  proof (cases "kMaxNetPacketSize \<le> n")
    case True
    then have n: "0 < n" by (auto simp: kMaxNetPacketSize_def)
    obtain chunk where rd: "read_bytes data (unat w) kMaxNetPacketSize = Inr chunk"
      using True "1.prems"(2) by (simp add: read_bytes_def)
    obtain rc t where t: "sys_write chunk s = (rc, t)" by fastforce
    have loop: "send_loop data n w s = (if rc \<le> 0 then Inr (Status_Err0 (errno_text t), t)
        else send_loop data (n - kMaxNetPacketSize) (w + of_nat kMaxNetPacketSize) t)"
      using n True rd t by (subst send_loop.simps) simp
    show ?thesis
    proof (cases "rc \<le> 0")
      case le: True
      then show ?thesis using loop t wr [of chunk] by simp
    next
      case False
      have "unat (w + of_nat kMaxNetPacketSize) = unat w + kMaxNetPacketSize"
        using True "1.prems" by (subst unat_add_lem [THEN iffD1]) (simp_all add: kMaxNetPacketSize_def)
      then have "unat (w + of_nat kMaxNetPacketSize) + (n - kMaxNetPacketSize) = length data"
        using True "1.prems"(2) by simp
      from "1.IH" [OF n True rd refl t [symmetric] False "1.prems"(1) this]
      show ?thesis using False loop t wr [of chunk] by simp
    qed
  next
    case False
    then show ?thesis
      using "1.prems"(2) wr
      by (subst send_loop.simps) (auto simp: read_bytes_def case_prod_beta Let_def)
  qed
qed

lemma SendPacket_data_returns:
  assumes "length d < 4294967296"
  obtains st s' where "SendPacket_data d s = Inr (st, s')" and "ok st \<or> err st"
    and "inq s' = inq s" and "is_open s' = is_open s"
  using send_loop_returns [of d 0 "length d" s] assms by (auto simp: SendPacket_data_def)

text \<open>C20: When every write takes all its bytes, \<open>SendPacket\<close> puts the packet on the wire in
  pieces: all but the last are full, the last is shorter and not empty, and together they are
  the packet, followed by one zero byte exactly when its size is a multiple of the piece
  size, so that the reader always sees a short piece at the end.\<close>

theorem SendPacket_pieces:
  assumes "is_open s" and "wplan s = []" and "length d < 4294967296"
  shows "\<exists>cs. SendPacket_data d s = Inr (Status_Ok, s\<lparr>outq := outq s @ cs\<rparr>) \<and>
     concat cs = d @ (if kMaxNetPacketSize dvd length d then [0] else []) \<and> cs \<noteq> [] \<and>
     (\<forall>c \<in> set (butlast cs). length c = kMaxNetPacketSize) \<and>
     0 < length (last cs) \<and> length (last cs) < kMaxNetPacketSize"
  using SendPacket_data_chunks [OF assms] packet_chunks_shape [of d]
  by (intro exI [of _ "packet_chunks d"]) simp

definition fresh_socket :: socket where
  "fresh_socket = \<lparr>is_open = True, inq = [], outq = [], wplan = [], errno_text = []\<rparr>"

lemma fresh_socket_simps [simp]:
  "is_open fresh_socket" "inq fresh_socket = []" "outq fresh_socket = []"
  "wplan fresh_socket = []"
  by (simp_all add: fresh_socket_def)

lemma SendPacket_pieces_witness:
  "\<exists>cs. SendPacket_data (replicate 131072 7) fresh_socket =
      Inr (Status_Ok, fresh_socket\<lparr>outq := cs\<rparr>) \<and> concat cs = replicate 131072 7 @ [0]"
  using SendPacket_pieces [of fresh_socket "replicate 131072 7"]
  by (auto simp: kMaxNetPacketSize_def)

text \<open>A short write is taken for a complete one: when the kernel takes only the first
  \<open>k\<close> bytes of a packet of one piece, \<open>SendPacket\<close> still returns ok, and the rest of the packet
  is never sent.\<close>

lemma SendPacket_short_write:
  assumes "is_open s" and "wplan s = [int k]" and "0 < k" and "k < length d"
    and "length d < kMaxNetPacketSize"
  shows "SendPacket_data d s = Inr (Status_Ok, s\<lparr>wplan := [], outq := outq s @ [take k d]\<rparr>)"
proof -
  have "0 < length d" "d \<noteq> []" using assms(3,4) by auto
  then show ?thesis
    using assms by (simp add: SendPacket_data_def send_loop.simps [of d] read_bytes_def sys_write_def)
qed

lemma SendPacket_short_write_witness:
  "SendPacket_data [1, 2, 3] (fresh_socket\<lparr>wplan := [1]\<rparr>) =
     Inr (Status_Ok, fresh_socket\<lparr>outq := [[1]]\<rparr>)"
  using SendPacket_short_write [of "fresh_socket\<lparr>wplan := [1]\<rparr>" 1 "[1, 2, 3]"]
  by (simp add: kMaxNetPacketSize_def fresh_socket_def)

section \<open>Reading a packet\<close>

lemma sys_read_segment:
  assumes "is_open s" and "inq s = Segment bs # q" and "length bs \<le> n"
    and "length bs \<le> max_transfer"
  shows "sys_read n s = Inr (int (length bs), bs, s\<lparr>inq := q\<rparr>)"
  using assms by (simp add: sys_read_def)

lemma kMax_le_max_transfer: "kMaxNetPacketSize \<le> max_transfer"
  by (simp add: kMaxNetPacketSize_def max_transfer_def)

text \<open>The room for the next read, after the vector has grown if it had to.\<close>

definition read_room :: "bytes \<Rightarrow> nat \<Rightarrow> nat \<Rightarrow> nat" where
  "read_room buf cap blen =
     (if blen < kMaxNetPacketSize then max cap (length buf * 2) - length buf else blen)"

lemma read_loop_unfold:
  "read_loop buf cap blen s =
     bindR (sys_read (read_room buf cap blen) s) (\<lambda>(rc, data, s).
      if rc = 0 then Inr (Status_Eof, [], s)
      else if rc < 0 then Inr (Status_Err0 (errno_text s), [], s)
      else if rc < int kMaxNetPacketSize then Inr (Status_Ok, buf @ data, s)
      else read_loop (buf @ data)
        (max (if blen < kMaxNetPacketSize then max cap (length buf * 2) else cap)
          (length buf + read_room buf cap blen))
        (read_room buf cap blen - nat rc) s)"
  by (cases "blen < kMaxNetPacketSize"; subst read_loop.simps; simp add: read_room_def cong: if_cong)

text \<open>There is always room for a full piece.\<close>

lemma read_room_enough:
  "kMaxNetPacketSize \<le> blen \<or> kMaxNetPacketSize \<le> length buf \<Longrightarrow>
   kMaxNetPacketSize \<le> read_room buf cap blen"
  by (auto simp: read_room_def)

lemma read_loop_chunks:
  assumes "is_open s" and "inq s = map Segment (packet_chunks d) @ q"
    and "kMaxNetPacketSize \<le> blen \<or> kMaxNetPacketSize \<le> length buf"
  shows "read_loop buf cap blen s =
    Inr (Status_Ok, buf @ concat (packet_chunks d), s\<lparr>inq := q\<rparr>)"
  using assms
proof (induction d arbitrary: buf cap blen s rule: packet_chunks.induct)
  case (1 d)
  note room = read_room_enough [OF "1.prems"(3), of cap]
  show ?case
  proof (cases "kMaxNetPacketSize \<le> length d")
    case True
    let ?c = "take kMaxNetPacketSize d" and ?r = "drop kMaxNetPacketSize d"
    let ?s = "s\<lparr>inq := map Segment (packet_chunks ?r) @ q\<rparr>"
    have chunks: "packet_chunks d = ?c # packet_chunks ?r"
      using True by (simp add: packet_chunks.simps [of d])
    have len: "length ?c = kMaxNetPacketSize" using True by simp
    have rd: "sys_read (read_room buf cap blen) s = Inr (int kMaxNetPacketSize, ?c, ?s)"
      using sys_read_segment [of s ?c "map Segment (packet_chunks ?r) @ q"] "1.prems" room
        kMax_le_max_transfer len by (simp add: chunks)
    have "read_loop (buf @ ?c) cap' blen' ?s =
        Inr (Status_Ok, (buf @ ?c) @ concat (packet_chunks ?r), ?s\<lparr>inq := q\<rparr>)" for cap' blen'
      using True "1.prems" by (intro "1.IH") simp_all
    then show ?thesis
      by (subst read_loop_unfold) (simp add: rd chunks)
  next
    case False
    define c where "c = (if d = [] then [0] else d)"
    have chunks: "packet_chunks d = [c]"
      using False by (simp add: packet_chunks.simps [of d] c_def)
    have len: "0 < length c" "length c < kMaxNetPacketSize"
      using False by (auto simp: c_def kMaxNetPacketSize_def)
    have "sys_read (read_room buf cap blen) s = Inr (int (length c), c, s\<lparr>inq := q\<rparr>)"
      using sys_read_segment [of s c q] "1.prems" room kMax_le_max_transfer len
      by (simp add: chunks)
    then show ?thesis
      using len by (subst read_loop_unfold) (simp add: chunks)
  qed
qed

lemma ReadWholePacket_chunks:
  "is_open s \<Longrightarrow> inq s = map Segment (packet_chunks d) @ q \<Longrightarrow>
   ReadWholePacket s = Inr (Status_Ok, concat (packet_chunks d), s\<lparr>inq := q\<rparr>)"
  using read_loop_chunks [of s d q kMaxNetPacketSize "[]" kMaxNetPacketSize]
  by (simp add: ReadWholePacket_def)

lemma concat_packet_chunks: "\<exists>z. concat (packet_chunks d) = d @ z"
  using packet_chunks_shape [of d] by auto

lemma ReadFromClient_object:
  assumes "wf_command c" and "is_open s"
    and "inq s = map Segment (packet_chunks (encode_command c)) @ q"
  shows "ReadFromClient s =
    Inr (StatusOr_ptr (Some (command_object (received_packet c) c)), s\<lparr>inq := q\<rparr>)"
proof -
  obtain z where "concat (packet_chunks (encode_command c)) = encode_command c @ z"
    using concat_packet_chunks by blast
  then show ?thesis
    using ReadWholePacket_chunks [OF assms(2,3)] CreateCommandPacket_encode [OF assms(1), of z]
    by (simp add: ReadFromClient_def)
qed

text \<open>C19: When the pieces of a packet arrive one by one, as \<open>SendPacket\<close> sent them, the reader
  gets the packet whole, whatever its size: the server reads exactly the command that was
  encoded, holds its very bytes, and leaves everything behind the packet unread. The padding
  byte of a packet whose size is a multiple of the piece size is consumed with it.\<close>

theorem ReadFromClient_command:
  assumes "wf_command c" and "is_open s"
    and "inq s = map Segment (packet_chunks (encode_command c)) @ q"
  shows "\<exists>p. ReadFromClient s = Inr (StatusOr_ptr (Some p), s\<lparr>inq := q\<rparr>) \<and>
     packet_command p = c \<and> payload (command_base p) = Some (encode_command c)"
  using ReadFromClient_object [OF assms]
  by (intro exI [of _ "command_object (received_packet c) c"]) (simp add: received_packet_def)

lemma ReadFromClient_command_witness:
  "\<exists>p. ReadFromClient (fresh_socket\<lparr>inq := map Segment (packet_chunks (encode_command
       (Put [107] (replicate 200000 1)))) @ [Hangup]\<rparr>) =
     Inr (StatusOr_ptr (Some p), fresh_socket\<lparr>inq := [Hangup]\<rparr>) \<and>
     packet_command p = Put [107] (replicate 200000 1)"
  using ReadFromClient_command [of "Put [107] (replicate 200000 1)"
      "fresh_socket\<lparr>inq := map Segment (packet_chunks (encode_command
       (Put [107] (replicate 200000 1)))) @ [Hangup]\<rparr>" "[Hangup]"]
  by (auto simp: wf_command_def)

text \<open>The same for the answer a client reads.\<close>

lemma ReadFromServer_bytes:
  assumes "is_open s" and "inq s = map Segment (packet_chunks d) @ q"
    and "\<And>z. CreateResponsePacket (d @ z) = Inr (Some p)"
  shows "ReadFromServer s = Inr (StatusOr_ptr (Some p), s\<lparr>inq := q\<rparr>)"
proof -
  obtain z where "concat (packet_chunks d) = d @ z" using concat_packet_chunks by blast
  then show ?thesis
    using ReadWholePacket_chunks [OF assms(1,2)] assms(3) by (simp add: ReadFromServer_def)
qed

lemma ReadFromServer_response:
  assumes "wf_response r" and "is_open s"
    and "inq s = map Segment (packet_chunks (encode_response r)) @ q"
  shows "ReadFromServer s =
    Inr (StatusOr_ptr (Some (response_object (received_resp r []) r)), s\<lparr>inq := q\<rparr>)"
  using assms CreateResponsePacket_encode by (intro ReadFromServer_bytes) simp_all

section \<open>What the reader does with any stream\<close>

lemma read_loop_conserves:
  "read_loop buf cap blen s = Inr (st, b, s') \<Longrightarrow>
     (if ok st then buf @ stream s = b @ stream s' \<and> length buf < length b else b = []) \<and>
     (ok st \<or> err st \<or> eof st) \<and> outq s' = outq s \<and> wplan s' = wplan s"
proof (induction buf cap blen s rule: read_loop.induct)
  case (1 buf cap blen s)
  from "1.prems" obtain rc data t
    where rd: "sys_read (read_room buf cap blen) s = Inr (rc, data, t)"
    by (subst (asm) read_loop_unfold) (auto simp: result_simps)
  show ?case
  proof (cases "0 < rc")
    case False
    have "outq t = outq s \<and> wplan t = wplan s"
      using rd by (auto simp: sys_read_def Let_def split: if_splits list.splits arrival.splits)
    then show ?thesis
      using "1.prems" rd False by (subst (asm) read_loop_unfold) (auto split: if_splits)
  next
    case True
    note pos = sys_read_positive [OF rd True]
    show ?thesis
    proof (cases "rc < int kMaxNetPacketSize")
      case short: True
      then show ?thesis
        using "1.prems" rd True pos by (subst (asm) read_loop_unfold) auto
    next
      case False
      let ?cap = "if blen < kMaxNetPacketSize then max cap (length buf * 2) else cap"
      have loop: "read_loop (buf @ data) (max ?cap (length buf + read_room buf cap blen))
          (read_room buf cap blen - nat rc) t = Inr (st, b, s')"
        using "1.prems" rd True False by (subst (asm) read_loop_unfold) simp
      have "(?cap, read_room buf cap blen) = (if blen < kMaxNetPacketSize
         then (max cap (length buf * 2), max cap (length buf * 2) - length buf) else (cap, blen))"
        by (simp add: read_room_def)
      from "1.IH" [OF this refl rd refl refl _ _ False loop] True pos
      show ?thesis by (auto split: if_splits)
    qed
  qed
qed

text \<open>C24: Reading loses and invents nothing: on an ok status the bytes returned are the first
  bytes of the incoming stream, at least one, and the rest of the stream is still to be read;
  on the end of the stream or an error the buffer is empty. Nothing is written to the socket.\<close>

theorem ReadWholePacket_conserves:
  assumes "ReadWholePacket s = Inr (st, b, s')"
  shows "(if ok st then stream s = b @ stream s' \<and> b \<noteq> [] else b = [] \<and> (err st \<or> eof st)) \<and>
     outq s' = outq s"
  using read_loop_conserves [OF assms [unfolded ReadWholePacket_def]] by (auto split: if_splits)

lemma ReadWholePacket_conserves_witness:
  "\<exists>b s'. ReadWholePacket (fresh_socket\<lparr>inq := [Segment [1, 2], Segment [3]]\<rparr>) =
      Inr (Status_Ok, b, s') \<and> [1, 2, 3] = b @ stream s' \<and> b \<noteq> []"
proof -
  let ?s = "fresh_socket\<lparr>inq := [Segment [1, 2], Segment [3]]\<rparr>"
  have "packet_chunks [1, 2] = [[1, 2]]"
    by (rule packet_chunks_short) (simp_all add: kMaxNetPacketSize_def)
  then have r: "ReadWholePacket ?s = Inr (Status_Ok, [1, 2], ?s\<lparr>inq := [Segment [3]]\<rparr>)"
    using ReadWholePacket_chunks [of ?s "[1, 2]" "[Segment [3]]"] by simp
  show ?thesis using r ReadWholePacket_conserves [OF r] by (simp add: stream_def)
qed

lemma ReadFromClient_consumes:
  assumes "ReadFromClient s = Inr (packet, s')" and "ok (so_status packet)"
  shows "length (stream s') < length (stream s)"
proof -
  from assms obtain st b where "ReadWholePacket s = Inr (st, b, s')" "ok st"
    by (auto simp: ReadFromClient_def result_simps split: if_splits)
  then show ?thesis
    using read_loop_conserves [of "[]" kMaxNetPacketSize kMaxNetPacketSize s st b s']
    by (auto simp: ReadWholePacket_def)
qed

lemma sys_read_halts: "sys_read n s = Inl e \<longleftrightarrow> e = Blocked \<and> is_open s \<and> inq s = []"
  by (auto simp: sys_read_def Let_def split: list.splits arrival.splits)

lemma sys_read_keeps_end:
  "sys_read n s = Inr (rc, data, s') \<Longrightarrow> 0 < rc \<Longrightarrow> x \<in> {Hangup, Failure} \<Longrightarrow>
   x \<in> set (inq s) \<Longrightarrow> x \<in> set (inq s')"
  by (auto simp: sys_read_def Let_def split: if_splits list.splits arrival.splits)

lemma read_loop_halts:
  "read_loop buf cap blen s = Inl e \<Longrightarrow> e = Blocked \<and> set (inq s) \<inter> {Hangup, Failure} = {}"
proof (induction buf cap blen s rule: read_loop.induct)
  case (1 buf cap blen s)
  show ?case
  proof (cases "sys_read (read_room buf cap blen) s")
    case (Inl e')
    then show ?thesis
      using "1.prems" Inl sys_read_halts [of _ s] by (subst (asm) read_loop_unfold) auto
  next
    case (Inr r)
    then obtain rc data t where rd: "sys_read (read_room buf cap blen) s = Inr (rc, data, t)"
      by (cases r) auto
    let ?cap = "if blen < kMaxNetPacketSize then max cap (length buf * 2) else cap"
    have loop: "read_loop (buf @ data) (max ?cap (length buf + read_room buf cap blen))
        (read_room buf cap blen - nat rc) t = Inl e" "\<not> rc < int kMaxNetPacketSize"
        "rc \<noteq> 0" "\<not> rc < 0"
      using "1.prems" rd by (subst (asm) read_loop_unfold, auto split: if_splits)+
    have "(?cap, read_room buf cap blen) = (if blen < kMaxNetPacketSize
       then (max cap (length buf * 2), max cap (length buf * 2) - length buf) else (cap, blen))"
      by (simp add: read_room_def)
    from "1.IH" [OF this refl rd refl refl loop(3,4,2,1)] sys_read_keeps_end [OF rd] loop(3,4)
    show ?thesis by auto
  qed
qed

text \<open>C25: The reader never runs out of its buffer and always comes back when the peer closes the
  connection or the connection fails, however much arrived before; the only way for it not
  to return is to wait for more bytes.\<close>

theorem ReadWholePacket_returns:
  "(Hangup \<in> set (inq s) \<or> Failure \<in> set (inq s) \<longrightarrow> (\<exists>st b s'. ReadWholePacket s = Inr (st, b, s'))) \<and>
   (\<forall>e. ReadWholePacket s = Inl e \<longrightarrow> e = Blocked)"
  using read_loop_halts [of "[]" kMaxNetPacketSize kMaxNetPacketSize s]
  by (cases "ReadWholePacket s") (auto simp: ReadWholePacket_def)

lemma ReadWholePacket_returns_witness:
  "\<exists>st b s'. ReadWholePacket (fresh_socket\<lparr>inq := [Segment (replicate 131072 0), Hangup]\<rparr>) =
     Inr (st, b, s')"
  using ReadWholePacket_returns [of "fresh_socket\<lparr>inq := [Segment (replicate 131072 0), Hangup]\<rparr>"]
  by simp

section \<open>Framing depends on how the bytes arrive\<close>

lemma ReadWholePacket_short_segment:
  assumes "is_open s" and "inq s = Segment a # q" and "a \<noteq> []" and "length a < kMaxNetPacketSize"
  shows "ReadWholePacket s = Inr (Status_Ok, a, s\<lparr>inq := q\<rparr>)"
  using ReadWholePacket_chunks [of s a q] assms by (simp add: packet_chunks_short)

text \<open>C37: The end of a packet is taken to be the first read that returns less than a full piece,
  not the size in the packet. A command that the network delivers in two parts, the first
  shorter than a piece, is cut there: the reader hands the first part to the factory, which
  reads past its end.\<close>

theorem ReadFromClient_split_packet:
  assumes "wf_command c" and "encode_command c = a @ b" and "a \<noteq> []" and "b \<noteq> []"
    and "length a < kMaxNetPacketSize" and "is_open s" and "inq s = Segment a # Segment b # q"
  shows "ReadFromClient s = Inl OutOfBounds"
  using ReadWholePacket_short_segment [OF assms(6,7,3,5)]
    cmd.parse_truncated [OF assms(1,2,4)] by (simp add: ReadFromClient_def)

lemma ReadFromClient_split_packet_witness:
  "ReadFromClient (fresh_socket\<lparr>inq := [Segment [6, 0, 0, 0, 0], Segment [1, 0, 0, 0, 107]]\<rparr>) =
     Inl OutOfBounds"
  by (rule ReadFromClient_split_packet [of "Get [107]" "[6, 0, 0, 0, 0]" "[1, 0, 0, 0, 107]" _ "[]"])
    (simp_all add: wf_command_def encode_command_def framed_def str_enc_def u32_bytes_def
      kMaxNetPacketSize_def)

text \<open>Two commands that arrive in one batch are read as the first of them: the second is
  taken off the socket and dropped.\<close>

lemma ReadFromClient_drops_coalesced:
  assumes "wf_command c" and "wf_command d"
    and "length (encode_command c @ encode_command d) < kMaxNetPacketSize"
    and "is_open s" and "inq s = Segment (encode_command c @ encode_command d) # q"
  shows "\<exists>p. ReadFromClient s = Inr (StatusOr_ptr (Some p), s\<lparr>inq := q\<rparr>) \<and> packet_command p = c"
proof -
  have "encode_command c \<noteq> []" by (simp add: encode_command_def framed_def)
  then have "ReadWholePacket s = Inr (Status_Ok, encode_command c @ encode_command d, s\<lparr>inq := q\<rparr>)"
    using ReadWholePacket_short_segment [OF assms(4,5)] assms(3) by simp
  then show ?thesis
    using CreateCommandPacket_encode [OF assms(1)]
    by (intro exI [of _ "command_object (received_packet c) c"]) (simp add: ReadFromClient_def)
qed

lemma ReadFromClient_drops_coalesced_witness:
  "\<exists>p. ReadFromClient (fresh_socket\<lparr>inq :=
       [Segment (encode_command (Put [107] [1]) @ encode_command (Delete [107]))]\<rparr>) =
     Inr (StatusOr_ptr (Some p), fresh_socket) \<and> packet_command p = Put [107] [1]"
  using ReadFromClient_drops_coalesced [of "Put [107] [1]" "Delete [107]" "fresh_socket\<lparr>inq :=
       [Segment (encode_command (Put [107] [1]) @ encode_command (Delete [107]))]\<rparr>" "[]"]
  by (simp add: wf_command_def length_encode_command kMaxNetPacketSize_def fresh_socket_def)

lemma read_loop_full_pieces:
  assumes "length a = kMaxNetPacketSize" and "length b = kMaxNetPacketSize"
    and "kMaxNetPacketSize \<le> length c" and "length c < 2 * kMaxNetPacketSize"
    and "is_open s" and "inq s = [Segment a, Segment b, Segment c]"
  shows "ReadWholePacket s = Inl Blocked"
proof -
  let ?k = kMaxNetPacketSize
  have rd: "sys_read n (s\<lparr>inq := Segment x # q\<rparr>) = Inr (int (length x), x, s\<lparr>inq := q\<rparr>)"
    if "length x \<le> n" "length x < 2 * ?k" for x n q
    using sys_read_segment [of "s\<lparr>inq := Segment x # q\<rparr>" x q n] that assms(5)
    by (simp add: kMaxNetPacketSize_def max_transfer_def)
  have s: "s = s\<lparr>inq := [Segment a, Segment b, Segment c]\<rparr>" using assms(6) by simp
  have "c \<noteq> []" using assms(3) by auto
  have "read_loop (a @ b @ c) cap blen (s\<lparr>inq := []\<rparr>) = Inl Blocked" for cap blen
    using assms(5) by (subst read_loop_unfold) (simp add: sys_read_def)
  then have "read_loop (a @ b) cap 0 (s\<lparr>inq := [Segment c]\<rparr>) = Inl Blocked" for cap
    using assms(1-4) rd [of c "read_room (a @ b) cap 0" "[]"] \<open>c \<noteq> []\<close>
    by (subst read_loop_unfold) (simp add: read_room_def)
  then have "read_loop a ?k 0 (s\<lparr>inq := [Segment b, Segment c]\<rparr>) = Inl Blocked"
    using assms(1-4) rd [of b "read_room a ?k 0" "[Segment c]"]
    by (subst read_loop_unfold) (simp add: read_room_def)
  then show ?thesis
    using assms(1-4) rd [of a ?k "[Segment b, Segment c]"]
    unfolding ReadWholePacket_def
    by (subst s, subst read_loop_unfold) (simp add: read_room_def)
qed

text \<open>C38: After two full pieces the reader has room for two more, and takes a read of more than a
  piece for a full one. So a packet of more than three pieces may be waited for although all of
  it has arrived: when its third piece and the short one behind it come in one batch, the reader
  asks for more, and a client that waits for its answer never sends more.\<close>

theorem ReadWholePacket_coalesced_waits:
  assumes "3 * kMaxNetPacketSize \<le> length d" and "length d < 4 * kMaxNetPacketSize"
    and "is_open s" and "inq s = [Segment (take kMaxNetPacketSize d),
      Segment (take kMaxNetPacketSize (drop kMaxNetPacketSize d)),
      Segment (concat (drop 2 (packet_chunks d)))]"
  shows "stream s = concat (packet_chunks d) \<and> ReadWholePacket s = Inl Blocked"
proof -
  let ?k = kMaxNetPacketSize
  have chunks: "packet_chunks d = take ?k d # take ?k (drop ?k d) # packet_chunks (drop (2 * ?k) d)"
    using assms(1) by (simp add: packet_chunks.simps [of d] packet_chunks.simps [of "drop ?k d"] mult_2)
  have "length (drop (2 * ?k) d) \<le> ?k" if "?k dvd length (drop (2 * ?k) d)"
  proof -
    from that obtain m where m: "length (drop (2 * ?k) d) = ?k * m" ..
    then have "?k * m < ?k * 2" using assms(1,2) by (simp only: length_drop)
    then show ?thesis using m by simp
  qed
  then have "length (concat (packet_chunks (drop (2 * ?k) d))) < 2 * ?k"
    "?k \<le> length (concat (packet_chunks (drop (2 * ?k) d)))"
    using packet_chunks_shape [of "drop (2 * ?k) d"] assms(1,2)
    by (auto simp: kMaxNetPacketSize_def)
  moreover have "inq s = [Segment (take ?k d), Segment (take ?k (drop ?k d)),
      Segment (concat (packet_chunks (drop (2 * ?k) d)))]"
    using assms(4) by (simp add: chunks)
  ultimately show ?thesis
    using read_loop_full_pieces [of "take ?k d" "take ?k (drop ?k d)"
        "concat (packet_chunks (drop (2 * ?k) d))" s] assms(1,3)
    by (simp add: stream_def chunks)
qed

lemma ReadWholePacket_coalesced_waits_witness:
  "ReadWholePacket (fresh_socket\<lparr>inq := [Segment (replicate 131072 7), Segment (replicate 131072 7),
      Segment (replicate 131073 7)]\<rparr>) = Inl Blocked"
proof -
  have d: "drop 2 (packet_chunks (replicate 393217 7)) = [replicate 131072 7, [7]]"
    by (simp add: packet_chunks.simps [of "replicate _ _"] packet_chunks.simps [of "[7]"] kMaxNetPacketSize_def)
  have "replicate 131072 (7 :: byte) @ [7] = replicate 131073 7"
    using replicate_append_same [of 131072 "7 :: byte"] replicate_Suc [of 131072 "7 :: byte"] by simp
  then show ?thesis
    using ReadWholePacket_coalesced_waits [of "replicate 393217 7" "fresh_socket\<lparr>inq :=
      [Segment (replicate 131072 7), Segment (replicate 131072 7), Segment (replicate 131073 7)]\<rparr>"]
    by (simp add: d kMaxNetPacketSize_def min_def)
qed

section \<open>Forwarding\<close>

lemma ForwardPacket_chunks:
  assumes "src \<noteq> dst" and "is_open (net src)" and "is_open (net dst)" and "wplan (net dst) = []"
    and "inq (net src) = map Segment (packet_chunks d) @ q"
  shows "ForwardPacket src dst net =
    Inr (Status_Ok, net(src := (net src)\<lparr>inq := q\<rparr>,
      dst := (net dst)\<lparr>outq := outq (net dst) @ packet_chunks d\<rparr>))"
  using assms
proof (induction d arbitrary: net rule: packet_chunks.induct)
  case (1 d)
  show ?case
  proof (cases "kMaxNetPacketSize \<le> length d")
    case True
    let ?c = "take kMaxNetPacketSize d" and ?r = "drop kMaxNetPacketSize d"
    let ?s = "(net src)\<lparr>inq := map Segment (packet_chunks ?r) @ q\<rparr>"
    let ?net = "net(src := ?s, dst := (net dst)\<lparr>outq := outq (net dst) @ [?c]\<rparr>)"
    have chunks: "packet_chunks d = ?c # packet_chunks ?r"
      using True by (simp add: packet_chunks.simps [of d])
    have rd: "sys_read kMaxNetPacketSize (net src) = Inr (int kMaxNetPacketSize, ?c, ?s)"
      using sys_read_segment [of "net src" ?c "map Segment (packet_chunks ?r) @ q" kMaxNetPacketSize]
        "1.prems" kMax_le_max_transfer True by (simp add: chunks)
    have loop: "ForwardPacket src dst ?net = Inr (Status_Ok, ?net(src := (?net src)\<lparr>inq := q\<rparr>,
        dst := (?net dst)\<lparr>outq := outq (?net dst) @ packet_chunks ?r\<rparr>))"
      using True "1.prems" by (intro "1.IH") simp_all
    have "sys_write ?c (net dst) = (int kMaxNetPacketSize, (net dst)\<lparr>outq := outq (net dst) @ [?c]\<rparr>)"
      using "1.prems" True by (simp add: sys_write_all)
    then have "ForwardPacket src dst net = ForwardPacket src dst ?net"
      using "1.prems"(1) by (subst ForwardPacket.simps) (simp add: rd)
    then show ?thesis
      using "1.prems"(1) unfolding loop by (auto simp: chunks fun_eq_iff)
  next
    case False
    define c where "c = (if d = [] then [0] else d)"
    have chunks: "packet_chunks d = [c]"
      using False by (simp add: packet_chunks.simps [of d] c_def)
    have len: "0 < length c" "length c < kMaxNetPacketSize"
      using False by (auto simp: c_def kMaxNetPacketSize_def)
    have "sys_read kMaxNetPacketSize (net src) = Inr (int (length c), c, (net src)\<lparr>inq := q\<rparr>)"
      using sys_read_segment [of "net src" c q] "1.prems" kMax_le_max_transfer len
      by (simp add: chunks)
    then show ?thesis
      using len "1.prems" by (subst ForwardPacket.simps) (simp add: chunks sys_write_all)
  qed
qed

text \<open>C17: Forwarding is transparent: a packet whose pieces arrive one by one is written to the
  other socket in the same pieces, whatever is in it and however long it is; nothing behind it
  is taken from the source, and no other socket is touched.\<close>

theorem ForwardPacket_transparent:
  assumes "src \<noteq> dst" and "is_open (net src)" and "is_open (net dst)" and "wplan (net dst) = []"
    and "inq (net src) = map Segment (packet_chunks d) @ q"
  shows "\<exists>net'. ForwardPacket src dst net = Inr (Status_Ok, net') \<and>
     outq (net' dst) = outq (net dst) @ packet_chunks d \<and> inq (net' src) = q \<and>
     (\<forall>fd. fd \<noteq> src \<and> fd \<noteq> dst \<longrightarrow> net' fd = net fd)"
  using ForwardPacket_chunks [OF assms] assms(1) by simp

lemma ForwardPacket_transparent_witness:
  "\<exists>net'. ForwardPacket 5 4 ((\<lambda>_. fresh_socket)(5 := fresh_socket\<lparr>inq := [Segment [1, 2]]\<rparr>)) =
     Inr (Status_Ok, net') \<and> outq (net' 4) = [[1, 2]]"
proof -
  have c: "packet_chunks [1, 2] = [[1, 2]]"
    by (rule packet_chunks_short) (simp_all add: kMaxNetPacketSize_def)
  show ?thesis
    using ForwardPacket_transparent [of 5 4
        "(\<lambda>_. fresh_socket)(5 := fresh_socket\<lparr>inq := [Segment [1, 2]]\<rparr>)" "[1, 2]" "[]"]
    by (auto simp: c)
qed

lemma packet_chunks_padded: "packet_chunks (concat (packet_chunks d)) = packet_chunks d"
proof (induction d rule: packet_chunks.induct)
  case (1 d)
  show ?case
  proof (cases "kMaxNetPacketSize \<le> length d")
    case True
    let ?c = "take kMaxNetPacketSize d" and ?r = "drop kMaxNetPacketSize d"
    have len: "length ?c = kMaxNetPacketSize" using True by simp
    have "packet_chunks (?c @ e) = ?c # packet_chunks e" for e
      using len by (subst packet_chunks.simps) simp
    then show ?thesis using "1.IH" [OF True] True by (simp add: packet_chunks.simps [of d])
  next
    case False
    then show ?thesis by (simp add: packet_chunks.simps [of d] packet_chunks.simps [of "[0]"])
        (simp add: kMaxNetPacketSize_def)
  qed
qed



end
