(* ===== verification/Sqpkv_Store.thy ===== *)
theory Sqpkv_Store
  imports Sqpkv_Protocol "HOL-Library.List_Lexorder" "HOL-Library.Sublist"
begin

text \<open>
  The store behind a shard. RocksDB is not part of the repository: it is a parameter of the
  model, a record of the four operations the code uses, with its documented behaviour as the
  predicate \<open>rocksdb_contract\<close>. The theory holds what the servers do with it for one command
  (\<^verbatim>\<open>src/server/kv_request_handler.cc\<close>, \<^verbatim>\<open>src/server/kv_worker.cc\<close>), the abstract
  key-value specification it refines, and a reference store that satisfies the contract.
\<close>

section \<open>RocksDB as a parameter\<close>

text \<open>\<open>db_seek\<close> is the sequence of keys an iterator visits from \<^verbatim>\<open>Seek(target)\<close> on; the
  iterator is valid as long as there is a key left.\<close>

record 'd rocksdb =
  db_get :: "'d \<Rightarrow> bytes \<Rightarrow> rocks_status \<times> bytes"
  db_put :: "'d \<Rightarrow> bytes \<Rightarrow> bytes \<Rightarrow> rocks_status \<times> 'd"
  db_delete :: "'d \<Rightarrow> bytes \<Rightarrow> rocks_status \<times> 'd"
  db_seek :: "'d \<Rightarrow> bytes \<Rightarrow> bytes list"

text \<open>
  The documented behaviour: \<open>Get\<close> answers ok with the stored value or \<open>NotFound\<close> when there
  is none, or fails otherwise; \<open>Put\<close> and \<open>Delete\<close> take effect when they answer ok and have
  no effect when they fail; an iterator visits keys from the target on in the order of the
  default comparator (bytewise). The stores are opened with a prefix extractor and the iterators do not
  ask for a total order, so the order is only promised among keys whose extracted prefix is that of the
  target (or among all keys, when the target has none): these come first, and all keys that
  start with the target are among them; about what comes behind them nothing is promised but that
  these keys do not start with the target. The store may fail at any time.
\<close>

definition rocksdb_contract ::
  "'d rocksdb \<Rightarrow> ('d \<Rightarrow> bool) \<Rightarrow> ('d \<Rightarrow> bytes \<rightharpoonup> bytes) \<Rightarrow> bool" where
  "rocksdb_contract ops I M \<longleftrightarrow>
     (\<forall>d k. I d \<longrightarrow>
        (rs_ok (fst (db_get ops d k)) \<longrightarrow> M d k = Some (snd (db_get ops d k))) \<and>
        (rs_not_found (fst (db_get ops d k)) \<longrightarrow> M d k = None)) \<and>
     (\<forall>d k v. I d \<longrightarrow> I (snd (db_put ops d k v)) \<and>
        M (snd (db_put ops d k v)) =
          (if rs_ok (fst (db_put ops d k v)) then (M d)(k \<mapsto> v) else M d)) \<and>
     (\<forall>d k. I d \<longrightarrow> I (snd (db_delete ops d k)) \<and>
        M (snd (db_delete ops d k)) =
          (if rs_ok (fst (db_delete ops d k)) then (M d)(k := None) else M d)) \<and>
     (\<forall>d p. I d \<longrightarrow> (\<exists>ks zs. db_seek ops d p = ks @ zs \<and> sorted ks \<and> distinct ks \<and>
        {k \<in> dom (M d). prefix p k} \<subseteq> set ks \<and> set ks \<subseteq> {k \<in> dom (M d). p \<le> k} \<and>
        (\<forall>z \<in> set zs. \<not> prefix p z)))"

lemma contract_get:
  assumes "rocksdb_contract ops I M" and "I d"
  shows "rs_ok (fst (db_get ops d k)) \<Longrightarrow> M d k = Some (snd (db_get ops d k))"
    and "rs_not_found (fst (db_get ops d k)) \<Longrightarrow> M d k = None"
  using assms by (auto simp: rocksdb_contract_def)

lemma contract_put:
  assumes "rocksdb_contract ops I M" and "I d"
  shows "I (snd (db_put ops d k v))"
    and "M (snd (db_put ops d k v)) =
      (if rs_ok (fst (db_put ops d k v)) then (M d)(k \<mapsto> v) else M d)"
  using assms by (auto simp: rocksdb_contract_def)

lemma contract_delete:
  assumes "rocksdb_contract ops I M" and "I d"
  shows "I (snd (db_delete ops d k))"
    and "M (snd (db_delete ops d k)) =
      (if rs_ok (fst (db_delete ops d k)) then (M d)(k := None) else M d)"
  using assms by (auto simp: rocksdb_contract_def)

lemma contract_seek:
  assumes "rocksdb_contract ops I M" and "I d"
  obtains ks zs where "db_seek ops d p = ks @ zs" and "sorted ks" and "distinct ks"
    and "{k \<in> dom (M d). prefix p k} \<subseteq> set ks" and "set ks \<subseteq> {k \<in> dom (M d). p \<le> k}"
    and "\<forall>z \<in> set zs. \<not> prefix p z"
proof -
  note c = assms(1) [unfolded rocksdb_contract_def, THEN conjunct2, THEN conjunct2, THEN conjunct2,
      rule_format, OF assms(2), of p]
  from c show thesis by (elim exE conjE) (rule that)
qed

section \<open>The prefix scan\<close>

text \<open>The loop \<^verbatim>\<open>for (iter->Seek(prefix); iter->Valid() && iter->key().starts_with(prefix);
  iter->Next())\<close>.\<close>

fun scan_keys :: "bytes \<Rightarrow> bytes list \<Rightarrow> bytes list" where
  "scan_keys p [] = []"
| "scan_keys p (k # ks) = (if prefix p k then k # scan_keys p ks else [])"

text \<open>In the bytewise order the keys with a given prefix are consecutive.\<close>

lemma prefix_between:
  fixes p x :: "'a :: linorder list"
  shows "p \<le> x \<Longrightarrow> x \<le> p @ z \<Longrightarrow> prefix p x"
proof (induction p arbitrary: x)
  case Nil
  then show ?case by simp
next
  case (Cons a p)
  then obtain b x' where "x = b # x'" by (cases x) auto
  with Cons show ?case by auto
qed

lemma prefix_le: "prefix p (k :: 'a :: linorder list) \<Longrightarrow> p \<le> k"
proof (induction p arbitrary: k)
  case Nil
  then show ?case by simp
next
  case (Cons a p)
  then obtain k' where "k = a # k'" "prefix p k'" by (cases k) auto
  with Cons.IH show ?case by simp
qed

lemma scan_keys_filter:
  "sorted ks \<Longrightarrow> (\<forall>k \<in> set ks. p \<le> k) \<Longrightarrow> scan_keys p ks = filter (prefix p) ks"
proof (induction ks)
  case Nil
  then show ?case by simp
next
  case (Cons k ks)
  show ?case
  proof (cases "prefix p k")
    case True
    with Cons show ?thesis by simp
  next
    case False
    have "\<not> prefix p y" if "y \<in> set ks" for y
    proof
      assume "prefix p y"
      then obtain z where "y = p @ z" by (rule prefixE)
      then have "prefix p k" using Cons.prems that by (intro prefix_between [of p k z]) auto
      with False show False by simp
    qed
    then have "filter (prefix p) ks = []" by (simp add: filter_empty_conv)
    with False show ?thesis by simp
  qed
qed

lemma scan_keys_stops:
  "\<forall>z \<in> set zs. \<not> prefix p z \<Longrightarrow> scan_keys p (ks @ zs) = scan_keys p ks"
proof (induction ks)
  case Nil
  then show ?case by (cases zs) simp_all
qed simp

section \<open>One command on the store\<close>

text \<open>What the branch of a command does with the database, and the response it then builds. The
  branches of \<^verbatim>\<open>KvWorker::HandleClient\<close> and of
  \<^verbatim>\<open>KvRequestHandler::HandleReadCompletion\<close> are the same up to the response's buffer.\<close>

fun kv_execute :: "'d rocksdb \<Rightarrow> 'd \<Rightarrow> command_packet \<Rightarrow> response \<times> 'd" where
  "kv_execute ops d (GetPacket pk key) =
     (let (get_status, value) = db_get ops d key in (RGet (Status_of_rocks get_status) value, d))"
| "kv_execute ops d (PutPacket pk key value) =
     (let (put_status, d) = db_put ops d key value in (RPut (Status_of_rocks put_status), d))"
| "kv_execute ops d (DeletePacket pk key) =
     (let (delete_status, d) = db_delete ops d key in (RDelete (Status_of_rocks delete_status), d))"
| "kv_execute ops d (GetAllPacket pk p) =
     (RGetAll Status_Ok (scan_keys p (db_seek ops d p)), d)"

subsection \<open>The specification\<close>

text \<open>A key-value map with four commands; any command but the prefix scan may fail, and then has
  no effect.\<close>

inductive kv_spec :: "(bytes \<rightharpoonup> bytes) \<Rightarrow> command \<Rightarrow> response \<Rightarrow> (bytes \<rightharpoonup> bytes) \<Rightarrow> bool" where
  get_hit: "m k = Some v \<Longrightarrow> kv_spec m (Get k) (RGet Status_Ok v) m"
| get_fail: "\<not> ok st \<Longrightarrow> kv_spec m (Get k) (RGet st v) m"
| put_ok: "kv_spec m (Put k v) (RPut Status_Ok) (m(k \<mapsto> v))"
| put_fail: "\<not> ok st \<Longrightarrow> kv_spec m (Put k v) (RPut st) m"
| delete_ok: "kv_spec m (Delete k) (RDelete Status_Ok) (m(k := None))"
| delete_fail: "\<not> ok st \<Longrightarrow> kv_spec m (Delete k) (RDelete st) m"
| get_all: "sorted ks \<Longrightarrow> distinct ks \<Longrightarrow> set ks = {k \<in> dom m. prefix p k} \<Longrightarrow>
    kv_spec m (GetAll p) (RGetAll Status_Ok ks) m"

inductive_cases kv_spec_GetE: "kv_spec m (Get k) r m'"
inductive_cases kv_spec_PutE: "kv_spec m (Put k v) r m'"
inductive_cases kv_spec_DeleteE: "kv_spec m (Delete k) r m'"
inductive_cases kv_spec_GetAllE: "kv_spec m (GetAll p) r m'"

lemmas kv_specE = kv_spec_GetE kv_spec_PutE kv_spec_DeleteE kv_spec_GetAllE

inductive_simps kv_spec_simps:
  "kv_spec m (Get k) r m'"
  "kv_spec m (Put k v) r m'"
  "kv_spec m (Delete k) r m'"
  "kv_spec m (GetAll p) r m'"

text \<open>A run of the specification: commands and responses in the order in which they take effect.\<close>

inductive kv_run :: "(bytes \<rightharpoonup> bytes) \<Rightarrow> (command \<times> response) list \<Rightarrow> (bytes \<rightharpoonup> bytes) \<Rightarrow> bool" where
  run_done: "kv_run m [] m"
| run_step: "kv_spec m c r m' \<Longrightarrow> kv_run m' es m'' \<Longrightarrow> kv_run m ((c, r) # es) m''"

inductive_cases kv_run_ConsE: "kv_run m (e # es) m'"

lemma kv_run_snoc: "kv_run m es m' \<Longrightarrow> kv_spec m' c r m'' \<Longrightarrow> kv_run m (es @ [(c, r)]) m''"
  by (induction rule: kv_run.induct) (auto intro: kv_run.intros)

text \<open>What a command does to the map, as its response tells.\<close>

fun effect :: "command \<times> response \<Rightarrow> (bytes \<rightharpoonup> bytes) \<Rightarrow> (bytes \<rightharpoonup> bytes)" where
  "effect (Put k v, r) m = (if ok (response_status r) then m(k \<mapsto> v) else m)"
| "effect (Delete k, r) m = (if ok (response_status r) then m(k := None) else m)"
| "effect (Get k, r) m = m"
| "effect (GetAll p, r) m = m"

lemma kv_spec_effect: "kv_spec m c r m' \<Longrightarrow> m' = effect (c, r) m"
  by (induction rule: kv_spec.induct) (auto simp: ok_def Status_Ok_def)

lemma kv_run_effects: "kv_run m es m' \<Longrightarrow> m' = fold effect es m"
  by (induction rule: kv_run.induct) (auto dest: kv_spec_effect)

lemma kv_execute_spec:
  assumes "rocksdb_contract ops I M" and "I d"
  shows "kv_spec (M d) (packet_command p) (fst (kv_execute ops d p)) (M (snd (kv_execute ops d p))) \<and>
     I (snd (kv_execute ops d p))"
proof (cases p)
  case (GetPacket pk k)
  then show ?thesis
    using contract_get [OF assms, of k] assms(2)
    by (cases "db_get ops d k"; cases "rs_ok (fst (db_get ops d k))")
      (auto intro: kv_spec.intros)
next
  case (PutPacket pk k v)
  then show ?thesis
    using contract_put [OF assms, of k v]
    by (cases "db_put ops d k v"; cases "rs_ok (fst (db_put ops d k v))")
      (auto intro: kv_spec.intros)
next
  case (DeletePacket pk k)
  then show ?thesis
    using contract_delete [OF assms, of k]
    by (cases "db_delete ops d k"; cases "rs_ok (fst (db_delete ops d k))")
      (auto intro: kv_spec.intros)
next
  case (GetAllPacket pk q)
  from contract_seek [OF assms, of q] obtain ks zs where seek: "db_seek ops d q = ks @ zs" "sorted ks" "distinct ks"
    "{k \<in> dom (M d). prefix q k} \<subseteq> set ks" "set ks \<subseteq> {k \<in> dom (M d). q \<le> k}"
    "\<forall>z \<in> set zs. \<not> prefix q z" .
  have "scan_keys q ks = filter (prefix q) ks" using seek(2,5) by (intro scan_keys_filter) auto
  then have "scan_keys q (db_seek ops d q) = filter (prefix q) ks"
    using scan_keys_stops [OF seek(6), of ks] seek(1) by simp
  then show ?thesis
    using GetAllPacket seek(2-5) assms(2) by (auto intro!: get_all simp: sorted_wrt_filter)
qed

section \<open>A reference store\<close>

text \<open>A list of key-value pairs in the bytewise order of the keys: a store that never fails and
  satisfies the contract. The witnesses of the properties run on it.\<close>

type_synonym mem = "(bytes \<times> bytes) list"

definition rocks_ok :: rocks_status where
  "rocks_ok = \<lparr>rs_ok = True, rs_not_found = False, rs_text = bytes_of ''OK''\<rparr>"

definition rocks_not_found :: rocks_status where
  "rocks_not_found = \<lparr>rs_ok = False, rs_not_found = True, rs_text = bytes_of ''NotFound: ''\<rparr>"

definition mem_get :: "mem \<Rightarrow> bytes \<Rightarrow> rocks_status \<times> bytes" where
  "mem_get d k =
     (case map_of d k of None \<Rightarrow> (rocks_not_found, []) | Some v \<Rightarrow> (rocks_ok, v))"

fun mem_insert :: "bytes \<Rightarrow> bytes \<Rightarrow> mem \<Rightarrow> mem" where
  "mem_insert k v [] = [(k, v)]"
| "mem_insert k v (e # d) =
     (if fst e = k then (k, v) # d
      else if k < fst e then (k, v) # e # d else e # mem_insert k v d)"

definition mem_put :: "mem \<Rightarrow> bytes \<Rightarrow> bytes \<Rightarrow> rocks_status \<times> mem" where
  "mem_put d k v = (rocks_ok, mem_insert k v d)"

definition mem_delete :: "mem \<Rightarrow> bytes \<Rightarrow> rocks_status \<times> mem" where
  "mem_delete d k = (rocks_ok, filter (\<lambda>e. fst e \<noteq> k) d)"

definition mem_seek :: "mem \<Rightarrow> bytes \<Rightarrow> bytes list" where
  "mem_seek d p = filter (\<lambda>k. p \<le> k) (map fst d)"

definition mem_db :: "mem rocksdb" where
  "mem_db = \<lparr>db_get = mem_get, db_put = mem_put, db_delete = mem_delete, db_seek = mem_seek\<rparr>"

definition mem_good :: "mem \<Rightarrow> bool" where
  "mem_good d \<longleftrightarrow> sorted_wrt (<) (map fst d)"

lemma map_of_mem_insert: "mem_good d \<Longrightarrow> map_of (mem_insert k v d) = (map_of d)(k \<mapsto> v)"
proof (induction d)
  case Nil
  then show ?case by simp
next
  case (Cons e d)
  have "map_of d k = None" if "k < fst e"
    using Cons.prems that by (force simp: mem_good_def map_of_eq_None_iff)
  with Cons show ?case by (auto simp: mem_good_def fun_eq_iff)
qed

lemma keys_mem_insert: "fst ` set (mem_insert k v d) = insert k (fst ` set d)"
  by (induction d) auto

lemma mem_good_insert: "mem_good d \<Longrightarrow> mem_good (mem_insert k v d)"
proof (induction d)
  case Nil
  then show ?case by (simp add: mem_good_def)
next
  case (Cons e d)
  then show ?case using keys_mem_insert [of k v d] by (fastforce simp: mem_good_def)
qed

lemma map_of_filter_neq: "map_of (filter (\<lambda>e. fst e \<noteq> k) d) = (map_of d)(k := None)"
  by (induction d) (auto simp: fun_eq_iff)

lemma mem_good_filter: "mem_good d \<Longrightarrow> mem_good (filter P d)"
  unfolding mem_good_def by (induction d) auto

lemma mem_seek_sorted:
  assumes "mem_good d"
  shows "sorted (mem_seek d p) \<and> distinct (mem_seek d p) \<and>
    set (mem_seek d p) = {k \<in> dom (map_of d). p \<le> k}"
  using assms strict_sorted_iff [of "map fst d"]
  by (auto simp: mem_seek_def mem_good_def dom_map_of_conv_image_fst sorted_wrt_filter)

lemma mem_seek_contract:
  assumes "mem_good d"
  shows "\<exists>ks zs. mem_seek d p = ks @ zs \<and> sorted ks \<and> distinct ks \<and>
    {k \<in> dom (map_of d). prefix p k} \<subseteq> set ks \<and> set ks \<subseteq> {k \<in> dom (map_of d). p \<le> k} \<and>
    (\<forall>z \<in> set zs. \<not> prefix p z)"
  using mem_seek_sorted [OF assms, of p] prefix_le
  by (intro exI [of _ "mem_seek d p"] exI [of _ "[]"]) auto

lemma mem_db_contract: "rocksdb_contract mem_db mem_good map_of"
  unfolding rocksdb_contract_def mem_db_def
  using mem_seek_contract
  by (simp add: mem_get_def mem_put_def mem_delete_def rocks_ok_def rocks_not_found_def
      map_of_mem_insert mem_good_insert map_of_filter_neq mem_good_filter split: option.splits)

lemma mem_good_Nil [simp]: "mem_good []"
  by (simp add: mem_good_def)

end
