(* ===== verification/Sqpkv_Kv.thy ===== *)
theory Sqpkv_Kv
  imports Sqpkv_Store
begin

text \<open>
  The two servers of a shard: \<^verbatim>\<open>KvRequestHandler\<close>
  (\<^verbatim>\<open>src/server/kv_request_handler.cc\<close>), which answers a request in a registered buffer,
  and the thread of \<^verbatim>\<open>KvWorker\<close> (\<^verbatim>\<open>src/server/kv_worker.cc\<close>), which answers
  the requests of a socket.
\<close>

section \<open>KvRequestHandler\<close>

text \<open>The result: the returned \<^verbatim>\<open>StatusOr<size_t>\<close>, the output buffer and the database
  afterwards.\<close>

definition KvRequestHandler_HandleReadCompletion ::
  "'d rocksdb \<Rightarrow> 'd \<Rightarrow> bytes \<Rightarrow> bytes \<Rightarrow> (nat status_or \<times> bytes \<times> 'd) result" where
  "KvRequestHandler_HandleReadCompletion ops d in_buffer out_buffer =
     bindR (CreateCommandPacket in_buffer) (\<lambda>ptr.
     case ptr of
       None \<Rightarrow> Inl NullDeref
     | Some packet \<Rightarrow>
         let (r, d) = kv_execute ops d packet in
         bindR (response_new r (Some out_buffer)) (\<lambda>(resp, out).
         Inr (StatusOr_ptr (Some (ToBinary_size (response_base resp))), out, d)))"

text \<open>The size of the registered buffers (\<^verbatim>\<open>src/rdma/rdma_connection.cc\<close>).\<close>

definition kMaxBufferSize :: nat where
  "kMaxBufferSize = kMaxNetPacketSize + 4"

lemma kMaxBufferSize_eq: "kMaxBufferSize = 131076"
  by (simp add: kMaxBufferSize_def kMaxNetPacketSize_def)

lemma valid_kv_execute [simp]: "valid_code (code (response_status (fst (kv_execute ops d p))))"
  by (cases p) (auto simp: Let_def split: prod.splits)

lemma getall_status_kv_execute:
  "is_getall (fst (kv_execute ops d p)) \<Longrightarrow> \<exists>ks. fst (kv_execute ops d p) = RGetAll Status_Ok ks"
  by (cases p) (auto simp: is_getall_def Let_def split: prod.splits)

subsection \<open>What building a response needs\<close>

text \<open>The bytes a constructor writes, for every response.\<close>

definition response_written :: "response \<Rightarrow> bytes" where
  "response_written r = (case r of RGetAll st ks \<Rightarrow> getall_written ks | _ \<Rightarrow> encode_response r)"

lemma length_response_written:
  "(is_getall r \<Longrightarrow> response_status r = Status_Ok) \<Longrightarrow>
   length (response_written r) =
     10 + length (message (response_status r)) + length (response_body r)"
  by (cases r)
    (simp_all add: response_written_def length_encode_response is_getall_def keys_enc_def)

lemma response_new_fits:
  assumes "length m + 20 < 4294967296" and "response_new r (Some m) = Inr (p, m')"
  shows "10 + length (message (response_status r)) + length (response_body r) \<le> length m"
proof (cases r)
  case (RGet st v)
  have off: "ResponsePacket_Payload rp = 10 + length (message st)"
    if "10 + length (message st) \<le> length m"
      "extra_header_size rp = 6 + of_nat (length (message st))" for rp
    using Payload_offset [of st rp] that assms(1) by simp
  show ?thesis
    using assms RGet off
    by (auto simp: GetResponsePacket_new_def ResponsePacket_new_eq buffer_simps result_simps
        split: if_splits)
next
  case (RGetAll st ks)
  have off: "ResponsePacket_Payload rp = 10 + length (message st)"
    if "10 + length (message st) \<le> length m"
      "extra_header_size rp = 6 + of_nat (length (message st))" for rp
    using Payload_offset [of st rp] that assms(1) by simp
  show ?thesis
    using assms RGetAll off
    by (auto simp: GetAllResponsePacket_new_def ResponsePacket_new_eq buffer_simps result_simps
        keys_enc_def split: if_splits)
qed (use assms in \<open>auto simp: PutResponsePacket_new_def DeleteResponsePacket_new_def
      ResponsePacket_new_eq split: if_splits\<close>)

lemma response_new_written:
  assumes "valid_code (code (response_status r))" and "is_getall r \<Longrightarrow> response_status r = Status_Ok"
    and "length (response_written r) + 2 < 4294967296" and "length (response_written r) \<le> length m"
  shows "\<exists>p. response_new r (Some m) = Inr (p, fill m (response_written r)) \<and>
     ToBinary_size (response_base p) = length (response_written r) + (if is_getall r then 2 else 0)"
proof (cases "is_getall r")
  case True
  then obtain ks where r: "r = RGetAll Status_Ok ks"
    using assms(2) by (cases r) (auto simp: is_getall_def)
  then show ?thesis
    using assms GetAllResponsePacket_written [of ks m] by (simp add: response_written_def is_getall_def)
next
  case False
  then have w: "response_written r = encode_response r"
    by (cases r) (simp_all add: response_written_def is_getall_def)
  then have "wf_response r"
    using assms False by (simp add: wf_response_def encode_response_def)
  from resp.build_fits [OF this] show ?thesis using w False assms(4) by simp
qed

text \<open>Building a response into a buffer can only fail by leaving the buffer.\<close>

definition only_oob :: "'a result \<Rightarrow> bool" where
  "only_oob m \<longleftrightarrow> (\<forall>e. m = Inl e \<longrightarrow> e = OutOfBounds)"

lemma only_oob_bind:
  "only_oob m \<Longrightarrow> (\<And>x. m = Inr x \<Longrightarrow> only_oob (f x)) \<Longrightarrow> only_oob (bindR m f)"
  by (cases m) (auto simp: only_oob_def)

lemma only_oob_basic:
  "only_oob (Inr x)" "only_oob (read_bytes m p n)" "only_oob (write_bytes m p bs)"
  by (simp_all add: only_oob_def read_bytes_def write_bytes_def)

lemma only_oob_fields:
  "only_oob (AddValue m p rep)" "only_oob (AddString m p s)" "only_oob (ReadValue m p n)"
  "only_oob (ReadSlice m p)"
  unfolding AddValue_def AddString_def ReadValue_def ReadSlice_def Let_def
  by (auto intro!: only_oob_bind only_oob_basic split: prod.splits)

lemma only_oob_lists: "only_oob (AddStrings m p ks)" "only_oob (ReadSlices m p n)"
proof -
  show "only_oob (AddStrings m p ks)"
    by (induction ks arbitrary: m p)
      (auto intro!: only_oob_bind only_oob_fields only_oob_basic split: prod.splits)
  show "only_oob (ReadSlices m p n)"
    by (induction n arbitrary: p)
      (auto intro!: only_oob_bind only_oob_fields only_oob_basic split: prod.splits)
qed

lemma only_oob_response: "only_oob (response_new r (Some m))"
proof -
  have base: "only_oob (ResponsePacket_new ps op st (Some m))" for ps op st
    by (simp add: ResponsePacket_new_eq only_oob_def)
  show ?thesis
    by (cases r)
      (auto simp: GetResponsePacket_new_def PutResponsePacket_new_def DeleteResponsePacket_new_def
        GetAllResponsePacket_new_def
        intro!: only_oob_bind base only_oob_fields only_oob_lists only_oob_basic split: prod.splits)
qed

subsection \<open>The handler\<close>

lemma kv_execute_object: "kv_execute ops d (command_object pk (packet_command p)) = kv_execute ops d p"
  by (cases p) simp_all

lemma kv_handler_eq:
  fixes ops :: "'d rocksdb" and d :: 'd and c :: command
  defines "r \<equiv> fst (kv_execute ops d (command_object (received_packet c) c))"
  defines "d' \<equiv> snd (kv_execute ops d (command_object (received_packet c) c))"
  assumes wf: "wf_command c" and len: "length out + 20 < 4294967296"
  shows "KvRequestHandler_HandleReadCompletion ops d (encode_command c @ rest) out =
    (if length (response_written r) \<le> length out
     then Inr (StatusOr_ptr (Some (length (response_written r) + (if is_getall r then 2 else 0))),
               fill out (response_written r), d')
     else Inl OutOfBounds)"
proof -
  have h: "KvRequestHandler_HandleReadCompletion ops d (encode_command c @ rest) out =
      bindR (response_new r (Some out)) (\<lambda>(resp, out).
        Inr (StatusOr_ptr (Some (ToBinary_size (response_base resp))), out, d'))"
    unfolding KvRequestHandler_HandleReadCompletion_def r_def d'_def
    by (simp add: CreateCommandPacket_encode [OF wf] split: prod.split)
  have ok: "is_getall r \<Longrightarrow> response_status r = Status_Ok"
    unfolding r_def by (drule getall_status_kv_execute) auto
  show ?thesis
  proof (cases "length (response_written r) \<le> length out")
    case True
    then show ?thesis
      using response_new_written [of r out] ok len unfolding h by (auto simp: r_def)
  next
    case False
    have "\<not> (\<exists>p m'. response_new r (Some out) = Inr (p, m'))"
      using False response_new_fits [OF len, of r] length_response_written [of r] ok by fastforce
    then have "response_new r (Some out) = Inl OutOfBounds"
      using only_oob_response [of r out]
      by (cases "response_new r (Some out)") (auto simp: only_oob_def)
    then show ?thesis using False by (simp add: h)
  qed
qed

lemma parse_written:
  assumes "valid_code (code (response_status r))" and "is_getall r \<Longrightarrow> response_status r = Status_Ok"
    and "length out + 20 < 4294967296"
    and "length (response_written r) + (if is_getall r then 2 else 0) \<le> length out"
  shows "\<exists>q. CreateResponsePacket (fill out (response_written r)) = Inr (Some q) \<and>
    packet_response q = response_norm r"
proof -
  obtain p where p: "response_new r (Some out) = Inr (p, fill out (response_written r))"
    using response_new_written [of r out] assms by fastforce
  show ?thesis
  proof (cases "is_getall r")
    case True
    then obtain ks where r: "r = RGetAll Status_Ok ks"
      using assms(2) by (cases r) (auto simp: is_getall_def)
    have "length (strs_enc ks) + 18 < 4294967296" "getall_size ks \<le> length out"
      using assms(3,4) r by (simp_all add: response_written_def is_getall_def getall_size_def)
    from GetAllResponsePacket_parse_written [OF this p [unfolded r]] r show ?thesis by auto
  next
    case False
    then have "wf_response r"
      using assms by (cases r) (simp_all add: wf_response_def response_written_def is_getall_def
          encode_response_def)
    from resp.parse_built [OF this p] show ?thesis .
  qed
qed

lemma kv_spec_run:
  assumes "rocksdb_contract ops I M" and "I d"
  shows "\<exists>r d'. kv_execute ops d (command_object pk c) = (r, d') \<and> kv_spec (M d) c r (M d') \<and> I d'"
  using kv_execute_spec [OF assms, of "command_object pk c"]
  by (cases "kv_execute ops d (command_object pk c)") simp

text \<open>One request through the buffers, for the witness of the specification's step and for what
  the output buffer says.\<close>

lemma kv_handler_step:
  assumes "rocksdb_contract ops I M" and "I d" and "wf_command c"
    and "length out + 20 < 4294967296"
    and "KvRequestHandler_HandleReadCompletion ops d (encode_command c @ rest) out = Inr (sz, out', d')"
  shows "\<exists>r. kv_spec (M d) c r (M d') \<and> I d' \<and>
     sz = StatusOr_ptr (Some (length (response_written r) + (if is_getall r then 2 else 0))) \<and>
     length out' = length out \<and>
     (length (response_written r) + (if is_getall r then 2 else 0) \<le> length out \<longrightarrow>
       (\<exists>q. CreateResponsePacket out' = Inr (Some q) \<and> packet_response q = response_norm r)) \<and>
     length (response_written r) \<le> length out"
proof -
  let ?p = "command_object (received_packet c) c"
  obtain r e where run: "kv_execute ops d ?p = (r, e)" "kv_spec (M d) c r (M e)" "I e"
    using kv_spec_run [OF assms(1,2)] by blast
  from kv_handler_eq [OF assms(3,4), of ops d rest] assms(5) run(1)
  have res: "sz = StatusOr_ptr (Some (length (response_written r) + (if is_getall r then 2 else 0)))"
      "out' = fill out (response_written r)" "d' = e" "length (response_written r) \<le> length out"
    by (simp_all split: if_splits)
  have "valid_code (code (response_status r))" "is_getall r \<Longrightarrow> response_status r = Status_Ok"
    using valid_kv_execute [of ops d ?p] getall_status_kv_execute [of ops d ?p] run(1) by auto
  from parse_written [OF this assms(4)] res run show ?thesis
    by (intro exI [of _ r]) auto
qed

lemma kv_spec_getall: "kv_spec m c r m' \<Longrightarrow> is_getall r \<longleftrightarrow> (\<exists>p. c = GetAll p)"
  by (cases rule: kv_spec.cases) (auto simp: is_getall_def)

text \<open>The bytes a handler reports, when they lie within the buffer: the encoded response, or what
  the constructor of the GetAll response wrote and two bytes of the buffer behind it.\<close>

lemma reported_bytes:
  assumes "length (response_written r) + (if is_getall r then 2 else 0) \<le> length out"
  shows "take (length (response_written r) + (if is_getall r then 2 else 0)) (fill out (response_written r)) =
    response_written r @ (if is_getall r then take 2 (drop (length (response_written r)) out) else [])"
  using assms by (simp add: fill_def)

lemma kv_handler_reply:
  assumes "rocksdb_contract ops I M" and "I d" and "wf_command c" and "length out = kMaxBufferSize"
    and "KvRequestHandler_HandleReadCompletion ops d (encode_command c @ rest) out =
      Inr (StatusOr_ptr (Some n), out', d')"
    and "n \<le> length out"
  shows "\<exists>r. kv_spec (M d) c r (M d') \<and> I d' \<and> length (take n out') < 4294967296 \<and>
    (\<not> is_getall r \<longrightarrow> take n out' = encode_response r \<and> wf_response r) \<and>
    (is_getall r \<longrightarrow> (\<exists>ks z. r = RGetAll Status_Ok ks \<and> length z = 2 \<and> take n out' = getall_written ks @ z))"
proof -
  let ?p = "command_object (received_packet c) c"
  have len: "length out + 20 < 4294967296" using assms(4) by (simp add: kMaxBufferSize_eq)
  obtain r e where run: "kv_execute ops d ?p = (r, e)" "kv_spec (M d) c r (M e)" "I e"
    using kv_spec_run [OF assms(1,2)] by blast
  from kv_handler_eq [OF assms(3) len, of ops d rest] assms(5) run(1)
  have res: "n = length (response_written r) + (if is_getall r then 2 else 0)"
    "out' = fill out (response_written r)" "d' = e"
    by (simp_all add: StatusOr_ptr_def split: if_splits)
  note bytes = reported_bytes [of r out, folded res(1,2)]
  have valid: "valid_code (code (response_status r))"
    using valid_kv_execute [of ops d ?p] run(1) by simp
  have keyed: "take n out' = encode_response r \<and> wf_response r" if no: "\<not> is_getall r"
  proof -
    have w: "response_written r = encode_response r"
      using no by (cases r) (simp_all add: response_written_def is_getall_def)
    then have "take n out' = encode_response r" using bytes assms(6) no by simp
    moreover have "length (encode_response r) + 20 < 4294967296" using res no w assms(6) len by simp
    ultimately show ?thesis using no valid by (simp add: wf_response_def encode_response_def)
  qed
  have scan: "\<exists>ks z. r = RGetAll Status_Ok ks \<and> length z = 2 \<and> take n out' = getall_written ks @ z"
    if yes: "is_getall r"
  proof -
    obtain ks where r: "r = RGetAll Status_Ok ks"
      using getall_status_kv_execute [of ops d ?p] run(1) yes by auto
    let ?z = "take 2 (drop (length (response_written r)) out)"
    have "length ?z = 2" using assms(6) res(1) yes by simp
    moreover have "take n out' = getall_written ks @ ?z"
      using bytes assms(6) yes by (simp add: r response_written_def)
    ultimately show ?thesis using r by blast
  qed
  have "length (take n out') < 4294967296" using len assms(6) by simp
  then show ?thesis using run res(3) keyed scan by blast
qed

text \<open>C7: The request handler implements the key-value specification. Given a request in the
  input buffer and an output buffer of the registered size, if it returns, it returns ok, the
  database has made a step that the specification allows for the command, and, as long as the
  size it reports lies within the buffer, the output buffer reads back as the response of that
  step (with the answer to a delete carrying a put's operation code).\<close>

theorem kv_handler_refines:
  assumes "rocksdb_contract ops I M" and "I d" and "wf_command c"
    and "length out = kMaxBufferSize"
    and "KvRequestHandler_HandleReadCompletion ops d (encode_command c @ rest) out = Inr (sz, out', d')"
  shows "\<exists>r n. kv_spec (M d) c r (M d') \<and> I d' \<and> sz = StatusOr_ptr (Some n) \<and>
     length out' = length out \<and>
     (n \<le> length out \<longrightarrow>
       (\<exists>q. CreateResponsePacket out' = Inr (Some q) \<and> packet_response q = response_norm r))"
proof -
  have "length out + 20 < 4294967296" using assms(4) by (simp add: kMaxBufferSize_eq)
  from kv_handler_step [OF assms(1,2,3) this assms(5)] show ?thesis by blast
qed

text \<open>A request handler running on the reference store.\<close>

lemma encode_Put_example:
  "encode_command (Put [107] [118]) = [11, 0, 0, 0, 1, 1, 0, 0, 0, 107, 1, 0, 0, 0, 118]"
  by (simp add: encode_command_def framed_def str_enc_def u32_bytes_def)

lemma kv_handler_Put_example:
  "\<exists>sz out'. KvRequestHandler_HandleReadCompletion mem_db [] (encode_command (Put [107] [118]) @ [])
     (replicate kMaxBufferSize 0) = Inr (sz, out', [([107], [118])])"
  using kv_handler_eq [of "Put [107] [118]" "replicate kMaxBufferSize 0" mem_db "[]" "[]"]
  by (simp add: wf_command_def kMaxBufferSize_eq mem_db_def mem_put_def rocks_ok_def
      response_written_def length_encode_response is_getall_def)

lemma kv_handler_refines_witness:
  "\<exists>r. kv_spec Map.empty (Put [107] [118]) r (map_of [([107], [118])])"
proof -
  obtain sz out' where "KvRequestHandler_HandleReadCompletion mem_db []
      (encode_command (Put [107] [118]) @ []) (replicate kMaxBufferSize 0) =
      Inr (sz, out', [([107], [118])])"
    using kv_handler_Put_example by blast
  from kv_handler_refines [OF mem_db_contract mem_good_Nil _ _ this]
  show ?thesis by (force simp: wf_command_def)
qed

text \<open>C39: What happens to a response that does not fit: the handler returns exactly when the
  response of the command, which the database chooses, fits into the output buffer, and writes
  past the end of the buffer otherwise. Nothing in the handler checks the size.\<close>

theorem kv_handler_fits_iff:
  assumes "wf_command c" and "length out = kMaxBufferSize"
    and "fst (kv_execute ops d (command_object pk c)) = r"
  shows "KvRequestHandler_HandleReadCompletion ops d (encode_command c @ rest) out =
      Inl OutOfBounds \<longleftrightarrow>
    kMaxBufferSize < 10 + length (message (response_status r)) + length (response_body r)"
proof -
  have same: "kv_execute ops d (command_object (received_packet c) c) =
      kv_execute ops d (command_object pk c)"
    by (cases c) simp_all
  have len: "length out + 20 < 4294967296" using assms(2) by (simp add: kMaxBufferSize_eq)
  have "is_getall r \<Longrightarrow> response_status r = Status_Ok"
    using getall_status_kv_execute [of ops d "command_object pk c"] assms(3) by auto
  then show ?thesis
    using kv_handler_eq [OF assms(1) len, of ops d rest] assms(2,3) length_response_written [of r]
    by (simp add: same)
qed

lemma kv_handler_fits_iff_witness:
  "KvRequestHandler_HandleReadCompletion mem_db [([107], replicate 131065 1)]
     (encode_command (Get [107]) @ []) (replicate kMaxBufferSize 0) = Inl OutOfBounds"
  using kv_handler_fits_iff [OF _ _ refl, of "Get [107]" "replicate kMaxBufferSize 0" mem_db
      "[([107], replicate 131065 1)]" "[]"]
  by (simp add: wf_command_def kMaxBufferSize_eq mem_db_def mem_get_def rocks_ok_def)

text \<open>A put that is answered with ok is seen by the next get: if the response to a put read
  back from the output buffer is ok, and the response to a following get of the same key is ok,
  then the value in it is the value that was put.\<close>

lemma kv_handler_put_get:
  assumes "rocksdb_contract ops I M" and "I d" and "wf_command (Put k v)" and "wf_command (Get k)"
    and "length out = kMaxBufferSize" and "length out2 = kMaxBufferSize"
    and "KvRequestHandler_HandleReadCompletion ops d (encode_command (Put k v) @ z) out =
      Inr (StatusOr_ptr (Some n), out', d')"
    and "CreateResponsePacket out' = Inr (Some p)" and "ok (status_of (response_base p))"
    and "KvRequestHandler_HandleReadCompletion ops d' (encode_command (Get k) @ z2) out2 =
      Inr (StatusOr_ptr (Some n2), out2', d'')"
    and "CreateResponsePacket out2' = Inr (Some q)" and "ok (status_of (response_base q))"
  shows "packet_response q = RGet Status_Ok v"
proof -
  have len: "length out + 20 < 4294967296" "length out2 + 20 < 4294967296"
    using assms(5,6) by (simp_all add: kMaxBufferSize_eq)
  obtain r where r: "kv_spec (M d) (Put k v) r (M d')" "I d'" "packet_response p = response_norm r"
    using kv_handler_step [OF assms(1,2,3) len(1) assms(7)] assms(8) kv_spec_getall by fastforce
  obtain r2 where r2: "kv_spec (M d') (Get k) r2 (M d'')" "packet_response q = response_norm r2"
    using kv_handler_step [OF assms(1) r(2) assms(4) len(2) assms(10)] assms(11) kv_spec_getall
    by fastforce
  have "\<exists>st. packet_response p = RPut st \<and> ok st"
    using r(1,3) assms(9) by (cases p) (auto elim!: kv_spec_PutE)
  then have "M d' k = Some v" using r(1,3) by (auto elim!: kv_spec_PutE)
  moreover have "\<exists>st w. packet_response q = RGet st w \<and> ok st"
    using r2 assms(12) by (cases q) (auto elim!: kv_spec_GetE)
  ultimately show ?thesis using r2 by (auto elim!: kv_spec_GetE)
qed

lemma kv_handler_Get_example:
  "KvRequestHandler_HandleReadCompletion mem_db [([107], [118])] (encode_command (Get [107]) @ [])
     (replicate kMaxBufferSize 0) =
   Inr (StatusOr_ptr (Some 17), fill (replicate kMaxBufferSize 0) (encode_response (RGet Status_Ok [118])),
     [([107], [118])])"
  using kv_handler_eq [of "Get [107]" "replicate kMaxBufferSize 0" mem_db "[([107], [118])]" "[]"]
  by (simp add: wf_command_def kMaxBufferSize_eq mem_db_def mem_get_def rocks_ok_def
      response_written_def length_encode_response is_getall_def)

lemma kv_handler_put_get_witness:
  "\<exists>q. CreateResponsePacket
       (fill (replicate kMaxBufferSize 0) (encode_response (RGet Status_Ok [118]))) = Inr (Some q) \<and>
     packet_response q = RGet Status_Ok [118]"
proof -
  let ?b = "replicate kMaxBufferSize (0 :: byte)"
  have put: "KvRequestHandler_HandleReadCompletion mem_db [] (encode_command (Put [107] [118]) @ []) ?b =
      Inr (StatusOr_ptr (Some 12), fill ?b (encode_response (RPut Status_Ok)), [([107], [118])])"
    using kv_handler_eq [of "Put [107] [118]" ?b mem_db "[]" "[]"]
    by (simp add: wf_command_def kMaxBufferSize_eq mem_db_def mem_put_def rocks_ok_def
        response_written_def length_encode_response is_getall_def)
  have parse: "CreateResponsePacket (fill ?b (encode_response r)) =
      Inr (Some (response_object (received_resp r []) r))" if "wf_response r" for r
    using CreateResponsePacket_encode [OF that] by (simp add: fill_def)
  have wf: "wf_response (RPut Status_Ok)" "wf_response (RGet Status_Ok [118])"
    by (simp_all add: wf_response_def is_getall_def length_response_payload)
  have "packet_response (response_object (received_resp (RGet Status_Ok [118]) [])
      (RGet Status_Ok [118])) = RGet Status_Ok [118]"
    by (rule kv_handler_put_get [OF mem_db_contract mem_good_Nil _ _ _ _ put parse [OF wf(1)] _
          kv_handler_Get_example parse [OF wf(2)]])
      (simp_all add: wf_command_def received_resp_def)
  then show ?thesis using parse [OF wf(2)] by blast
qed

text \<open>A request whose operation code is none of the four makes the factory return a null
  pointer, which the handler dereferences: its own default branch is never reached.\<close>

lemma kv_handler_unknown_op:
  assumes "5 \<le> length in_buffer" and "byte_op (in_buffer ! 4) = None"
  shows "KvRequestHandler_HandleReadCompletion ops d in_buffer out = Inl NullDeref"
proof -
  have "read_bytes in_buffer 4 1 = Inr [in_buffer ! 4]"
    using assms(1) by (simp add: read_bytes_def take_Suc hd_drop_conv_nth)
  then show ?thesis
    using assms(2)
    by (simp add: KvRequestHandler_HandleReadCompletion_def CreateCommandPacket_def ReadValue_def)
qed

lemma kv_handler_unknown_op_witness:
  "KvRequestHandler_HandleReadCompletion mem_db [] [1, 0, 0, 0, 4] [] = Inl NullDeref"
  by (rule kv_handler_unknown_op) (simp_all add: byte_op_def)

section \<open>KvWorker\<close>

text \<open>How one round of the loop of \<^verbatim>\<open>KvWorker::HandleClient\<close> ends: with another round,
  with the return of the thread's function, or not at all.\<close>

datatype round = Again | Finished | Halted halt

text \<open>One round. The responses are built without a buffer, as the source calls the
  constructors; the database and the socket are what they are when the round ends.\<close>

definition KvWorker_round ::
  "'d rocksdb \<Rightarrow> 'd \<Rightarrow> socket \<Rightarrow> round \<times> 'd \<times> socket" where
  "KvWorker_round ops d s =
     (case ReadFromClient s of
        Inl h \<Rightarrow> (Halted h, d, s)
      | Inr (packet, s) \<Rightarrow>
          if err (so_status packet) then (Finished, d, s)
          else if eof (so_status packet) then (Finished, d, s)
          else case so_deref packet of
            Inl h \<Rightarrow> (Halted h, d, s)
          | Inr p \<Rightarrow>
              let (r, d) = kv_execute ops d p in
              case response_new r None of
                Inl h \<Rightarrow> (Halted h, d, s)
              | Inr (resp, _) \<Rightarrow>
                  case SendPacket (response_base resp) s of
                    Inl h \<Rightarrow> (Halted h, d, s)
                  | Inr (net_status, s) \<Rightarrow>
                      if err net_status then (Finished, d, s) else (Again, d, s))"

text \<open>The loop \<^verbatim>\<open>while (!err)\<close>.\<close>

lemma KvWorker_round_no_again: "fst (KvWorker_round ops d s) \<noteq> Again"
  by (auto simp: KvWorker_round_def response_new_null Let_def split: sum.splits prod.splits if_splits)

function KvWorker_HandleClient ::
  "'d rocksdb \<Rightarrow> 'd \<Rightarrow> socket \<Rightarrow> round \<times> 'd \<times> socket" where
  "KvWorker_HandleClient ops d s =
     (case KvWorker_round ops d s of
        (Again, d, s) \<Rightarrow> KvWorker_HandleClient ops d s
      | (e, d, s) \<Rightarrow> (e, d, s))"
  by pat_completeness auto
termination
  by (relation "measure (\<lambda>(ops, d, s). length (stream s))")
    (use KvWorker_round_no_again in \<open>simp, metis fst_conv\<close>)

declare KvWorker_HandleClient.simps [simp del]

text \<open>A worker of the shard server executes the command it reads on the database, as the
  specification says, and is then lost: the response is built without a buffer, so building it
  writes through the null pointer and ends the whole server process. Nothing is ever sent. A
  connection that the peer closes first ends the thread without touching the database.\<close>

lemma KvWorker_executes_then_halts:
  assumes "rocksdb_contract ops I M" and "I d" and "is_open s"
  shows "(inq s = Hangup # q \<longrightarrow> KvWorker_HandleClient ops d s = (Finished, d, s)) \<and>
    (wf_command c \<and> inq s = map Segment (packet_chunks (encode_command c)) @ q \<longrightarrow>
      (\<exists>r d'. kv_spec (M d) c r (M d') \<and>
        KvWorker_HandleClient ops d s = (Halted NullDeref, d', s\<lparr>inq := q\<rparr>)))"
proof (intro conjI impI)
  assume "inq s = Hangup # q"
  then have "ReadFromClient s = Inr (StatusOr_status Status_Eof, s)"
    using assms(3) by (simp add: ReadFromClient_def ReadWholePacket_def read_loop_unfold sys_read_def)
  then show "KvWorker_HandleClient ops d s = (Finished, d, s)"
    by (subst KvWorker_HandleClient.simps) (simp add: KvWorker_round_def)
next
  assume c: "wf_command c \<and> inq s = map Segment (packet_chunks (encode_command c)) @ q"
  let ?p = "command_object (received_packet c) c"
  have rd: "ReadFromClient s = Inr (StatusOr_ptr (Some ?p), s\<lparr>inq := q\<rparr>)"
    using c assms(3) by (intro ReadFromClient_object) simp_all
  obtain r d' where "kv_execute ops d ?p = (r, d')" "kv_spec (M d) c r (M d')" "I d'"
    using kv_spec_run [OF assms(1,2)] by blast
  then show "\<exists>r d'. kv_spec (M d) c r (M d') \<and>
      KvWorker_HandleClient ops d s = (Halted NullDeref, d', s\<lparr>inq := q\<rparr>)"
    by (intro exI [of _ r] exI [of _ d'], subst KvWorker_HandleClient.simps)
      (simp add: KvWorker_round_def rd response_new_null)
qed

lemma KvWorker_executes_then_halts_witness:
  "\<exists>r d'. kv_spec Map.empty (Put [107] [118]) r (map_of d') \<and>
     KvWorker_HandleClient mem_db []
       (fresh_socket\<lparr>inq := map Segment (packet_chunks (encode_command (Put [107] [118]))) @ []\<rparr>) =
     (Halted NullDeref, d', fresh_socket\<lparr>inq := []\<rparr>)"
  using KvWorker_executes_then_halts [OF mem_db_contract mem_good_Nil, of
      "fresh_socket\<lparr>inq := map Segment (packet_chunks (encode_command (Put [107] [118]))) @ []\<rparr>"
      "[]" "Put [107] [118]"]
  by (simp add: wf_command_def)

end
