(* ===== verification/Sqpkv_Prefix.thy ===== *)
theory Sqpkv_Prefix
  imports Sqpkv_Store
begin

text \<open>
  \<^verbatim>\<open>TablePrefixTransform\<close> (\<^verbatim>\<open>src/server/table_prefix_transform.cc\<close>): the prefix
  extractor the launcher installs in RocksDB, what RocksDB requires of one, and what the prefix
  scan of a \<^verbatim>\<open>GetAll\<close> may rely on.
\<close>

section \<open>The transform\<close>

text \<open>The character \<^verbatim>\<open>_\<close>.\<close>

definition underscore :: byte where
  "underscore = 95"

function Transform_loop :: "bytes \<Rightarrow> nat \<Rightarrow> bytes result" where
  "Transform_loop key i =
     (if i < length key then
        (if key ! i = underscore then Inr (take (i + 1) key) else Transform_loop key (i + 1))
      else Inl MissingReturn)"
  by pat_completeness auto
termination
  by (relation "measure (\<lambda>(key, i). length key - i)") auto

declare Transform_loop.simps [simp del]

definition Transform :: "bytes \<Rightarrow> bytes result" where
  "Transform key = Transform_loop key 0"

function InDomain_loop :: "bytes \<Rightarrow> nat \<Rightarrow> bool" where
  "InDomain_loop key i =
     (if i < length key then
        (if key ! i = underscore then True else InDomain_loop key (i + 1))
      else False)"
  by pat_completeness auto
termination
  by (relation "measure (\<lambda>(key, i). length key - i)") auto

declare InDomain_loop.simps [simp del]

definition InDomain :: "bytes \<Rightarrow> bool" where
  "InDomain key = InDomain_loop key 0"

text \<open>The object that the launcher makes and RocksDB calls: a \<^verbatim>\<open>rocksdb::SliceTransform\<close> is its
  virtual functions.\<close>

record slice_transform =
  st_name :: bytes
  st_transform :: "bytes \<Rightarrow> bytes result"
  st_in_domain :: "bytes \<Rightarrow> bool"

definition TablePrefixTransform_Name :: bytes where
  "TablePrefixTransform_Name = bytes_of ''TablePrefixTransform''"

definition NewTablePrefixTransform :: slice_transform where
  "NewTablePrefixTransform =
     \<lparr>st_name = TablePrefixTransform_Name, st_transform = Transform, st_in_domain = InDomain\<rparr>"

text \<open>The table of a key: everything up to and with the first underscore.\<close>

definition table_of :: "bytes \<Rightarrow> bytes" where
  "table_of key = takeWhile (\<lambda>b. b \<noteq> underscore) key @ [underscore]"

lemma InDomain_loop_iff: "InDomain_loop key i \<longleftrightarrow> underscore \<in> set (drop i key)"
proof (induction key i rule: InDomain_loop.induct)
  case (1 key i)
  then show ?case
    using Cons_nth_drop_Suc [of i key]
    by (subst InDomain_loop.simps) (auto simp flip: Cons_nth_drop_Suc)
qed

lemma InDomain_iff: "InDomain key \<longleftrightarrow> underscore \<in> set key"
  by (simp add: InDomain_def InDomain_loop_iff)

lemma Transform_loop_eq:
  "underscore \<notin> set (take i key) \<Longrightarrow>
   Transform_loop key i =
     (if underscore \<in> set key then Inr (table_of key) else Inl MissingReturn)"
proof (induction key i rule: Transform_loop.induct)
  case (1 key i)
  show ?case
  proof (cases "i < length key")
    case False
    then show ?thesis using "1.prems" by (subst Transform_loop.simps) simp
  next
    case True
    show ?thesis
    proof (cases "key ! i = underscore")
      case found: True
      have key: "key = take i key @ underscore # drop (Suc i) key"
        using True found by (simp add: id_take_nth_drop [symmetric] flip: found)
      have "takeWhile (\<lambda>b. b \<noteq> underscore) key = take i key"
        using "1.prems" by (subst key, subst takeWhile_append2) auto
      moreover have "take (Suc i) key = take i key @ [underscore]"
        using True found by (simp add: take_Suc_conv_app_nth)
      moreover have "underscore \<in> set key" using True found by (metis nth_mem)
      ultimately show ?thesis
        using True found by (subst Transform_loop.simps) (simp add: table_of_def)
    next
      case False
      have "underscore \<notin> set (take (i + 1) key)"
        using "1.prems" True False by (simp add: take_Suc_conv_app_nth)
      then show ?thesis
        using "1.IH" [OF True False] True False by (subst Transform_loop.simps) simp
    qed
  qed
qed

lemma Transform_eq:
  "Transform key = (if InDomain key then Inr (table_of key) else Inl MissingReturn)"
  by (simp add: Transform_def Transform_loop_eq InDomain_iff)

text \<open>A key is in the domain exactly when it contains an underscore; then the transform
  returns everything up to and with the first one. For a key outside the domain the function
  runs off its end without a value.\<close>

lemma Transform_first_underscore:
  "InDomain key = (underscore \<in> set key) \<and>
   (\<forall>t rest. key = t @ underscore # rest \<and> underscore \<notin> set t \<longrightarrow>
      Transform key = Inr (t @ [underscore])) \<and>
   (\<not> InDomain key \<longrightarrow> Transform key = Inl MissingReturn)"
  by (auto simp: Transform_eq InDomain_iff table_of_def takeWhile_append)

lemma Transform_first_underscore_witness:
  "Transform [117, 115, 95, 49, 95, 50] = Inr [117, 115, 95]"
  using Transform_first_underscore [of "[117, 115, 95, 49, 95, 50]", THEN conjunct2, THEN conjunct1,
      rule_format, of "[117, 115]" "[49, 95, 50]"]
  by (simp add: underscore_def)

section \<open>What RocksDB requires of a prefix extractor\<close>

text \<open>
  The requirements documented in RocksDB: the prefix is a prefix of the key, it is its own
  prefix, and prefixes are ordered as the keys are. \<open>extends\<close> is what a prefix scan needs:
  all keys that start with a key of the domain share its extracted prefix.
\<close>

locale prefix_extractor =
  fixes in_domain :: "bytes \<Rightarrow> bool"
    and transform :: "bytes \<Rightarrow> bytes result"
  assumes total: "in_domain k \<Longrightarrow> \<exists>p. transform k = Inr p \<and> in_domain p"
    and starts_with: "transform k = Inr p \<Longrightarrow> in_domain k \<and> prefix p k"
    and extends: "in_domain q \<Longrightarrow> prefix q k \<Longrightarrow> in_domain k \<and> transform k = transform q"
    and monotone: "transform k = Inr p \<Longrightarrow> transform l = Inr q \<Longrightarrow> k \<le> l \<Longrightarrow> p \<le> q"
begin

lemma prefix_in_domain:
  assumes "transform k = Inr p"
  shows "in_domain p"
proof -
  have "in_domain k" using starts_with [OF assms] by (rule conjunct1)
  from total [OF this] obtain p' where p': "transform k = Inr p'" "in_domain p'" by blast
  have "p' = p" using p'(1) assms by (metis sum.inject(2))
  with p'(2) show ?thesis by (rule subst [rotated])
qed

lemma idempotent:
  assumes "transform k = Inr p"
  shows "transform p = Inr p"
  using extends [OF prefix_in_domain [OF assms]] starts_with [OF assms] assms by metis

lemma contiguous:
  assumes "transform k = Inr p" and "transform l = Inr p" and "k \<le> x" and "x \<le> l"
  shows "transform x = Inr p"
proof -
  obtain z where z: "l = p @ z" using starts_with [OF assms(2)] by (auto elim: prefixE)
  have "p \<le> k" using starts_with [OF assms(1)] by (auto intro: prefix_le)
  then have "prefix p x" using assms(3,4) z by (intro prefix_between [of p x z]) auto
  then show ?thesis
    using extends [OF prefix_in_domain [OF assms(1)]] idempotent [OF assms(1)] by metis
qed

lemma scan_one_bucket:
  assumes "in_domain q" and "k \<in> set (scan_keys q ks)"
  shows "transform k = transform q"
proof -
  have "prefix q k" using assms(2) by (induction ks) (auto split: if_splits)
  then show ?thesis using extends assms(1) by blast
qed

end

lemma table_of_append:
  "underscore \<in> set q \<Longrightarrow> table_of (q @ z) = table_of q"
  by (auto simp: table_of_def takeWhile_append)

lemma table_of_split:
  assumes "underscore \<in> set k"
  obtains t r where "k = t @ underscore # r" and "underscore \<notin> set t"
    and "table_of k = t @ [underscore]"
proof -
  from split_list_first [OF assms] obtain t r
    where "k = t @ underscore # r" "underscore \<notin> set t" by blast
  then show thesis using that by (auto simp: table_of_def takeWhile_append)
qed

text \<open>Two keys in order have their tables in order: their tables can only differ before the first
  underscore of either.\<close>

lemma table_of_mono_aux:
  "underscore \<notin> set s \<Longrightarrow> underscore \<notin> set t \<Longrightarrow>
   s @ underscore # x \<le> t @ underscore # y \<Longrightarrow> s @ [underscore] \<le> t @ [underscore]"
proof (induction s arbitrary: t)
  case Nil
  then show ?case by (cases t) auto
next
  case (Cons a s)
  then show ?case by (cases t) auto
qed

lemma table_of_mono:
  "underscore \<in> set k \<Longrightarrow> underscore \<in> set l \<Longrightarrow> k \<le> l \<Longrightarrow> table_of k \<le> table_of l"
  by (elim table_of_split) (auto intro: table_of_mono_aux)

interpretation tables: prefix_extractor InDomain Transform
proof unfold_locales
  fix k p q l :: bytes
  show "InDomain k \<Longrightarrow> \<exists>p. Transform k = Inr p \<and> InDomain p"
    by (simp add: Transform_eq InDomain_iff table_of_def)
  show "Transform k = Inr p \<Longrightarrow> InDomain k \<and> prefix p k"
    by (auto simp: Transform_eq InDomain_iff split: if_splits elim!: table_of_split)
  show "InDomain q \<Longrightarrow> prefix q k \<Longrightarrow> InDomain k \<and> Transform k = Transform q"
    by (auto simp: Transform_eq InDomain_iff table_of_append elim!: prefixE)
  show "Transform k = Inr p \<Longrightarrow> Transform l = Inr q \<Longrightarrow> k \<le> l \<Longrightarrow> p \<le> q"
    by (auto simp: Transform_eq InDomain_iff table_of_mono split: if_splits)
qed

text \<open>C40: The transform meets RocksDB's requirements on a prefix extractor: the extracted prefix
  is a prefix of the key and its own prefix, and it respects the bytewise order; so in the order
  of the store the keys of one table are consecutive.\<close>

theorem Transform_prefix_extractor:
  assumes "Transform k = Inr p" and "Transform l = Inr q" and "k \<le> l"
  shows "prefix p k \<and> Transform p = Inr p \<and> p \<le> q \<and>
     (p = q \<longrightarrow> (\<forall>x. k \<le> x \<and> x \<le> l \<longrightarrow> Transform x = Inr p))"
  using assms tables.starts_with tables.idempotent tables.monotone tables.contiguous by blast

lemma Transform_prefix_extractor_witness:
  "Transform [97, 95, 53] = Inr [97, 95]"
proof -
  have t: "Transform [97, 95, 49] = Inr [97, 95]" "Transform [97, 95, 57] = Inr [97, 95]"
    by (simp_all add: Transform_eq InDomain_iff table_of_def underscore_def)
  show ?thesis using Transform_prefix_extractor [OF t] by simp
qed

text \<open>C22: A prefix scan for a prefix that names a table (contains an underscore) only returns keys
  of that table, so it stays in one bucket of the prefix extractor.\<close>

theorem GetAll_one_table:
  assumes "InDomain q" and "kv_execute ops d (GetAllPacket pk q) = (RGetAll st ks, d')"
    and "k \<in> set ks"
  shows "Transform k = Transform q \<and> prefix q k"
proof -
  have ks: "ks = scan_keys q (db_seek ops d q)" using assms(2) by auto
  have "prefix q k" if "k \<in> set (scan_keys q l)" for l
    using that by (induction l) (auto split: if_splits)
  then show ?thesis using tables.scan_one_bucket [OF assms(1)] assms(3) ks by blast
qed

lemma GetAll_one_table_witness:
  "Transform [97, 95, 49] = Transform [97, 95]"
proof -
  have e: "kv_execute mem_db [([97, 95, 49], [1]), ([98], [2])] (GetAllPacket pk [97, 95]) =
      (RGetAll Status_Ok [[97, 95, 49]], [([97, 95, 49], [1]), ([98], [2])])" for pk
    by (simp add: mem_db_def mem_seek_def)
  show ?thesis
    using GetAll_one_table [OF _ e, of "[97, 95, 49]"] by (simp add: InDomain_iff underscore_def)
qed

end
