(* ===== verification/Sqpkv_Sharding.thy ===== *)
theory Sqpkv_Sharding
  imports Sqpkv_Prefix "HOL-Library.Signed_Division"
begin

text \<open>
  The sharding policy (\<^verbatim>\<open>src/server/sharding_policy.cc\<close>): the numeric id behind the first
  underscore of a key, and its remainder by the number of shard servers; with the library
  functions it uses, \<^verbatim>\<open>std::stoul\<close> and \<^verbatim>\<open>std::to_string\<close>.
\<close>

section \<open>Numbers in text\<close>

definition is_digit :: "byte \<Rightarrow> bool" where
  "is_digit b \<longleftrightarrow> 48 \<le> b \<and> b \<le> 57"

definition is_space :: "byte \<Rightarrow> bool" where
  "is_space b \<longleftrightarrow> b = 32 \<or> 9 \<le> b \<and> b \<le> 13"

fun digits_value :: "nat \<Rightarrow> bytes \<Rightarrow> nat" where
  "digits_value acc [] = acc"
| "digits_value acc (b # bs) =
     (if is_digit b then digits_value (10 * acc + (unat b - 48)) bs else acc)"

text \<open>The optional sign that \<^verbatim>\<open>strtoul\<close> accepts: whether the number is negated, and the
  rest.\<close>

definition split_sign :: "bytes \<Rightarrow> bool \<times> bytes" where
  "split_sign bs =
     (case bs of [] \<Rightarrow> (False, [])
      | b # r \<Rightarrow> if b = 45 then (True, r) else if b = 43 then (False, r) else (False, b # r))"

text \<open>\<^verbatim>\<open>std::stoul\<close> in base 10: leading white space, an optional sign, digits; what follows
  the digits is ignored. It throws when there is no digit and when the digits exceed 64 bits; a
  minus sign negates in unsigned arithmetic.\<close>

definition stoul :: "bytes \<Rightarrow> 64 word result" where
  "stoul bs =
     (let (neg, ds) = split_sign (dropWhile is_space bs) in
      if ds = [] \<or> \<not> is_digit (hd ds) then Inl InvalidArgument
      else let v = digits_value 0 ds in
        if 18446744073709551616 \<le> v then Inl OutOfRange
        else Inr (if neg then - of_nat v else of_nat v))"

text \<open>\<^verbatim>\<open>std::to_string\<close> of a number that is not negative.\<close>

fun to_string :: "nat \<Rightarrow> bytes" where
  "to_string n =
     (if n < 10 then [48 + of_nat n] else to_string (n div 10) @ [48 + of_nat (n mod 10)])"

declare to_string.simps [simp del]

lemma digit_of_nat:
  assumes "n < 10"
  shows "is_digit (48 + of_nat n)" and "unat (48 + of_nat n :: byte) = 48 + n"
proof -
  have "(48 + of_nat n :: byte) = of_nat (48 + n)" by simp
  then show u: "unat (48 + of_nat n :: byte) = 48 + n"
    using assms unat_of_nat [of "48 + n", where 'a = 8] by simp
  show "is_digit (48 + of_nat n)"
    using assms u by (simp add: is_digit_def word_le_nat_alt)
qed

lemma digits_value_to_string:
  "digits_value 0 (to_string n @ r) = digits_value n r"
proof (induction n arbitrary: r rule: to_string.induct)
  case (1 n)
  show ?case
  proof (cases "n < 10")
    case True
    then show ?thesis by (subst to_string.simps) (simp add: digit_of_nat)
  next
    case False
    then show ?thesis
      using "1.IH" [OF False, of "(48 + of_nat (n mod 10)) # r"]
      by (subst to_string.simps) (simp add: digit_of_nat)
  qed
qed

lemma to_string_head: "\<exists>b bs. to_string n = b # bs \<and> is_digit b"
proof (induction n rule: to_string.induct)
  case (1 n)
  then show ?case by (subst to_string.simps) (auto simp: digit_of_nat)
qed

lemma digits_value_stop: "r = [] \<or> \<not> is_digit (hd r) \<Longrightarrow> digits_value n r = n"
  by (cases r) auto

lemma digit_no_space: "is_digit b \<Longrightarrow> \<not> is_space b \<and> b \<noteq> 45 \<and> b \<noteq> 43"
  by (auto simp: is_digit_def is_space_def word_le_nat_alt)

lemma stoul_to_string:
  assumes "n < 18446744073709551616" and "r = [] \<or> \<not> is_digit (hd r)"
  shows "stoul (to_string n @ r) = Inr (of_nat n)"
proof -
  obtain b bs where b: "to_string n = b # bs" "is_digit b" using to_string_head by blast
  then have "split_sign (dropWhile is_space (to_string n @ r)) = (False, to_string n @ r)"
    using digit_no_space [OF b(2)] by (simp add: split_sign_def)
  then show ?thesis
    using assms b digits_value_to_string [of n r] digits_value_stop [of r n]
    by (simp add: stoul_def)
qed

lemma stoul_overflow:
  assumes "18446744073709551616 \<le> n" and "r = [] \<or> \<not> is_digit (hd r)"
  shows "stoul (to_string n @ r) = Inl OutOfRange"
proof -
  obtain b bs where b: "to_string n = b # bs" "is_digit b" using to_string_head by blast
  then have "split_sign (dropWhile is_space (to_string n @ r)) = (False, to_string n @ r)"
    using digit_no_space [OF b(2)] by (simp add: split_sign_def)
  then show ?thesis
    using assms b digits_value_to_string [of n r] digits_value_stop [of r n]
    by (simp add: stoul_def)
qed

section \<open>The policy\<close>

text \<open>The loop \<^verbatim>\<open>while (key[id_start++] != '_')\<close>: no check against the size of the key.\<close>

function id_start :: "bytes \<Rightarrow> nat \<Rightarrow> nat result" where
  "id_start key i =
     (if i < length key then
        (if key ! i \<noteq> underscore then id_start key (i + 1) else Inr (i + 1))
      else Inl OutOfBounds)"
  by pat_completeness auto
termination
  by (relation "measure (\<lambda>(key, i). length key - i)") auto

declare id_start.simps [simp del]

text \<open>The \<^verbatim>\<open>unsigned long\<close> is returned as an \<^verbatim>\<open>int\<close>: its low 32 bits, read as signed.\<close>

definition ExtractKey :: "bytes \<Rightarrow> int result" where
  "ExtractKey key =
     bindR (id_start key 0) (\<lambda>i.
     bindR (stoul (drop i key)) (\<lambda>u. Inr (sint (ucast u :: 32 word))))"

text \<open>\<^verbatim>\<open>id % num_nodes_\<close>: the remainder has the sign of the id.\<close>

definition GetShardId :: "int \<Rightarrow> bytes \<Rightarrow> int result" where
  "GetShardId num_nodes key =
     bindR (ExtractKey key) (\<lambda>i.
     if num_nodes = 0 then Inl DivideByZero else Inr (i smod num_nodes))"

lemma id_start_eq:
  "underscore \<notin> set (take i key) \<Longrightarrow>
   id_start key i =
     (if underscore \<in> set key then Inr (length (table_of key)) else Inl OutOfBounds)"
proof (induction key i rule: id_start.induct)
  case (1 key i)
  show ?case
  proof (cases "i < length key")
    case False
    then show ?thesis using "1.prems" by (subst id_start.simps) simp
  next
    case True
    show ?thesis
    proof (cases "key ! i = underscore")
      case found: True
      have mem: "underscore \<in> set key" using True found by (metis nth_mem)
      then obtain t r where key: "key = t @ underscore # r" "underscore \<notin> set t"
          "table_of key = t @ [underscore]"
        by (rule table_of_split)
      have "i = length t"
      proof (rule ccontr)
        assume "i \<noteq> length t"
        then consider "i < length t" | "length t < i" by linarith
        then show False
          using found key "1.prems" by cases (auto simp: nth_append take_Cons' dest: nth_mem)
      qed
      then show ?thesis using True found mem key(3) by (subst id_start.simps) simp
    next
      case False
      have "underscore \<notin> set (take (i + 1) key)"
        using "1.prems" True False by (simp add: take_Suc_conv_app_nth)
      then show ?thesis
        using "1.IH" [OF True False] True False by (subst id_start.simps) simp
    qed
  qed
qed

lemma ExtractKey_eq:
  assumes "underscore \<notin> set t"
  shows "ExtractKey (t @ underscore # r) = bindR (stoul r) (\<lambda>u. Inr (sint (ucast u :: 32 word)))"
proof -
  have "table_of (t @ underscore # r) = t @ [underscore]"
    using assms by (auto simp: table_of_def takeWhile_append)
  then show ?thesis
    using id_start_eq [of 0 "t @ underscore # r"] by (simp add: ExtractKey_def)
qed

lemma smod_bound: "0 < n \<Longrightarrow> \<bar>(i :: int) smod n\<bar> < n"
  using smod_int_compares [of i n] smod_int_compares(3,4) [of i n] by (cases "0 \<le> i") auto

text \<open>What the proxy needs of a policy: a shard number is a remainder by the number of servers,
  and without servers there is none.\<close>

locale sharding_policy =
  fixes shard :: "int \<Rightarrow> bytes \<Rightarrow> int result"
  assumes in_range: "0 < n \<Longrightarrow> shard n k = Inr i \<Longrightarrow> \<bar>i\<bar> < n"
    and no_nodes: "shard 0 k \<noteq> Inr i"

text \<open>\<^verbatim>\<open>shard_servers_[shard_id - 1]\<close>: the index is converted to an unsigned size.\<close>

definition server_at :: "int list \<Rightarrow> int \<Rightarrow> int result" where
  "server_at servers shard_id =
     (if 1 \<le> shard_id \<and> nat (shard_id - 1) < length servers
      then Inr (servers ! nat (shard_id - 1)) else Inl OutOfBounds)"

context sharding_policy
begin

lemma server_at_shard:
  assumes "shard (int (length servers)) k = Inr i"
  shows "server_at servers i =
    (if 0 < i then Inr (butlast servers ! nat (i - 1)) else Inl OutOfBounds)"
proof (cases "0 < i")
  case True
  have "servers \<noteq> []" using assms no_nodes [of k i] by auto
  then have "\<bar>i\<bar> < int (length servers)" using in_range [OF _ assms] by simp
  then have "nat (i - 1) < length (butlast servers)" using True by simp
  then show ?thesis using True by (simp add: server_at_def nth_butlast)
qed (simp add: server_at_def)

lemma server_not_last:
  assumes "shard (int (length servers)) k = Inr i" and "server_at servers i = Inr fd"
  shows "fd \<in> set (butlast servers)"
proof -
  have "0 < i" using assms(2) by (simp add: server_at_def split: if_splits)
  moreover have "servers \<noteq> []" using assms(1) no_nodes [of k i] by auto
  then have "\<bar>i\<bar> < int (length servers)" using in_range [OF _ assms(1)] by simp
  ultimately have "nat (i - 1) < length (butlast servers)" by simp
  then show ?thesis using server_at_shard [OF assms(1)] assms(2) \<open>0 < i\<close> by auto
qed

end

interpretation round_robin: sharding_policy GetShardId
proof unfold_locales
  fix n i :: int and k
  show "0 < n \<Longrightarrow> GetShardId n k = Inr i \<Longrightarrow> \<bar>i\<bar> < n"
    by (auto simp: GetShardId_def result_simps smod_bound split: if_splits)
  show "GetShardId 0 k \<noteq> Inr i"
    by (simp add: GetShardId_def result_simps)
qed

lemma sint_small:
  assumes "n < 2147483648"
  shows "sint (ucast (of_nat n :: 64 word) :: 32 word) = int n"
proof -
  have "(ucast (of_nat n :: 64 word) :: 32 word) = of_nat n"
    by (rule bit_word_eqI) (use assms in \<open>auto simp: bit_simps\<close>)
  moreover have "sint (word_of_int (int n) :: 32 word) = int n"
    using assms by (subst sint_sbintrunc') (simp add: signed_take_bit_int_eq_self)
  ultimately show ?thesis by simp
qed

lemma ExtractKey_to_string:
  assumes "underscore \<notin> set t" and "n < 2147483648" and "r = [] \<or> \<not> is_digit (hd r)"
  shows "ExtractKey (t @ underscore # to_string n @ r) = Inr (int n)"
  using ExtractKey_eq [OF assms(1), of "to_string n @ r"] stoul_to_string [of n r]
    sint_small [OF assms(2)] assms by simp

text \<open>An \<^verbatim>\<open>unsigned long\<close> read as an \<^verbatim>\<open>int\<close>: its remainder in the range of 32 signed bits.\<close>

definition as_int :: "nat \<Rightarrow> int" where
  "as_int n = (int n + 2147483648) mod 4294967296 - 2147483648"

lemma sint_as_int:
  assumes "n < 18446744073709551616"
  shows "sint (ucast (of_nat n :: 64 word) :: 32 word) = as_int n"
proof -
  have "uint (of_nat n :: 64 word) = int n"
    using assms by (simp add: unsigned_of_nat take_bit_nat_eq_self)
  then have "uint (ucast (of_nat n :: 64 word) :: 32 word) = int n mod 4294967296"
    by (simp add: unsigned_ucast_eq take_bit_eq_mod)
  then show ?thesis
    by (simp add: sint_uint signed_take_bit_eq_take_bit_shift take_bit_eq_mod as_int_def mod_add_left_eq)
qed

lemma as_int_small: "n < 2147483648 \<Longrightarrow> as_int n = int n"
  by (simp add: as_int_def)

lemma as_int_high:
  assumes "2147483648 \<le> n mod 4294967296"
  shows "as_int n \<le> 0"
proof -
  let ?x = "int (n mod 4294967296)"
  have x: "2147483648 \<le> ?x" "?x < 4294967296" using assms by linarith+
  have "(int n + 2147483648) mod 4294967296 = (?x + 2147483648) mod 4294967296"
    by (simp add: zmod_int mod_add_left_eq)
  also have "\<dots> = (?x + 2147483648 - 4294967296) mod 4294967296" by (simp only: minus_mod_self2)
  also have "\<dots> = ?x + 2147483648 - 4294967296" using x by (intro mod_pos_pos_trivial) linarith+
  finally show ?thesis using x by (simp add: as_int_def)
qed

lemma smod_signs:
  assumes "0 < (num :: int)"
  shows "0 \<le> i \<Longrightarrow> i smod num = i mod num" and "i \<le> 0 \<Longrightarrow> i smod num \<le> 0"
  using assms by (auto simp: smod_int_alt_def sgn_if)

text \<open>C21: The shard of a key \<open>table_id\<close>, whatever the table is called (without an underscore in its
  name) and whatever follows the digits of the id: the id becomes an \<^verbatim>\<open>int\<close>, which keeps
  its low 32 bits and reads them as signed, and the shard is the remainder of that by the number
  of servers, with the sign of the dividend. So it is the id modulo the number of servers for
  ids below two to the power of 31; it is zero or negative, a shard that no server has, for ids whose low
  32 bits are at least two to the power of 31; and an id that does not fit 64 bits is an
  exception.\<close>

theorem GetShardId_round_robin:
  assumes "underscore \<notin> set t" and "r = [] \<or> \<not> is_digit (hd r)" and "0 < num"
  shows "(n < 18446744073709551616 \<longrightarrow>
      GetShardId num (t @ underscore # to_string n @ r) = Inr (as_int n smod num)) \<and>
    (n < 2147483648 \<longrightarrow> GetShardId num (t @ underscore # to_string n @ r) = Inr (int n mod num)) \<and>
    (n < 18446744073709551616 \<and> 2147483648 \<le> n mod 4294967296 \<longrightarrow>
      (\<exists>i \<le> 0. GetShardId num (t @ underscore # to_string n @ r) = Inr i)) \<and>
    (18446744073709551616 \<le> n \<longrightarrow> GetShardId num (t @ underscore # to_string n @ r) = Inl OutOfRange)"
proof -
  have *: "GetShardId num (t @ underscore # to_string n @ r) = Inr (as_int n smod num)"
    if "n < 18446744073709551616"
    using ExtractKey_eq [OF assms(1), of "to_string n @ r"] stoul_to_string [OF that assms(2)]
      sint_as_int [OF that] assms(3) by (simp add: GetShardId_def)
  moreover have "as_int n smod num = int n mod num" if "n < 2147483648"
    using smod_signs(1) [OF assms(3), of "int n"] as_int_small [OF that] by simp
  moreover have "as_int n smod num \<le> 0" if "2147483648 \<le> n mod 4294967296"
    using smod_signs(2) [OF assms(3)] as_int_high [OF that] by simp
  moreover have "GetShardId num (t @ underscore # to_string n @ r) = Inl OutOfRange"
    if "18446744073709551616 \<le> n"
    using ExtractKey_eq [OF assms(1), of "to_string n @ r"] stoul_overflow [OF that assms(2)]
    by (simp add: GetShardId_def)
  ultimately show ?thesis by auto
qed

lemma GetShardId_round_robin_witness:
  "GetShardId 3 ([117] @ underscore # to_string 17 @ [95, 50]) = Inr 2"
  using GetShardId_round_robin [of "[117]" "[95, 50]" 3 17]
  by (simp add: underscore_def is_digit_def as_int_def smod_int_alt_def)

text \<open>The cases in which the policy does not return: the scan for the underscore runs past the
  end of a key without one; text that starts with neither digits nor a sign and digits throws;
  with no servers the remainder is a division by zero. Ids from two to the power of 31 on come
  out negative, and so does the shard.\<close>

lemma GetShardId_halts:
  "(underscore \<notin> set key \<longrightarrow> GetShardId num key = Inl OutOfBounds) \<and>
   (underscore \<notin> set t \<and> b \<notin> {43, 45} \<and> \<not> is_digit b \<and> \<not> is_space b \<longrightarrow>
      GetShardId num (t @ underscore # b # r) = Inl InvalidArgument) \<and>
   (underscore \<notin> set t \<and> n < 2147483648 \<longrightarrow>
      GetShardId 0 (t @ underscore # to_string n) = Inl DivideByZero) \<and>
   (underscore \<notin> set t \<longrightarrow> GetShardId 2 (t @ underscore # to_string 4294967295) = Inr (-1))"
proof (intro conjI impI)
  assume "underscore \<notin> set key"
  then show "GetShardId num key = Inl OutOfBounds"
    using id_start_eq [of 0 key] by (simp add: GetShardId_def ExtractKey_def)
next
  assume "underscore \<notin> set t \<and> b \<notin> {43, 45} \<and> \<not> is_digit b \<and> \<not> is_space b"
  then show "GetShardId num (t @ underscore # b # r) = Inl InvalidArgument"
    using ExtractKey_eq [of t "b # r"] by (simp add: GetShardId_def stoul_def split_sign_def)
next
  assume "underscore \<notin> set t \<and> n < 2147483648"
  then show "GetShardId 0 (t @ underscore # to_string n) = Inl DivideByZero"
    using ExtractKey_to_string [of t n "[]"] by (simp add: GetShardId_def)
next
  assume "underscore \<notin> set t"
  moreover have "sint (ucast (of_nat 4294967295 :: 64 word) :: 32 word) = -1" by simp
  ultimately show "GetShardId 2 (t @ underscore # to_string 4294967295) = Inr (-1)"
    using ExtractKey_eq [of t "to_string 4294967295"] stoul_to_string [of 4294967295 "[]"]
    by (simp add: GetShardId_def smod_int_alt_def)
qed

lemma GetShardId_halts_witness:
  "GetShardId 4 [115, 104, 97, 114, 100, 95, 105, 100] = Inl InvalidArgument"
  using GetShardId_halts [of "[]" 4 "[115, 104, 97, 114, 100]" 105 "[100]" 0]
  by (simp add: underscore_def is_digit_def is_space_def)

end
