(* ===== verification/Sqpkv_Proxy.thy ===== *)
theory Sqpkv_Proxy
  imports Sqpkv_Kv Sqpkv_Sharding
begin

text \<open>
  The sharding proxy (\<^verbatim>\<open>src/server/sharding_proxy_worker.cc\<close>): connecting to the shard
  servers, dispatching a keyed command to one of them and forwarding its answer, and gathering
  the keys of all of them; with \<^verbatim>\<open>SockConnectTo\<close> (\<^verbatim>\<open>src/protocol/net_utils.cc\<close>).
\<close>

section \<open>Connecting\<close>

text \<open>What the operating system answers to one connection attempt: the descriptor of
  \<^verbatim>\<open>socket\<close>, the resolved address if there is one, and the result of
  \<^verbatim>\<open>connect\<close>.\<close>

record dial =
  dial_socket :: int
  dial_host :: "bytes option"
  dial_connect :: int

definition SockConnectTo :: "dial \<Rightarrow> int" where
  "SockConnectTo d =
     (if dial_socket d < 0 then -1
      else case dial_host d of
        None \<Rightarrow> -1
      | Some addr \<Rightarrow> if dial_connect d < 0 then -1 else dial_socket d)"

record proxy =
  clientfd :: int
  shard_servers :: "int list"
  num_nodes :: int

text \<open>The constructor sizes the policy by the servers it gets.\<close>

definition ShardingProxyWorker_new :: "int \<Rightarrow> int list \<Rightarrow> proxy" where
  "ShardingProxyWorker_new cfd fds =
     \<lparr>clientfd = cfd, shard_servers = fds, num_nodes = int (length fds)\<rparr>"

text \<open>The loop over the host names: the descriptors collected and whether it broke off. The test is
  the source's \<^verbatim>\<open>server_fd << 0\<close>.\<close>

fun connect_all ::
  "(nat \<Rightarrow> bytes \<Rightarrow> int \<Rightarrow> dial) \<Rightarrow> int \<Rightarrow> nat \<Rightarrow> bytes list \<Rightarrow> int list \<Rightarrow> int list \<times> bool" where
  "connect_all dials port i [] fds = (fds, False)"
| "connect_all dials port i (hostname # hostnames) fds =
     (let server_fd = SockConnectTo (dials i hostname port) in
      if push_bit 0 server_fd \<noteq> 0 then (fds, True)
      else connect_all dials port (i + 1) hostnames (fds @ [server_fd]))"

definition close_all :: "int list \<Rightarrow> net \<Rightarrow> net" where
  "close_all fds net = fold (\<lambda>fd net. net(fd := sys_close (net fd))) fds net"

definition CreateProxy ::
  "(nat \<Rightarrow> bytes \<Rightarrow> int \<Rightarrow> dial) \<Rightarrow> bytes \<Rightarrow> bytes list \<Rightarrow> int \<Rightarrow> int \<Rightarrow> net
     \<Rightarrow> proxy status_or \<times> net" where
  "CreateProxy dials errno hostnames port cfd net =
     (let (server_fds, failed) = connect_all dials port 0 hostnames [] in
      if failed then (StatusOr_status (Status_Err0 errno), close_all server_fds net)
      else (StatusOr_ptr (Some (ShardingProxyWorker_new cfd server_fds)), net))"

lemma connect_all_failed:
  "snd (connect_all dials port i hs fds) \<longleftrightarrow>
     (\<exists>j < length hs. SockConnectTo (dials (i + j) (hs ! j) port) \<noteq> 0)"
proof (induction hs arbitrary: i fds)
  case (Cons h hs)
  have "(\<exists>j < length (h # hs). SockConnectTo (dials (i + j) ((h # hs) ! j) port) \<noteq> 0) \<longleftrightarrow>
      SockConnectTo (dials i h port) \<noteq> 0 \<or>
      (\<exists>j < length hs. SockConnectTo (dials (Suc i + j) (hs ! j) port) \<noteq> 0)"
    by (subst length_Cons, subst Ex_less_Suc2) simp
  then show ?case using Cons.IH [of "Suc i"] by (simp add: Let_def)
qed simp

text \<open>The proxy treats every successful connection as a failure, as long as its descriptor is
  not zero, because the test shifts the descriptor by zero instead of comparing it: creating
  a proxy succeeds exactly when every single attempt yields descriptor zero. With a first
  server that is reached on a positive descriptor the result is an error, and the connection
  is left open.\<close>

lemma CreateProxy_ok_iff:
  "(ok (so_status (fst (CreateProxy dials errno hosts port cfd net))) \<longleftrightarrow>
      (\<forall>i < length hosts. SockConnectTo (dials i (hosts ! i) port) = 0)) \<and>
   (hosts \<noteq> [] \<and> 0 < SockConnectTo (dials 0 (hd hosts) port) \<longrightarrow>
      CreateProxy dials errno hosts port cfd net = (StatusOr_status (Status_Err0 errno), net))"
proof -
  obtain fds failed where c: "connect_all dials port 0 hosts [] = (fds, failed)"
    by (cases "connect_all dials port 0 hosts []") auto
  have first: "fds = []" if "hosts \<noteq> []" "0 < SockConnectTo (dials 0 (hd hosts) port)"
    using c that by (cases hosts) (auto simp: Let_def)
  show ?thesis
    using c connect_all_failed [of dials port 0 hosts "[]"] first
    by (auto simp: CreateProxy_def close_all_def hd_conv_nth split: if_splits)
qed

lemma CreateProxy_ok_iff_witness:
  "CreateProxy (\<lambda>_ _ _. \<lparr>dial_socket = 5, dial_host = Some [1], dial_connect = 0\<rparr>) [] [[104]] 4242 4
     (\<lambda>_. fresh_socket) = (StatusOr_status (Status_Err0 []), \<lambda>_. fresh_socket)"
  using CreateProxy_ok_iff [of "\<lambda>_ _ _. \<lparr>dial_socket = 5, dial_host = Some [1], dial_connect = 0\<rparr>"
      "[]" "[[104]]" 4242 4 "\<lambda>_. fresh_socket"]
  by (simp add: SockConnectTo_def)

section \<open>Dispatching and gathering\<close>

definition DispatchPacket ::
  "proxy \<Rightarrow> bytes \<Rightarrow> bytes \<Rightarrow> net \<Rightarrow> (status \<times> net) result" where
  "DispatchPacket p key data net =
     bindR (GetShardId (num_nodes p) key) (\<lambda>shard_id.
     bindR (server_at (shard_servers p) shard_id) (\<lambda>serverfd.
     bindR (SendPacket_data data (net serverfd)) (\<lambda>(st, s).
     let net = net(serverfd := s) in
     if err st then Inr (st, net) else ForwardPacket serverfd (clientfd p) net)))"

fun send_all :: "int list \<Rightarrow> bytes \<Rightarrow> net \<Rightarrow> (status \<times> net) result" where
  "send_all [] data net = Inr (Status_Ok, net)"
| "send_all (serverfd # fds) data net =
     bindR (SendPacket_data data (net serverfd)) (\<lambda>(st, s).
     let net = net(serverfd := s) in
     if \<not> ok st then Inr (st, net) else send_all fds data net)"

text \<open>The status of a shard's answer is not looked at; an answer of another class is read through
  the wrong pointer type.\<close>

fun gather :: "int list \<Rightarrow> bytes list \<Rightarrow> net \<Rightarrow> (status \<times> bytes list \<times> net) result" where
  "gather [] keys net = Inr (Status_Ok, keys, net)"
| "gather (serverfd # fds) keys net =
     bindR (ReadFromServer (net serverfd)) (\<lambda>(resp, s).
     let net = net(serverfd := s) in
     if \<not> ok (so_status resp) then Inr (so_status resp, keys, net)
     else bindR (so_deref resp) (\<lambda>r.
       case r of
         GetAllResponsePacket rp ks \<Rightarrow> gather fds (AddKeys ks keys) net
       | _ \<Rightarrow> Inl TypeConfusion))"

definition proxy_getall :: "proxy \<Rightarrow> bytes \<Rightarrow> net \<Rightarrow> (bool \<times> status \<times> net) result" where
  "proxy_getall p data net =
     bindR (send_all (shard_servers p) data net) (\<lambda>(st, net).
     if \<not> ok st then Inr (False, st, net)
     else bindR (gather (shard_servers p) [] net) (\<lambda>(st, keys, net).
       if \<not> ok st then Inr (False, st, net)
       else bindR (GetAllResponsePacket_new Status_Ok keys None) (\<lambda>(resp, _).
         bindR (SendPacket (response_base resp) (net (clientfd p))) (\<lambda>(st, s).
         Inr (ok st, st, net(clientfd p := s))))))"

text \<open>One round of \<^verbatim>\<open>HandleClient\<close>: whether the loop goes on, the status and the sockets.\<close>

definition ShardingProxyWorker_round :: "proxy \<Rightarrow> net \<Rightarrow> (bool \<times> status \<times> net) result" where
  "ShardingProxyWorker_round p net =
     bindR (ReadFromClient (net (clientfd p))) (\<lambda>(packet, s).
     let net = net(clientfd p := s) in
     if err (so_status packet) then Inr (False, Status_Ok, net)
     else if eof (so_status packet) then Inr (False, Status_Ok, net)
     else bindR (so_deref packet) (\<lambda>pk.
       bindR (ToBinary (command_base pk)) (\<lambda>data.
       case pk of
         GetPacket b key \<Rightarrow>
           bindR (DispatchPacket p key data net) (\<lambda>(st, net). Inr (ok st, st, net))
       | PutPacket b key value \<Rightarrow>
           bindR (DispatchPacket p key data net) (\<lambda>(st, net). Inr (ok st, st, net))
       | DeletePacket b key \<Rightarrow>
           bindR (DispatchPacket p key data net) (\<lambda>(st, net). Inr (ok st, st, net))
       | GetAllPacket b pre \<Rightarrow> proxy_getall p data net)))"

text \<open>\<^verbatim>\<open>std::thread::join\<close>: it throws when there is no thread to join, which nothing in the
  program catches, and waits until the function of the thread returns.\<close>

definition thread_join :: "bool \<Rightarrow> bool \<Rightarrow> bool result" where
  "thread_join joinable ends =
     (if \<not> joinable then Inl Terminated else if ends then Inr False else Inl Blocked)"

text \<open>\<^verbatim>\<open>Stop\<close>: the sockets are closed and forgotten, and the thread is joined. \<open>joinable\<close> is
  the state of \<^verbatim>\<open>thread_\<close>, and \<open>ends\<close> whether its function returns: closing a socket
  does not wake a thread that waits in a read of it.\<close>

definition ShardingProxyWorker_Stop :: "bool \<Rightarrow> proxy \<Rightarrow> bool \<Rightarrow> net \<Rightarrow> (proxy \<times> bool \<times> net) result" where
  "ShardingProxyWorker_Stop ends p joinable net =
     (let net = (if clientfd p \<noteq> -1 then net(clientfd p := sys_close (net (clientfd p))) else net);
          net = close_all (shard_servers p) net;
          p = p\<lparr>clientfd := -1, shard_servers := []\<rparr> in
      bindR (thread_join joinable ends) (\<lambda>joinable. Inr (p, joinable, net)))"

text \<open>The destructor, with that of the thread: \<^verbatim>\<open>Stop\<close> has joined it.\<close>

definition ShardingProxyWorker_delete :: "bool \<Rightarrow> proxy \<Rightarrow> bool \<Rightarrow> net \<Rightarrow> net result" where
  "ShardingProxyWorker_delete ends p joinable net =
     bindR (ShardingProxyWorker_Stop ends p joinable net) (\<lambda>(p, joinable, net).
     if joinable then Inl Terminated else Inr net)"

section \<open>What the loop does to the sockets\<close>

lemma send_loop_keeps_stream:
  "send_loop data n w s = Inr (st, s') \<Longrightarrow> stream s' = stream s"
proof (induction data n w s rule: send_loop.induct)
  case (1 data n w s)
  have wr: "stream t = stream s" if "sys_write bs s = (rc, t)" for bs rc t
    using stream_sys_write [of bs s] that by simp
  show ?case
  proof (cases "0 < n \<and> kMaxNetPacketSize \<le> n")
    case True
    with "1.prems" obtain chunk where rd: "read_bytes data (unat w) kMaxNetPacketSize = Inr chunk"
      by (subst (asm) send_loop.simps) (auto simp: result_simps)
    obtain rc t where t: "sys_write chunk s = (rc, t)" by fastforce
    show ?thesis
    proof (cases "rc \<le> 0")
      case le: True
      then show ?thesis
        using "1.prems" True rd t wr [OF t] by (subst (asm) send_loop.simps) simp
    next
      case False
      then have "send_loop data (n - kMaxNetPacketSize) (w + of_nat kMaxNetPacketSize) t = Inr (st, s')"
        using "1.prems" True rd t by (subst (asm) send_loop.simps) simp
      from "1.IH" [OF _ _ rd refl t [symmetric] False this] True wr [OF t] show ?thesis by simp
    qed
  next
    case False
    then show ?thesis
      using "1.prems" by (subst (asm) send_loop.simps)
        (auto simp: result_simps Let_def case_prod_beta split: if_splits)
  qed
qed

lemma SendPacket_data_keeps_stream:
  "SendPacket_data data s = Inr (st, s') \<Longrightarrow> stream s' = stream s"
  unfolding SendPacket_data_def by (rule send_loop_keeps_stream)

lemma ForwardPacket_frame:
  "ForwardPacket src dst net = Inr (st, net') \<Longrightarrow>
     length (stream (net' fd)) \<le> length (stream (net fd)) \<and>
     (fd \<noteq> src \<longrightarrow> fd \<noteq> dst \<longrightarrow> net' fd = net fd)"
proof (induction src dst net rule: ForwardPacket.induct)
  case (1 src dst net)
  obtain rc buf s where rd: "sys_read kMaxNetPacketSize (net src) = Inr (rc, buf, s)"
    using "1.prems" by (subst (asm) ForwardPacket.simps) (auto simp: result_simps)
  have le: "length (stream s) \<le> length (stream (net src))"
    using rd by (auto simp: sys_read_def stream_def Let_def split: if_splits list.splits arrival.splits)
  obtain wrc t where wr: "sys_write buf ((net(src := s)) dst) = (wrc, t)" by fastforce
  have t: "stream t = stream ((net(src := s)) dst)"
    using wr by (metis snd_conv stream_sys_write)
  let ?net = "net(src := s, dst := t)"
  have step: "length (stream (?net fd)) \<le> length (stream (net fd))" "fd \<noteq> src \<Longrightarrow> fd \<noteq> dst \<Longrightarrow> ?net fd = net fd"
    using le t by (auto split: if_splits)
  show ?case
  proof (cases "0 < rc \<and> \<not> rc < int kMaxNetPacketSize \<and> 0 < wrc")
    case True
    then have "ForwardPacket src dst ?net = Inr (st, net')"
      using "1.prems" rd wr by (subst (asm) ForwardPacket.simps) (simp add: Let_def)
    from "1.IH" [OF rd refl refl refl _ _ refl refl wr [symmetric] refl _ _ this] True step
    show ?thesis by fastforce
  next
    case False
    then have "net' = ?net \<or> net' = net(src := s)"
      using "1.prems" rd wr by (subst (asm) ForwardPacket.simps) (auto simp: Let_def split: if_splits)
    then show ?thesis using step le by auto
  qed
qed

lemma DispatchPacket_frame:
  assumes "DispatchPacket p key data net = Inr (st, net')"
  shows "length (stream (net' fd)) \<le> length (stream (net fd))" (is ?le)
    and "fd \<noteq> clientfd p \<Longrightarrow> \<exists>i. GetShardId (num_nodes p) key = Inr i \<and>
      (server_at (shard_servers p) i = Inr fd \<or> net' fd = net fd)" (is "_ \<Longrightarrow> ?other")
proof -
  from assms obtain i sfd st1 s where d: "GetShardId (num_nodes p) key = Inr i"
      "server_at (shard_servers p) i = Inr sfd" "SendPacket_data data (net sfd) = Inr (st1, s)"
      "net' = net(sfd := s) \<or> ForwardPacket sfd (clientfd p) (net(sfd := s)) = Inr (st, net')"
    by (auto simp: DispatchPacket_def result_simps Let_def split: if_splits)
  then have s: "stream s = stream (net sfd)" by (intro SendPacket_data_keeps_stream)
  have "length (stream (net' fd)) \<le> length (stream ((net(sfd := s)) fd)) \<and>
      (fd \<noteq> sfd \<longrightarrow> fd \<noteq> clientfd p \<longrightarrow> net' fd = net fd)"
    using d(4) ForwardPacket_frame [of sfd "clientfd p" "net(sfd := s)" st net' fd] by auto
  moreover have "stream ((net(sfd := s)) fd) = stream (net fd)" using s by simp
  ultimately show ?le and "fd \<noteq> clientfd p \<Longrightarrow> ?other"
    using d(1,2) by auto
qed

text \<open>C26: The packets of a key only ever touch the client's socket and the socket of the server the
  policy names, and never the last server of the list: whatever the dispatch does, if it
  returns, every other socket, and in particular that of the last server, is as before. When
  the shard number is zero or negative there is no such server, and the vector is read outside
  its bounds before anything is sent; with one server that is every key.\<close>

theorem DispatchPacket_servers:
  assumes "num_nodes p = int (length (shard_servers p))" and "distinct (shard_servers p)"
    and "clientfd p \<notin> set (shard_servers p)"
  shows "(DispatchPacket p key data net = Inr (st, net') \<longrightarrow>
      (\<exists>fd \<in> set (butlast (shard_servers p)). \<forall>x. x \<notin> {fd, clientfd p} \<longrightarrow> net' x = net x) \<and>
      net' (last (shard_servers p)) = net (last (shard_servers p))) \<and>
    (GetShardId (num_nodes p) key = Inr i \<and> (i \<le> 0 \<or> length (shard_servers p) = 1) \<longrightarrow>
      DispatchPacket p key data net = Inl OutOfBounds)"
proof (intro conjI impI)
  assume "GetShardId (num_nodes p) key = Inr i \<and> (i \<le> 0 \<or> length (shard_servers p) = 1)"
  moreover from this have "i \<le> 0"
    using round_robin.in_range [of 1 key i] assms(1) by auto
  ultimately show "DispatchPacket p key data net = Inl OutOfBounds"
    by (simp add: DispatchPacket_def server_at_def)
next
  assume d: "DispatchPacket p key data net = Inr (st, net')"
  then obtain i fd where fd: "GetShardId (num_nodes p) key = Inr i" "server_at (shard_servers p) i = Inr fd"
    by (auto simp: DispatchPacket_def result_simps)
  then have mem: "fd \<in> set (butlast (shard_servers p))"
    using round_robin.server_not_last assms(1) by simp
  have keep: "net' x = net x" if "x \<notin> {fd, clientfd p}" for x
    using DispatchPacket_frame(2) [OF d, of x] fd that by auto
  then show "\<exists>fd \<in> set (butlast (shard_servers p)). \<forall>x. x \<notin> {fd, clientfd p} \<longrightarrow> net' x = net x"
    using mem by blast
  have ne: "shard_servers p \<noteq> []" using mem by auto
  have "distinct (butlast (shard_servers p) @ [last (shard_servers p)])"
    using assms(2) ne by simp
  then have "last (shard_servers p) \<noteq> fd" using mem by auto
  moreover have "last (shard_servers p) \<noteq> clientfd p" using assms(3) last_in_set [OF ne] by metis
  ultimately show "net' (last (shard_servers p)) = net (last (shard_servers p))"
    by (intro keep) simp
qed

lemma DispatchPacket_servers_witness:
  "DispatchPacket (ShardingProxyWorker_new 4 [5]) (95 # to_string 3) [0] (\<lambda>_. fresh_socket) =
     Inl OutOfBounds"
proof -
  have "ExtractKey ([] @ underscore # to_string 3 @ []) = Inr (int 3)"
    by (rule ExtractKey_to_string) simp_all
  then have "GetShardId 1 (95 # to_string 3) = Inr 0"
    by (simp add: GetShardId_def underscore_def smod_int_alt_def)
  then show ?thesis
    using DispatchPacket_servers [of "ShardingProxyWorker_new 4 [5]" "95 # to_string 3" "[0]"
        "\<lambda>_. fresh_socket" _ _ 0]
    by (simp add: ShardingProxyWorker_new_def)
qed

section \<open>The loop\<close>

lemma proxy_getall_halts_or_stops: "proxy_getall p data net \<noteq> Inr (True, st, net')"
  by (auto simp: proxy_getall_def result_simps GetAllResponsePacket_new_def split: if_splits)

lemma ShardingProxyWorker_round_consumes:
  assumes "ShardingProxyWorker_round p net = Inr (True, st, net')"
  shows "length (stream (net' (clientfd p))) < length (stream (net (clientfd p)))"
proof -
  from assms obtain packet s where rd: "ReadFromClient (net (clientfd p)) = Inr (packet, s)"
      "\<not> err (so_status packet)" "\<not> eof (so_status packet)"
    by (auto simp: ShardingProxyWorker_round_def result_simps Let_def split: if_splits)
  have "ok (so_status packet)"
  proof -
    from rd(1) obtain st b where "ReadWholePacket (net (clientfd p)) = Inr (st, b, s)"
        "ok st \<or> so_status packet = st"
      by (auto simp: ReadFromClient_def StatusOr_status_def result_simps split: if_splits)
    then show ?thesis
      using rd read_loop_conserves [of "[]" kMaxNetPacketSize kMaxNetPacketSize]
      by (fastforce simp: ReadWholePacket_def ReadFromClient_def result_simps split: if_splits)
  qed
  then have less: "length (stream s) < length (stream (net (clientfd p)))"
    by (rule ReadFromClient_consumes [OF rd(1)])
  have "\<exists>key data. DispatchPacket p key data (net(clientfd p := s)) = Inr (st, net')"
  proof -
    from assms rd obtain pk where "so_deref packet = Inr pk"
      by (auto simp: ShardingProxyWorker_round_def result_simps Let_def)
    then show ?thesis
      using assms rd by (cases pk)
        (auto simp: ShardingProxyWorker_round_def result_simps Let_def proxy_getall_halts_or_stops)
  qed
  then obtain key data where "DispatchPacket p key data (net(clientfd p := s)) = Inr (st, net')"
    by blast
  from DispatchPacket_frame(1) [OF this, of "clientfd p"] less show ?thesis by simp
qed

text \<open>The thread's function: the loop \<^verbatim>\<open>while (status.ok())\<close>, with the last status.\<close>

function ShardingProxyWorker_HandleClient :: "proxy \<Rightarrow> net \<Rightarrow> (status \<times> net) result" where
  "ShardingProxyWorker_HandleClient p net =
     bindR (ShardingProxyWorker_round p net) (\<lambda>(again, st, net).
     if again then ShardingProxyWorker_HandleClient p net else Inr (st, net))"
  by pat_completeness auto
termination
  by (relation "measure (\<lambda>(p, net). length (stream (net (clientfd p))))")
    (auto dest: ShardingProxyWorker_round_consumes)

declare ShardingProxyWorker_HandleClient.simps [simp del]

text \<open>The specification of a session: a transparent relay. One exchange hands the bytes of a keyed
  command to the server of its key, and that server's answer to the client; a session is a
  sequence of exchanges that the client ends by closing.\<close>

fun command_key :: "command \<Rightarrow> bytes option" where
  "command_key (Get k) = Some k"
| "command_key (Put k v) = Some k"
| "command_key (Delete k) = Some k"
| "command_key (GetAll p) = None"

definition ready :: "socket \<Rightarrow> bytes \<Rightarrow> arrival list \<Rightarrow> bool" where
  "ready s d q \<longleftrightarrow> is_open s \<and> wplan s = [] \<and> inq s = map Segment (packet_chunks d) @ q"

definition exchanged :: "socket \<Rightarrow> arrival list \<Rightarrow> bytes \<Rightarrow> socket" where
  "exchanged s q d = s\<lparr>inq := q, outq := outq s @ packet_chunks d\<rparr>"

inductive relay ::
  "proxy \<Rightarrow> net \<Rightarrow> (command \<times> int \<times> bytes) list \<Rightarrow> net \<Rightarrow> bool" for p :: proxy where
  relay_close: "is_open (net (clientfd p)) \<Longrightarrow> inq (net (clientfd p)) = Hangup # q \<Longrightarrow>
     relay p net [] net"
| relay_exchange:
    "wf_command c \<Longrightarrow> command_key c = Some k \<Longrightarrow> GetShardId (num_nodes p) k = Inr i \<Longrightarrow>
     server_at (shard_servers p) i = Inr fd \<Longrightarrow> fd \<noteq> clientfd p \<Longrightarrow>
     ready (net (clientfd p)) (encode_command c) cq \<Longrightarrow> ready (net fd) reply q \<Longrightarrow>
     relay p (net(clientfd p := exchanged (net (clientfd p)) cq reply,
                  fd := exchanged (net fd) q (encode_command c))) es net' \<Longrightarrow>
     relay p net ((c, fd, reply) # es) net'"

lemma encode_command_short: "wf_command c \<Longrightarrow> length (encode_command c) < 4294967296"
  by (simp add: wf_command_def length_encode_command)

lemma ToBinary_received:
  "wf_command c \<Longrightarrow> ToBinary (received_packet c) = Inr (encode_command c)"
  using unat_add_4 [of "Suc (length (command_args c))"]
  by (simp add: ToBinary_def ToBinary_size_def received_packet_def read_bytes_def
      length_encode_command wf_command_def)

lemma ShardingProxyWorker_round_exchange:
  assumes wf: "wf_command c" "command_key c = Some k"
    and fd: "GetShardId (num_nodes p) k = Inr i" "server_at (shard_servers p) i = Inr fd"
      "fd \<noteq> clientfd p"
    and client: "ready (net (clientfd p)) (encode_command c) cq" and server: "ready (net fd) reply q"
  shows "ShardingProxyWorker_round p net = Inr (True, Status_Ok,
     net(clientfd p := exchanged (net (clientfd p)) cq reply,
         fd := exchanged (net fd) q (encode_command c)))" (is "_ = Inr (True, _, ?net')")
proof -
  let ?s = "(net (clientfd p))\<lparr>inq := cq\<rparr>" and ?d = "encode_command c"
  have rd: "ReadFromClient (net (clientfd p)) =
      Inr (StatusOr_ptr (Some (command_object (received_packet c) c)), ?s)"
    using client by (intro ReadFromClient_object [OF wf(1)]) (simp_all add: ready_def)
  have snd: "SendPacket_data ?d (net fd) = Inr (Status_Ok, (net fd)\<lparr>outq := outq (net fd) @ packet_chunks ?d\<rparr>)"
    using server encode_command_short [OF wf(1)]
    by (intro SendPacket_data_chunks) (simp_all add: ready_def)
  let ?net = "net(clientfd p := ?s, fd := (net fd)\<lparr>outq := outq (net fd) @ packet_chunks ?d\<rparr>)"
  have "ForwardPacket fd (clientfd p) ?net = Inr (Status_Ok, ?net(fd := (?net fd)\<lparr>inq := q\<rparr>,
      clientfd p := (?net (clientfd p))\<lparr>outq := outq (?net (clientfd p)) @ packet_chunks reply\<rparr>))"
    using fd(3) client server by (intro ForwardPacket_chunks) (simp_all add: ready_def)
  also have "?net(fd := (?net fd)\<lparr>inq := q\<rparr>,
      clientfd p := (?net (clientfd p))\<lparr>outq := outq (?net (clientfd p)) @ packet_chunks reply\<rparr>) = ?net'"
    using fd(3) by (auto simp: exchanged_def fun_eq_iff)
  finally have fwd: "ForwardPacket fd (clientfd p) ?net = Inr (Status_Ok, ?net')" .
  have "DispatchPacket p k ?d (net(clientfd p := ?s)) = Inr (Status_Ok, ?net')"
    by (simp add: DispatchPacket_def fd snd fwd)
  then show ?thesis
    using wf(2) ToBinary_received [OF wf(1)] by (cases c)
      (simp_all add: ShardingProxyWorker_round_def rd)
qed

lemma relay_HandleClient:
  "relay p net es net' \<Longrightarrow> ShardingProxyWorker_HandleClient p net = Inr (Status_Ok, net')"
proof (induction rule: relay.induct)
  case (relay_close net q)
  then have "ReadFromClient (net (clientfd p)) = Inr (StatusOr_status Status_Eof, net (clientfd p))"
    by (simp add: ReadFromClient_def ReadWholePacket_def read_loop_unfold sys_read_def)
  then show ?case
    by (subst ShardingProxyWorker_HandleClient.simps) (simp add: ShardingProxyWorker_round_def)
next
  case (relay_exchange c k i fd net cq reply q es net')
  then show ?case
    using ShardingProxyWorker_round_exchange [OF relay_exchange.hyps(1-7)]
    by (subst ShardingProxyWorker_HandleClient.simps) (simp add: fun_upd_def)
qed

lemma relay_outputs:
  "relay p net es net' \<Longrightarrow>
     outq (net' (clientfd p)) = outq (net (clientfd p)) @ concat (map (\<lambda>(c, f, reply). packet_chunks reply) es) \<and>
     (fd \<noteq> clientfd p \<longrightarrow> outq (net' fd) = outq (net fd) @
        concat (map (\<lambda>(c, f, reply). packet_chunks (encode_command c)) (filter (\<lambda>(c, f, reply). f = fd) es)))"
  by (induction rule: relay.induct) (auto simp: exchanged_def)



section \<open>GetAll over the shards\<close>

text \<open>What a shard answers to GetAll: the keys it has, and any bytes in the rest of the packet.\<close>

definition shard_answer :: "bytes list \<Rightarrow> bytes \<Rightarrow> bytes" where
  "shard_answer ks slack = framed (response_payload (RGetAll Status_Ok ks) @ slack)"

lemma gather_keys:
  assumes "distinct fds"
    and "\<forall>fd \<in> set fds. is_open (net fd) \<and>
      inq (net fd) = map Segment (packet_chunks (shard_answer (ks fd) (slack fd))) @ q fd \<and>
      length (shard_answer (ks fd) (slack fd)) < 4294967296"
  shows "gather fds keys net = Inr (Status_Ok, keys @ concat (map ks fds),
    \<lambda>fd. if fd \<in> set fds then (net fd)\<lparr>inq := q fd\<rparr> else net fd)"
  using assms
proof (induction fds arbitrary: keys net)
  case (Cons fd fds)
  let ?r = "RGetAll Status_Ok (ks fd)"
  let ?p = "GetAllResponsePacket (received_resp ?r (slack fd)) (ks fd)"
  let ?net = "net(fd := (net fd)\<lparr>inq := q fd\<rparr>)"
  have "CreateResponsePacket (shard_answer (ks fd) (slack fd) @ z) = Inr (Some ?p)" for z
    using CreateResponsePacket_slack [of ?r "slack fd" z] Cons.prems(2)
    by (simp add: shard_answer_def)
  then have rd: "ReadFromServer (net fd) = Inr (StatusOr_ptr (Some ?p), (net fd)\<lparr>inq := q fd\<rparr>)"
    using Cons.prems(2) by (intro ReadFromServer_bytes) simp_all
  have "gather fds (keys @ ks fd) ?net = Inr (Status_Ok, (keys @ ks fd) @ concat (map ks fds),
      \<lambda>x. if x \<in> set fds then (?net x)\<lparr>inq := q x\<rparr> else ?net x)"
    using Cons.prems by (intro Cons.IH) auto
  then show ?case
    using Cons.prems(1) by (auto simp: rd AddKeys_def fun_eq_iff)
qed simp

lemma send_all_chunks:
  assumes "distinct fds" and "\<forall>fd \<in> set fds. is_open (net fd) \<and> wplan (net fd) = []"
    and "length d < 4294967296"
  shows "send_all fds d net = Inr (Status_Ok,
    \<lambda>fd. if fd \<in> set fds then (net fd)\<lparr>outq := outq (net fd) @ packet_chunks d\<rparr> else net fd)"
  using assms
proof (induction fds arbitrary: net)
  case (Cons fd fds)
  let ?net = "net(fd := (net fd)\<lparr>outq := outq (net fd) @ packet_chunks d\<rparr>)"
  have "send_all fds d ?net = Inr (Status_Ok,
      \<lambda>x. if x \<in> set fds then (?net x)\<lparr>outq := outq (?net x) @ packet_chunks d\<rparr> else ?net x)"
    using Cons.prems by (intro Cons.IH) auto
  then show ?case
    using Cons.prems SendPacket_data_chunks [of "net fd" d] by (auto simp: fun_eq_iff)
qed simp

text \<open>C27: A GetAll request: every shard server, the last one included, is sent the client's bytes,
  and the keys of their answers are collected in the order of the servers, each shard's keys
  in its order. Then the answer is built without a buffer, so the thread, and the whole proxy,
  ends on a null pointer; the client is sent nothing.\<close>

theorem HandleClient_getall:
  assumes "distinct (shard_servers p)" and "clientfd p \<notin> set (shard_servers p)"
    and "wf_command (GetAll pre)" and "ready (net (clientfd p)) (encode_command (GetAll pre)) cq"
    and "\<forall>fd \<in> set (shard_servers p). ready (net fd) (shard_answer (ks fd) (slack fd)) (q fd) \<and>
      length (shard_answer (ks fd) (slack fd)) < 4294967296"
  shows "\<exists>net1 net2.
     send_all (shard_servers p) (encode_command (GetAll pre))
       (net(clientfd p := (net (clientfd p))\<lparr>inq := cq\<rparr>)) = Inr (Status_Ok, net1) \<and>
     gather (shard_servers p) [] net1 =
       Inr (Status_Ok, concat (map ks (shard_servers p)), net2) \<and>
     (\<forall>fd \<in> set (shard_servers p).
        outq (net2 fd) = outq (net fd) @ packet_chunks (encode_command (GetAll pre)) \<and>
        inq (net2 fd) = q fd) \<and>
     ShardingProxyWorker_HandleClient p net = Inl NullDeref"
proof -
  let ?fds = "shard_servers p" and ?c = "GetAll pre" and ?s = "(net (clientfd p))\<lparr>inq := cq\<rparr>"
  let ?net = "net(clientfd p := ?s)"
  define net1 where "net1 = (\<lambda>fd. if fd \<in> set ?fds
    then (?net fd)\<lparr>outq := outq (?net fd) @ packet_chunks (encode_command ?c)\<rparr> else ?net fd)"
  define net2 where "net2 = (\<lambda>fd. if fd \<in> set ?fds then (net1 fd)\<lparr>inq := q fd\<rparr> else net1 fd)"
  have sent: "send_all ?fds (encode_command ?c) ?net = Inr (Status_Ok, net1)"
    unfolding net1_def using assms encode_command_short [OF assms(3)]
    by (intro send_all_chunks) (auto simp: ready_def)
  have got: "gather ?fds [] net1 = Inr (Status_Ok, [] @ concat (map ks ?fds), net2)"
    unfolding net2_def using assms by (intro gather_keys) (auto simp: ready_def net1_def)
  have rd: "ReadFromClient (net (clientfd p)) =
      Inr (StatusOr_ptr (Some (command_object (received_packet ?c) ?c)), ?s)"
    using assms(4) by (intro ReadFromClient_object [OF assms(3)]) (simp_all add: ready_def)
  have "proxy_getall p (encode_command ?c) ?net = Inl NullDeref"
    using got by (simp add: proxy_getall_def sent GetAllResponsePacket_new_def)
  then have "ShardingProxyWorker_HandleClient p net = Inl NullDeref"
    using rd ToBinary_received [OF assms(3)]
    by (subst ShardingProxyWorker_HandleClient.simps) (simp add: ShardingProxyWorker_round_def)
  moreover have "\<forall>fd \<in> set ?fds. outq (net2 fd) = outq (net fd) @ packet_chunks (encode_command ?c) \<and>
      inq (net2 fd) = q fd"
    using assms(2) by (auto simp: net2_def net1_def)
  ultimately show ?thesis using sent got by auto
qed

lemma HandleClient_getall_witness:
  "ShardingProxyWorker_HandleClient (ShardingProxyWorker_new 4 [5]) ((\<lambda>_. fresh_socket)
     (4 := fresh_socket\<lparr>inq := map Segment (packet_chunks (encode_command (GetAll [107])))\<rparr>,
      5 := fresh_socket\<lparr>inq := map Segment (packet_chunks (shard_answer [[107, 49]] [0, 0]))\<rparr>)) =
   Inl NullDeref"
  (is "ShardingProxyWorker_HandleClient ?p ?net = _")
proof -
  have "length (shard_answer [[107, 49]] [0, 0]) < 4294967296"
    by (simp add: shard_answer_def length_response_payload keys_enc_def)
  then have "distinct (shard_servers ?p)" "clientfd ?p \<notin> set (shard_servers ?p)"
      "wf_command (GetAll [107])" "ready (?net (clientfd ?p)) (encode_command (GetAll [107])) []"
      "\<forall>fd \<in> set (shard_servers ?p). ready (?net fd) (shard_answer [[107, 49]] [0, 0]) [] \<and>
        length (shard_answer [[107, 49]] [0, 0]) < 4294967296"
    by (simp_all add: ShardingProxyWorker_new_def wf_command_def ready_def)
  from HandleClient_getall [OF this] show ?thesis by blast
qed

end
