(* ===== verification/Sqpkv_Client.thy ===== *)
theory Sqpkv_Client
  imports Sqpkv_Proxy
begin

text \<open>
  The client library (\<^verbatim>\<open>src/client/connection.cc\<close>) and the interactive client
  (\<^verbatim>\<open>src/client/main.cc\<close>). Each operation of a connection builds its packet, sends it and reads
  the answer; the part behind the constructor is a definition of its own, over the packet, and so is
  the reading half.
\<close>

section \<open>Connections\<close>

text \<open>The object holds the descriptor (and a \<^verbatim>\<open>Protocol\<close>, which has no state); the sockets of the
  process are passed along. \<open>dials\<close> says how connecting to a host and port goes.\<close>

record connection =
  sockfd_of :: int

definition Connection_new :: "int \<Rightarrow> connection" where
  "Connection_new sockfd = \<lparr>sockfd_of = sockfd\<rparr>"

definition ConnectTo ::
  "(bytes \<Rightarrow> int \<Rightarrow> dial) \<Rightarrow> bytes \<Rightarrow> bytes \<Rightarrow> int \<Rightarrow> connection status_or" where
  "ConnectTo dials errno_msg hostname port =
     (let sockfd = SockConnectTo (dials hostname port) in
      if sockfd = -1 then StatusOr_status (Status_Err0 errno_msg)
      else StatusOr_ptr (Some (Connection_new sockfd)))"

text \<open>\<^verbatim>\<open>status()\<close> is a member of the base class of all responses; \<^verbatim>\<open>value()\<close>
  and \<^verbatim>\<open>keys()\<close> of an object of another class are reads through a pointer of the wrong
  type.\<close>

definition resp_value :: "response_packet \<Rightarrow> bytes result" where
  "resp_value r = (case r of GetResponsePacket rp v \<Rightarrow> Inr v | _ \<Rightarrow> Inl TypeConfusion)"

definition resp_keys :: "response_packet \<Rightarrow> bytes list result" where
  "resp_keys r = (case r of GetAllResponsePacket rp ks \<Rightarrow> Inr ks | _ \<Rightarrow> Inl TypeConfusion)"

text \<open>The reading half of an operation, behind a send that was ok: the answer of the server and what
  the caller gets of it.\<close>

definition get_reply :: "status \<Rightarrow> bytes \<Rightarrow> socket \<Rightarrow> (status \<times> bytes \<times> socket) result" where
  "get_reply net_status value s =
     bindR (ReadFromServer s) (\<lambda>(resp, s).
     if ok (so_status resp) then
       bindR (so_deref resp) (\<lambda>get_resp.
       if ok (status_of (response_base get_resp)) then
         bindR (resp_value get_resp) (\<lambda>v. Inr (net_status, v, s))
       else Inr (status_of (response_base get_resp), value, s))
     else Inr (so_status resp, value, s))"

definition status_reply :: "socket \<Rightarrow> (status \<times> socket) result" where
  "status_reply s =
     bindR (ReadFromServer s) (\<lambda>(resp, s).
     if ok (so_status resp) then
       bindR (so_deref resp) (\<lambda>r. Inr (status_of (response_base r), s))
     else Inr (so_status resp, s))"

definition getall_reply :: "status \<Rightarrow> bytes list \<Rightarrow> socket \<Rightarrow> (status \<times> bytes list \<times> socket) result" where
  "getall_reply net_status keys s =
     bindR (ReadFromServer s) (\<lambda>(resp, s).
     if ok (so_status resp) then
       bindR (so_deref resp) (\<lambda>get_all_resp.
       if ok (status_of (response_base get_all_resp)) then
         bindR (resp_keys get_all_resp) (\<lambda>key_slices. Inr (net_status, keys @ key_slices, s))
       else Inr (status_of (response_base get_all_resp), keys, s))
     else Inr (so_status resp, keys, s))"

text \<open>With the sending half, over the packet.\<close>

definition get_exchange ::
  "command_packet \<Rightarrow> bytes \<Rightarrow> socket \<Rightarrow> (status \<times> bytes \<times> socket) result" where
  "get_exchange packet value s =
     bindR (SendPacket (command_base packet) s) (\<lambda>(net_status, s).
     if ok net_status then get_reply net_status value s else Inr (net_status, value, s))"

definition status_exchange :: "command_packet \<Rightarrow> socket \<Rightarrow> (status \<times> socket) result" where
  "status_exchange packet s =
     bindR (SendPacket (command_base packet) s) (\<lambda>(net_status, s).
     if ok net_status then status_reply s else Inr (net_status, s))"

definition getall_exchange ::
  "command_packet \<Rightarrow> bytes list \<Rightarrow> socket \<Rightarrow> (status \<times> bytes list \<times> socket) result" where
  "getall_exchange packet keys s =
     bindR (SendPacket (command_base packet) s) (\<lambda>(net_status, s).
     if ok net_status then getall_reply net_status keys s else Inr (net_status, keys, s))"

text \<open>The packets are built without a buffer.\<close>

definition Connection_Get ::
  "connection \<Rightarrow> bytes \<Rightarrow> bytes \<Rightarrow> net \<Rightarrow> (status \<times> bytes \<times> net) result" where
  "Connection_Get cn key value net =
     bindR (GetPacket_new key None) (\<lambda>(packet, _).
     bindR (get_exchange packet value (net (sockfd_of cn))) (\<lambda>(st, value, s).
     Inr (st, value, net(sockfd_of cn := s))))"

definition Connection_Put ::
  "connection \<Rightarrow> bytes \<Rightarrow> bytes \<Rightarrow> net \<Rightarrow> (status \<times> net) result" where
  "Connection_Put cn key value net =
     bindR (PutPacket_new key value None) (\<lambda>(packet, _).
     bindR (status_exchange packet (net (sockfd_of cn))) (\<lambda>(st, s). Inr (st, net(sockfd_of cn := s))))"

definition Connection_Delete :: "connection \<Rightarrow> bytes \<Rightarrow> net \<Rightarrow> (status \<times> net) result" where
  "Connection_Delete cn key net =
     bindR (DeletePacket_new key None) (\<lambda>(packet, _).
     bindR (status_exchange packet (net (sockfd_of cn))) (\<lambda>(st, s). Inr (st, net(sockfd_of cn := s))))"

definition Connection_GetAll ::
  "connection \<Rightarrow> bytes \<Rightarrow> bytes list \<Rightarrow> net \<Rightarrow> (status \<times> bytes list \<times> net) result" where
  "Connection_GetAll cn pre keys net =
     bindR (GetAllPacket_new pre None) (\<lambda>(packet, _).
     bindR (getall_exchange packet keys (net (sockfd_of cn))) (\<lambda>(st, keys, s).
     Inr (st, keys, net(sockfd_of cn := s))))"

definition Connection_Close :: "connection \<Rightarrow> net \<Rightarrow> net" where
  "Connection_Close cn net = net(sockfd_of cn := sys_close (net (sockfd_of cn)))"

lemma Connection_halts:
  "Connection_Get cn k v net = Inl NullDeref" "Connection_Put cn k v net = Inl NullDeref"
  "Connection_Delete cn k net = Inl NullDeref" "Connection_GetAll cn pre ks net = Inl NullDeref"
  using command_new_null [of "Get k"] command_new_null [of "Put k v"]
    command_new_null [of "Delete k"] command_new_null [of "GetAll pre"]
  by (simp_all add: Connection_Get_def Connection_Put_def Connection_Delete_def Connection_GetAll_def)

text \<open>What the reading half makes of an answer that arrives in the pieces it was sent in. A get
  returns the status of the send with the value of an ok answer and otherwise
  the answer's status, leaving the caller's value alone; a put or delete returns the answer's
  status, also when the answer to a delete comes with a put's code; bytes behind the answer
  stay unread.\<close>

lemma reply_get:
  assumes "wf_response (RGet st w)" and "is_open s"
    and "inq s = map Segment (packet_chunks (encode_response (RGet st w))) @ q"
  shows "get_reply net_status v s = Inr (if ok st then net_status else st, if ok st then w else v, s\<lparr>inq := q\<rparr>)"
  using ReadFromServer_response [OF assms]
  by (simp add: get_reply_def resp_value_def received_resp_def)

lemma reply_status:
  assumes "wf_response r" and "is_open s"
    and "inq s = map Segment (packet_chunks (encode_response r)) @ q"
  shows "status_reply s = Inr (response_status r, s\<lparr>inq := q\<rparr>)"
  using ReadFromServer_response [OF assms] by (simp add: status_reply_def received_resp_def)

section \<open>The interactive client\<close>

subsection \<open>Reading lines and splitting them\<close>

text \<open>\<^verbatim>\<open>std::istream\<close>: the characters left, and whether no state bit is set.\<close>

record istream =
  chars :: bytes
  good :: bool

text \<open>\<^verbatim>\<open>std::getline\<close>: whether the stream has not failed, the string, and the stream. A
  stream that is not good leaves the string as it is; reading up to the end sets the end bit, and
  the fail bit too when there was nothing to read.\<close>

definition std_getline :: "byte \<Rightarrow> istream \<Rightarrow> bytes \<Rightarrow> bool \<times> bytes \<times> istream" where
  "std_getline delimiter stm str =
     (if \<not> good stm then (False, str, stm)
      else
        let tok = takeWhile (\<lambda>b. b \<noteq> delimiter) (chars stm) in
        case dropWhile (\<lambda>b. b \<noteq> delimiter) (chars stm) of
          [] \<Rightarrow> (tok \<noteq> [], tok, \<lparr>chars = [], good = False\<rparr>)
        | _ # r \<Rightarrow> (True, tok, \<lparr>chars = r, good = True\<rparr>))"

definition stream_left :: "istream \<Rightarrow> nat" where
  "stream_left stm = (if good stm then Suc (length (chars stm)) else 0)"

lemma std_getline_less:
  assumes "std_getline d stm str = (True, tok, stm')"
  shows "stream_left stm' < stream_left stm"
proof -
  have "length (dropWhile (\<lambda>b. b \<noteq> d) (chars stm)) \<le> length (chars stm)"
    by (rule length_dropWhile_le)
  then show ?thesis
    using assms by (auto simp: std_getline_def stream_left_def Let_def split: if_splits list.splits)
qed

text \<open>The loop \<^verbatim>\<open>while (std::getline(ss, tok, delimiter))\<close>.\<close>

function split_loop :: "byte \<Rightarrow> istream \<Rightarrow> bytes \<Rightarrow> bytes list" where
  "split_loop delimiter ss tok =
     (case std_getline delimiter ss tok of
        (True, tok, ss) \<Rightarrow> tok # split_loop delimiter ss tok
      | (False, tok, ss) \<Rightarrow> [])"
  by pat_completeness auto
termination
  by (relation "measure (\<lambda>(d, ss, tok). stream_left ss)") (auto dest!: std_getline_less [OF sym])

declare split_loop.simps [simp del]

definition split_line :: "bytes \<Rightarrow> byte \<Rightarrow> bytes list" where
  "split_line str delimiter = split_loop delimiter \<lparr>chars = str, good = True\<rparr> []"

lemma split_loop_good:
  "split_loop d \<lparr>chars = cs, good = True\<rparr> tok =
     (if d \<in> set cs then takeWhile (\<lambda>b. b \<noteq> d) cs #
        split_loop d \<lparr>chars = tl (dropWhile (\<lambda>b. b \<noteq> d) cs), good = True\<rparr> (takeWhile (\<lambda>b. b \<noteq> d) cs)
      else if cs = [] then [] else [cs])"
proof (cases "d \<in> set cs")
  case False
  then have t: "takeWhile (\<lambda>b. b \<noteq> d) cs = cs" and dw: "dropWhile (\<lambda>b. b \<noteq> d) cs = []"
    by (auto simp: takeWhile_eq_all_conv dropWhile_eq_Nil_conv)
  then have g: "std_getline d \<lparr>chars = cs, good = True\<rparr> tok = (cs \<noteq> [], cs, \<lparr>chars = [], good = False\<rparr>)"
    by (simp add: std_getline_def t dw)
  have "split_loop d \<lparr>chars = [], good = False\<rparr> x = []" for x
    by (subst split_loop.simps) (simp add: std_getline_def)
  then show ?thesis
    using False by (subst split_loop.simps, subst g) (cases cs; simp)
next
  case True
  then obtain b r where "dropWhile (\<lambda>b. b \<noteq> d) cs = b # r"
    by (cases "dropWhile (\<lambda>b. b \<noteq> d) cs") (auto simp: dropWhile_eq_Nil_conv)
  then show ?thesis
    using True by (subst split_loop.simps) (simp add: std_getline_def)
qed

lemma split_loop_tok: "split_loop d \<lparr>chars = cs, good = True\<rparr> tok = split_line cs d"
  unfolding split_line_def by (simp only: split_loop_good [of d cs])

lemma split_line_Nil [simp]: "split_line [] d = []"
  by (simp add: split_line_def split_loop_good)

lemma split_line_last: "d \<notin> set cs \<Longrightarrow> cs \<noteq> [] \<Longrightarrow> split_line cs d = [cs]"
  by (simp add: split_line_def split_loop_good)

lemma split_line_step: "d \<notin> set t \<Longrightarrow> split_line (t @ d # r) d = t # split_line r d"
proof -
  assume "d \<notin> set t"
  then have "takeWhile (\<lambda>b. b \<noteq> d) (t @ d # r) = t" "dropWhile (\<lambda>b. b \<noteq> d) (t @ d # r) = d # r"
    by (auto simp: takeWhile_append dropWhile_append)
  then show ?thesis
    using split_loop_good [of d "t @ d # r" "[]"] split_loop_tok [of d r t]
    by (simp only: split_line_def [of "t @ d # r"]) simp
qed

text \<open>Splitting a line loses nothing but a trailing delimiter: the tokens contain no delimiter, and
  joined with it they give the line back, or the line with one delimiter added when it does not
  end in one. An empty token stands for two delimiters in a row, so a double blank in a command
  shifts its arguments.\<close>

lemma split_line_joins:
  "(\<forall>t \<in> set (split_line str d). d \<notin> set t) \<and>
   concat (map (\<lambda>t. t @ [d]) (split_line str d)) =
     (if str = [] \<or> last str = d then str else str @ [d])"
proof (induction "length str" arbitrary: str rule: less_induct)
  case less
  show ?case
  proof (cases "d \<in> set str")
    case True
    then obtain t r where str: "str = t @ d # r" "d \<notin> set t" by (meson split_list_first)
    have "length r < length str" using str(1) by simp
    from less [OF this] show ?thesis
      using str by (simp add: split_line_step)
  next
    case False
    then show ?thesis by (cases "str = []") (auto simp: split_line_last)
  qed
qed

subsection \<open>What it prints\<close>

definition Show :: "bytes \<Rightarrow> bytes" where
  "Show msg = msg @ [10] @ bytes_of ''> ''"

text \<open>The exit code, if the program exits, and the output.\<close>

definition ShowStatus :: "status \<Rightarrow> int option \<times> bytes" where
  "ShowStatus st =
     (if err st then (None, Show (message st))
      else if eof st then (Some 1, bytes_of ''Server is lost, exiting...'' @ [10])
      else (None, bytes_of ''> ''))"

text \<open>The box-drawing characters are three bytes of UTF-8 each; \<^verbatim>\<open>%*s\<close> pads on the left
  and \<^verbatim>\<open>c_str()\<close> ends at the first zero byte.\<close>

definition box :: "byte \<Rightarrow> bytes" where
  "box b = [0xE2, 0x94, b]"

definition padded :: "nat \<Rightarrow> bytes \<Rightarrow> bytes" where
  "padded w str = (let c = takeWhile (\<lambda>b. b \<noteq> 0) str in replicate (w - length c) 32 @ c)"

definition list_row :: "nat \<Rightarrow> bytes \<Rightarrow> bytes" where
  "list_row max_len item =
     (let lpad = (max_len - length item) div 2; rpad = max_len - lpad - length item - 1 in
      box 0x82 @ [32] @ padded lpad item @ padded rpad [] @ [32] @ box 0x82 @ [10])"

definition ShowList :: "bytes list \<Rightarrow> bytes" where
  "ShowList lst =
     (let max_len = fold (\<lambda>item m. if m < length item then length item else m) lst 0 + 2;
          hline = concat (replicate max_len (box 0x80)) in
      box 0x8C @ hline @ box 0x90 @ [10] @
      (case lst of [] \<Rightarrow> []
       | item # items \<Rightarrow> list_row max_len item @
           concat (map (\<lambda>item. box 0x9C @ hline @ box 0xA4 @ [10] @ list_row max_len item) items)) @
      box 0x94 @ hline @ box 0x98 @ [10] @ bytes_of ''> '')"

subsection \<open>The loop of commands\<close>

text \<open>\<^verbatim>\<open>parts[i]\<close> without a check.\<close>

definition part :: "bytes list \<Rightarrow> nat \<Rightarrow> bytes result" where
  "part parts i = (if i < length parts then Inr (parts ! i) else Inl OutOfBounds)"

definition starts_with :: "bytes \<Rightarrow> string \<Rightarrow> bool" where
  "starts_with line word \<longleftrightarrow> take (length word) line = bytes_of word"

text \<open>One line: the exit code, if the program ends, the output and the sockets.\<close>

definition repl_line :: "connection \<Rightarrow> bytes \<Rightarrow> net \<Rightarrow> (int option \<times> bytes \<times> net) result" where
  "repl_line cn line net =
     (if starts_with line ''get all '' then
        bindR (part (split_line line 32) 2) (\<lambda>pre.
        bindR (Connection_GetAll cn pre [] net) (\<lambda>(st, keys, net).
        if ok st then Inr (None, ShowList keys, net)
        else let (e, out) = ShowStatus st in Inr (e, out, net)))
      else if starts_with line ''get '' then
        bindR (part (split_line line 32) 1) (\<lambda>key.
        bindR (Connection_Get cn key [] net) (\<lambda>(st, value, net).
        if ok st then Inr (None, Show value, net)
        else let (e, out) = ShowStatus st in Inr (e, out, net)))
      else if starts_with line ''put '' then
        bindR (part (split_line line 32) 1) (\<lambda>key.
        bindR (part (split_line line 32) 2) (\<lambda>value.
        bindR (Connection_Put cn key value net) (\<lambda>(st, net).
        let (e, out) = ShowStatus st in Inr (e, out, net))))
      else if starts_with line ''delete '' then
        bindR (part (split_line line 32) 1) (\<lambda>key.
        bindR (Connection_Delete cn key net) (\<lambda>(st, net).
        let (e, out) = ShowStatus st in Inr (e, out, net)))
      else if starts_with line ''quit'' then Inr (Some 0, [], net)
      else Inr (None, Show (bytes_of ''Unsupported syntax''), net))"

text \<open>The loop \<^verbatim>\<open>while (!quit)\<close>: the exit code and the output, the halt of the program, or
  \<^const>\<open>None\<close> when the loop does not end. The result of \<^verbatim>\<open>getline\<close> is not looked at.\<close>

partial_function (option) repl ::
  "connection \<Rightarrow> istream \<Rightarrow> bytes \<Rightarrow> net \<Rightarrow> bytes \<Rightarrow> (int \<times> bytes) result option" where
  "repl cn stm line net out =
     (let (_, line, stm) = std_getline 10 stm line in
      case repl_line cn line net of
        Inl h \<Rightarrow> Some (Inl h)
      | Inr (Some e, o1, net) \<Rightarrow> Some (Inr (e, out @ o1))
      | Inr (None, o1, net) \<Rightarrow> repl cn stm line net (out @ o1))"

text \<open>The flags, as they are unless the command line sets them: the address and the port of the
  server.\<close>

definition FLAGS_server_addr :: bytes where
  "FLAGS_server_addr = bytes_of ''127.0.0.1''"

definition FLAGS_server_port :: int where
  "FLAGS_server_port = 4242"

definition client_main ::
  "(bytes \<Rightarrow> int \<Rightarrow> dial) \<Rightarrow> bytes \<Rightarrow> bytes \<Rightarrow> int \<Rightarrow> bytes \<Rightarrow> net \<Rightarrow> (int \<times> bytes) result option" where
  "client_main dials errno_msg server_addr port stdin net =
     (let connection = ConnectTo dials errno_msg server_addr port in
      if err (so_status connection) then Some (Inr (1, []))
      else case so_deref connection of
        Inl h \<Rightarrow> Some (Inl h)
      | Inr cn \<Rightarrow> repl cn \<lparr>chars = stdin, good = True\<rparr> [] net (Show (bytes_of ''Welcome to SQPKV'')))"

text \<open>A line that is no command at all.\<close>

definition idle :: "bytes \<Rightarrow> bool" where
  "idle line \<longleftrightarrow> \<not> starts_with line ''get '' \<and> \<not> starts_with line ''put '' \<and>
     \<not> starts_with line ''delete '' \<and> \<not> starts_with line ''quit''"

lemma starts_take: "starts_with line w \<Longrightarrow> n \<le> length w \<Longrightarrow> take n line = take n (bytes_of w)"
  unfolding starts_with_def by (metis min.absorb1 take_take)

lemma starts_get_all: "starts_with line ''get all '' \<Longrightarrow> starts_with line ''get ''"
  using starts_take [of line "''get all ''" 4] by (simp add: starts_with_def bytes_of_def numeral_eq_Suc)

lemma starts_quit: "starts_with line ''quit'' \<Longrightarrow> \<not> starts_with line ''get '' \<and> \<not> starts_with line ''put '' \<and>
    \<not> starts_with line ''delete ''"
  using starts_take [of line "''quit''" 2] starts_take [of line "''get ''" 2]
    starts_take [of line "''put ''" 2] starts_take [of line "''delete ''" 2]
  by (auto simp: bytes_of_def)

lemma repl_line_idle: "idle line \<Longrightarrow> repl_line cn line s = Inr (None, Show (bytes_of ''Unsupported syntax''), s)"
  using starts_get_all [of line] by (auto simp: repl_line_def idle_def)

lemma repl_line_command:
  "\<not> idle line \<Longrightarrow> starts_with line ''quit'' \<Longrightarrow> repl_line cn line s = Inr (Some 0, [], s)"
  "\<not> idle line \<Longrightarrow> \<not> starts_with line ''quit'' \<Longrightarrow>
     repl_line cn line s = Inl NullDeref \<or> repl_line cn line s = Inl OutOfBounds"
  using starts_get_all [of line] starts_quit [of line]
  by (auto simp: repl_line_def idle_def part_def Connection_halts)

text \<open>The lines that the loop sees: those of the input, and from its end on the last one again, if
  it lacks its newline, or empty ones.\<close>

lemma idle_Nil [simp]: "idle []"
  by (simp add: idle_def starts_with_def bytes_of_def)

definition idle_input :: "istream \<Rightarrow> bytes \<Rightarrow> bool" where
  "idle_input stm line \<longleftrightarrow>
     (if good stm then \<forall>l \<in> set (split_line (chars stm) 10). idle l else idle line)"

lemma idle_input_step:
  assumes "idle_input stm line" and g: "std_getline 10 stm line = (b, l, stm')"
  shows "idle l \<and> idle_input stm' l"
proof (cases "good stm")
  case False
  then show ?thesis using assms by (auto simp: std_getline_def idle_input_def)
next
  case good: True
  then have lines: "\<forall>l \<in> set (split_line (chars stm) 10). idle l"
    using assms(1) by (simp add: idle_input_def)
  show ?thesis
  proof (cases "(10 :: byte) \<in> set (chars stm)")
    case True
    then obtain t r where c: "chars stm = t @ 10 # r" "10 \<notin> set t" by (meson split_list_first)
    then have "takeWhile (\<lambda>b. b \<noteq> 10) (chars stm) = t" "dropWhile (\<lambda>b. b \<noteq> 10) (chars stm) = 10 # r"
      by (auto simp: takeWhile_append dropWhile_append)
    then have "l = t" "stm' = \<lparr>chars = r, good = True\<rparr>"
      using g good by (auto simp: std_getline_def)
    then show ?thesis using lines c by (simp add: split_line_step idle_input_def)
  next
    case False
    then have t: "takeWhile (\<lambda>b. b \<noteq> 10) (chars stm) = chars stm"
      and dw: "dropWhile (\<lambda>b. b \<noteq> 10) (chars stm) = []"
      by (auto simp: takeWhile_eq_all_conv dropWhile_eq_Nil_conv)
    have "l = chars stm" "stm' = \<lparr>chars = [], good = False\<rparr>"
      using g good by (auto simp: std_getline_def t dw Let_def)
    then show ?thesis
      using lines False by (cases "chars stm = []") (auto simp: split_line_last idle_input_def)
  qed
qed

lemma repl_idle_forever:
  assumes "idle_input stm line"
  shows "repl cn stm line s out = None"
proof (rule ccontr)
  assume "repl cn stm line s out \<noteq> None"
  then obtain y where "repl cn stm line s out = Some y" by auto
  then have "\<not> idle_input stm line"
  proof (rule repl.raw_induct [where P = "\<lambda>cn stm line s out y. \<not> idle_input stm line", rotated])
    fix repl' cn stm line s out y
    assume IH: "\<And>cn stm line s out y. repl' cn stm line s out = Some y \<Longrightarrow> \<not> idle_input stm line"
      and run: "(let (uu, line, stm) = std_getline 10 stm line in
        case repl_line cn line s of Inl h \<Rightarrow> Some (Inl h)
        | Inr (None, o1, s) \<Rightarrow> repl' cn stm line s (out @ o1)
        | Inr (Some e, o1, s) \<Rightarrow> Some (Inr (e, out @ o1))) = Some y"
    obtain b l stm' where g: "std_getline 10 stm line = (b, l, stm')"
      by (cases "std_getline 10 stm line")
    show "\<not> idle_input stm line"
    proof
      assume "idle_input stm line"
      from idle_input_step [OF this g] run g IH [of cn stm' l] show False
        by (auto simp: repl_line_idle)
    qed
  qed
  then show False using assms by simp
qed

text \<open>How an input goes on behind a line.\<close>

lemma repl_step:
  assumes "10 \<notin> set t"
  shows "repl cn \<lparr>chars = t @ 10 # r, good = True\<rparr> line s out =
    (case repl_line cn t s of
        Inl h \<Rightarrow> Some (Inl h)
      | Inr (Some e, o1, s) \<Rightarrow> Some (Inr (e, out @ o1))
      | Inr (None, o1, s) \<Rightarrow> repl cn \<lparr>chars = r, good = True\<rparr> t s (out @ o1))"
proof -
  have "takeWhile (\<lambda>b. b \<noteq> 10) (t @ 10 # r) = t" "dropWhile (\<lambda>b. b \<noteq> 10) (t @ 10 # r) = 10 # r"
    using assms by (auto simp: takeWhile_append dropWhile_append)
  then have "std_getline 10 \<lparr>chars = t @ 10 # r, good = True\<rparr> line = (True, t, \<lparr>chars = r, good = True\<rparr>)"
    by (simp add: std_getline_def)
  then show ?thesis by (subst repl.simps) simp
qed

lemma repl_last:
  assumes "10 \<notin> set cs" and "\<not> idle cs"
  shows "repl cn \<lparr>chars = cs, good = True\<rparr> line s out =
    (case repl_line cn cs s of
        Inl h \<Rightarrow> Some (Inl h)
      | Inr (Some e, o1, s) \<Rightarrow> Some (Inr (e, out @ o1))
      | Inr (None, o1, s) \<Rightarrow> repl cn \<lparr>chars = [], good = False\<rparr> cs s (out @ o1))"
proof -
  have t: "takeWhile (\<lambda>b. b \<noteq> 10) cs = cs" and dw: "dropWhile (\<lambda>b. b \<noteq> 10) cs = []"
    using assms(1) by (auto simp: takeWhile_eq_all_conv dropWhile_eq_Nil_conv)
  have "std_getline 10 \<lparr>chars = cs, good = True\<rparr> line = (cs \<noteq> [], cs, \<lparr>chars = [], good = False\<rparr>)"
    by (simp add: std_getline_def t dw Let_def)
  then show ?thesis by (subst repl.simps) simp
qed

text \<open>How the run of the client ends, by the first line that is a command.\<close>

definition ends_with :: "(int \<times> bytes) result option \<Rightarrow> bytes list \<Rightarrow> bool" where
  "ends_with run lines \<longleftrightarrow>
     (case filter (\<lambda>l. \<not> idle l) lines of
        [] \<Rightarrow> run = None
      | l # _ \<Rightarrow> if starts_with l ''quit'' then \<exists>o1. run = Some (Inr (0, o1))
          else run = Some (Inl NullDeref) \<or> run = Some (Inl OutOfBounds))"

lemma repl_ends: "ends_with (repl cn \<lparr>chars = input, good = True\<rparr> line s out) (split_line input 10)"
proof (induction "length input" arbitrary: input line out rule: less_induct)
  case less
  show ?case
  proof (cases "(10 :: byte) \<in> set input")
    case True
    then obtain t r where input: "input = t @ 10 # r" "10 \<notin> set t" by (meson split_list_first)
    then have IH: "ends_with (repl cn \<lparr>chars = r, good = True\<rparr> l s o1) (split_line r 10)" for l o1
      by (intro less) simp
    show ?thesis
    proof (cases "idle t")
      case True
      then show ?thesis
        using IH by (simp add: input repl_step split_line_step repl_line_idle ends_with_def)
    next
      case False
      then show ?thesis
        using repl_line_command [OF False, of cn s]
        by (auto simp: input repl_step split_line_step ends_with_def)
    qed
  next
    case no_newline: False
    show ?thesis
    proof (cases "idle input")
      case True
      then have "idle_input \<lparr>chars = input, good = True\<rparr> line"
        using no_newline by (cases "input = []") (auto simp: idle_input_def split_line_last)
      then show ?thesis
        using True no_newline by (cases "input = []")
          (auto simp: repl_idle_forever ends_with_def split_line_last)
    next
      case False
      moreover from this have "input \<noteq> []" by auto
      ultimately show ?thesis
        using repl_line_command [OF False, of cn s] no_newline
        by (auto simp: repl_last split_line_last ends_with_def)
    qed
  qed
qed

text \<open>C28: What becomes of the interactive client, for every input: lines that are no command are
  answered with a message; the first one that is ends the client. \<^verbatim>\<open>quit\<close> ends it with
  exit code 0; every other command, with enough words or without, crashes it, on the null buffer
  of the packet or on the missing word. If there is no command in the input the client never
  ends: at the end of its input it goes on printing the message.\<close>

theorem client_main_ends:
  assumes "0 \<le> SockConnectTo (dials server_addr port)"
  shows "case filter (\<lambda>l. \<not> idle l) (split_line stdin 10) of
      [] \<Rightarrow> client_main dials msg server_addr port stdin net = None
    | l # _ \<Rightarrow>
        if starts_with l ''quit'' then \<exists>o1. client_main dials msg server_addr port stdin net = Some (Inr (0, o1))
        else client_main dials msg server_addr port stdin net = Some (Inl NullDeref) \<or>
          client_main dials msg server_addr port stdin net = Some (Inl OutOfBounds)"
proof -
  have "client_main dials msg server_addr port stdin net =
      repl (Connection_new (SockConnectTo (dials server_addr port))) \<lparr>chars = stdin, good = True\<rparr> [] net (Show (bytes_of ''Welcome to SQPKV''))"
    using assms by (simp add: client_main_def ConnectTo_def err_def Status_Ok_def)
  then show ?thesis using repl_ends [where input = stdin] by (simp only: ends_with_def)
qed

lemma client_main_ends_witness:
  "client_main (\<lambda>_ _. \<lparr>dial_socket = 3, dial_host = Some [1], dial_connect = 0\<rparr>) [] FLAGS_server_addr
     FLAGS_server_port [104, 105] (\<lambda>_. fresh_socket) = None"
proof -
  have "idle [104, 105]" by (simp add: idle_def starts_with_def bytes_of_def)
  moreover have "split_line [104, 105] 10 = [[104, 105 :: byte]]" by (rule split_line_last) simp_all
  ultimately show ?thesis
    using client_main_ends [of "\<lambda>_ _. \<lparr>dial_socket = 3, dial_host = Some [1], dial_connect = 0\<rparr>"
        FLAGS_server_addr FLAGS_server_port "[]" "[104, 105]" "\<lambda>_. fresh_socket"]
    by (simp add: SockConnectTo_def)
qed

end
