(* ===== verification/Sqpkv_Cluster.thy ===== *)
theory Sqpkv_Cluster
  imports Sqpkv_Proxy
begin

text \<open>
  The proxy in front of its shards: the thread of the proxy
  (\<^verbatim>\<open>src/server/sharding_proxy_worker.cc\<close>) composed with the request handlers of the
  shards (\<^verbatim>\<open>src/server/kv_request_handler.cc\<close>), each on a store of its own, against the
  specification of a single store.
\<close>

section \<open>One map in many stores\<close>

text \<open>The map that several stores hold together: each key as the store that is responsible for it has
  it.\<close>

definition union_map :: "(bytes \<Rightarrow> int result) \<Rightarrow> ('d \<Rightarrow> bytes \<rightharpoonup> bytes) \<Rightarrow> (int \<Rightarrow> 'd) \<Rightarrow> bytes \<rightharpoonup> bytes" where
  "union_map owner M ds k = (case owner k of Inl h \<Rightarrow> None | Inr i \<Rightarrow> M (ds i) k)"

lemma union_map_at: "owner k = Inr i \<Longrightarrow> union_map owner M ds k = M (ds i) k"
  by (simp add: union_map_def)

lemma union_map_store:
  assumes "owner k = Inr i" and "\<forall>x. x \<noteq> k \<longrightarrow> M e x = M (ds i) x"
  shows "union_map owner M (ds(i := e)) = (union_map owner M ds)(k := M e k)"
  using assms by (auto simp: union_map_def fun_eq_iff split: sum.splits)

text \<open>A keyed command on the store of its key is that command on the map of all stores.\<close>

lemma union_map_step:
  assumes "kv_spec (M (ds i)) c r (M e)" and "command_key c = Some k" and "owner k = Inr i"
  shows "kv_spec (union_map owner M ds) c r (union_map owner M (ds(i := e)))"
proof -
  have at: "union_map owner M ds k = M (ds i) k" using assms(3) by (rule union_map_at)
  have same: "union_map owner M (ds(i := e)) = union_map owner M ds" if "M e = M (ds i)"
    using union_map_store [where owner = owner and M = M and e = e and ds = ds, OF assms(3)] that at
    by (metis fun_upd_triv)
  have changed: "union_map owner M (ds(i := e)) = (union_map owner M ds)(k := y)"
    if "M e = (M (ds i))(k := y)" for y
    using union_map_store [where owner = owner and M = M and e = e and ds = ds, OF assms(3)] that by simp
  show ?thesis
  proof (cases c)
    case (Get k')
    then show ?thesis using assms(1,2) at same by (auto elim!: kv_spec_GetE intro: kv_spec.intros)
  next
    case (Put k' v)
    then show ?thesis
      using assms(1,2) same changed by (auto elim!: kv_spec_PutE simp: kv_spec_simps)
  next
    case (Delete k')
    then show ?thesis
      using assms(1,2) same changed by (auto elim!: kv_spec_DeleteE simp: kv_spec_simps)
  next
    case (GetAll q)
    then show ?thesis using assms(2) by simp
  qed
qed

text \<open>The server the proxy sends a key to, and the map of the servers behind one proxy.\<close>

definition route :: "proxy \<Rightarrow> bytes \<Rightarrow> int result" where
  "route p k = bindR (GetShardId (num_nodes p) k) (server_at (shard_servers p))"

abbreviation cluster_map :: "proxy \<Rightarrow> ('d \<Rightarrow> bytes \<rightharpoonup> bytes) \<Rightarrow> (int \<Rightarrow> 'd) \<Rightarrow> bytes \<rightharpoonup> bytes" where
  "cluster_map p \<equiv> union_map (route p)"

section \<open>A session through the proxy\<close>

text \<open>A reply is read as a response, whatever the padding behind it.\<close>

definition reads_as :: "bytes \<Rightarrow> response \<Rightarrow> bool" where
  "reads_as reply r \<longleftrightarrow> 
     (\<exists>q. (\<forall>z. CreateResponsePacket (reply @ z) = Inr (Some q)) \<and> packet_response q = response_norm r)"

text \<open>What the proxy relies on: a shard answers a command by a step of the specification on its store,
  whatever store keeps the contract, and a keyed command with bytes that read as the response of that step.\<close>

locale shard_backend =
  fixes answers :: "'d rocksdb \<Rightarrow> 'd \<Rightarrow> command \<Rightarrow> bytes \<Rightarrow> 'd \<Rightarrow> bool"
  assumes answer_spec: "rocksdb_contract ops I M \<Longrightarrow> I d \<Longrightarrow> wf_command c \<Longrightarrow>
    answers ops d c reply d' \<Longrightarrow>
    \<exists>r. kv_spec (M d) c r (M d') \<and> I d' \<and> (command_key c \<noteq> None \<longrightarrow> reads_as reply r)"

text \<open>A client's session: the network brings the client's command to the proxy, and to the client's
  thread, from the server of the key, what that server answers. The log holds the commands, the
  servers and the replies.\<close>

inductive served ::
  "('d \<Rightarrow> command \<Rightarrow> bytes \<Rightarrow> 'd \<Rightarrow> bool) \<Rightarrow> proxy \<Rightarrow> net \<Rightarrow> (int \<Rightarrow> 'd) \<Rightarrow> (command \<times> int \<times> bytes) list
     \<Rightarrow> net \<Rightarrow> (int \<Rightarrow> 'd) \<Rightarrow> bool"
  for answers :: "'d \<Rightarrow> command \<Rightarrow> bytes \<Rightarrow> 'd \<Rightarrow> bool" and p :: proxy where
  served_close: "is_open (net (clientfd p)) \<Longrightarrow> inq (net (clientfd p)) = Hangup # q \<Longrightarrow>
     served answers p net ds [] net ds"
| served_exchange:
    "wf_command c \<Longrightarrow> command_key c = Some k \<Longrightarrow> GetShardId (num_nodes p) k = Inr i \<Longrightarrow>
     server_at (shard_servers p) i = Inr fd \<Longrightarrow> fd \<noteq> clientfd p \<Longrightarrow>
     ready (net (clientfd p)) (encode_command c) cq \<Longrightarrow> answers (ds fd) c reply d' \<Longrightarrow>
     ready (net fd) reply q \<Longrightarrow>
     served answers p (net(clientfd p := exchanged (net (clientfd p)) cq reply,
                  fd := exchanged (net fd) q (encode_command c))) (ds(fd := d')) es net' ds' \<Longrightarrow>
     served answers p net ds ((c, fd, reply) # es) net' ds'"

lemma served_relay: "served answers p net ds es net' ds' \<Longrightarrow> relay p net es net'"
proof (induction rule: served.induct)
  case (served_exchange c k i fd net cq ds reply d' q es net' ds')
  then show ?case by (intro relay_exchange [OF served_exchange.hyps(1-6,8)])
qed (rule relay_close)

context shard_backend
begin

lemma served_run:
  assumes "rocksdb_contract ops I M"
  shows "served (answers ops) p net ds es net' ds' \<Longrightarrow> \<forall>fd. I (ds fd) \<Longrightarrow>
    (\<forall>fd. I (ds' fd)) \<and>
    (\<exists>rs. list_all2 reads_as (map (\<lambda>(c, fd, reply). reply) es) rs \<and>
      kv_run (cluster_map p M ds) (zip (map fst es) rs) (cluster_map p M ds'))"
proof (induction rule: served.induct)
  case (served_close net q ds)
  then show ?case by (auto intro: run_done)
next
  case (served_exchange c k i fd net cq ds reply d' q es net' ds')
  have "I (ds fd)" using served_exchange.prems by simp
  from answer_spec [OF assms this served_exchange.hyps(1,7)] served_exchange.hyps(2) obtain r where
    r: "kv_spec (M (ds fd)) c r (M d')" "I d'" "reads_as reply r"
    by auto
  have "route p k = Inr fd" using served_exchange.hyps(3,4) by (simp add: route_def)
  from union_map_step [where ds = ds and M = M and i = fd and e = d' and owner = "route p", OF r(1) served_exchange.hyps(2) this]
  have step: "kv_spec (cluster_map p M ds) c r (cluster_map p M (ds(fd := d')))" .
  have "\<forall>x. I ((ds(fd := d')) x)" using served_exchange.prems r(2) by simp
  from served_exchange.IH [OF this] obtain rs where
    rs: "\<forall>fd. I (ds' fd)" "list_all2 reads_as (map (\<lambda>(c, fd, reply). reply) es) rs"
      "kv_run (cluster_map p M (ds(fd := d'))) (zip (map fst es) rs) (cluster_map p M ds')"
    by blast
  then show ?case
    using step r(3) by (auto intro!: exI [of _ "r # rs"] run_step)
qed

lemma session_refines:
  assumes "rocksdb_contract ops I M" and "\<forall>fd. I (ds fd)" and "served (answers ops) p net ds es net' ds'"
  shows "ShardingProxyWorker_HandleClient p net = Inr (Status_Ok, net') \<and>
    outq (net' (clientfd p)) = outq (net (clientfd p)) @ concat (map (\<lambda>(c, fd, reply). packet_chunks reply) es) \<and>
    (\<forall>fd. I (ds' fd)) \<and>
    (\<exists>rs. list_all2 reads_as (map (\<lambda>(c, fd, reply). reply) es) rs \<and>
      kv_run (cluster_map p M ds) (zip (map fst es) rs) (cluster_map p M ds') \<and>
      cluster_map p M ds' = fold effect (zip (map fst es) rs) (cluster_map p M ds))"
proof -
  note relay = served_relay [OF assms(3)]
  from served_run [OF assms(1,3,2)] obtain rs where
    rs: "\<forall>fd. I (ds' fd)" "list_all2 reads_as (map (\<lambda>(c, fd, reply). reply) es) rs"
      "kv_run (cluster_map p M ds) (zip (map fst es) rs) (cluster_map p M ds')"
    by blast
  then show ?thesis
    using relay_HandleClient [OF relay] relay_outputs [OF relay] kv_run_effects [OF rs(3)] by blast
qed

end

section \<open>The request handlers as shards\<close>

text \<open>The answer of a shard is what its request handler reports in a registered buffer, whatever the
  buffers held before.\<close>

definition kv_answers :: "'d rocksdb \<Rightarrow> 'd \<Rightarrow> command \<Rightarrow> bytes \<Rightarrow> 'd \<Rightarrow> bool" where
  "kv_answers ops d c reply d' \<longleftrightarrow>
     (\<exists>rest out n out'. length out = kMaxBufferSize \<and> n \<le> length out \<and> reply = take n out' \<and>
        KvRequestHandler_HandleReadCompletion ops d (encode_command c @ rest) out =
          Inr (StatusOr_ptr (Some n), out', d'))"

lemma kv_answers_spec:
  assumes "rocksdb_contract ops I M" and "I d" and "wf_command c" and "kv_answers ops d c reply d'"
  shows "\<exists>r. kv_spec (M d) c r (M d') \<and> I d' \<and> (command_key c \<noteq> None \<longrightarrow> reads_as reply r)"
proof -
  from assms(4) obtain rest out n out' where h: "length out = kMaxBufferSize" "n \<le> length out"
    "reply = take n out'" "KvRequestHandler_HandleReadCompletion ops d (encode_command c @ rest) out =
      Inr (StatusOr_ptr (Some n), out', d')"
    by (auto simp: kv_answers_def)
  from kv_handler_reply [OF assms(1-3) h(1,4,2)] obtain r where
    r: "kv_spec (M d) c r (M d')" "I d'" "\<not> is_getall r \<longrightarrow> reply = encode_response r \<and> wf_response r"
    unfolding h(3) by blast
  have "reads_as reply r" if "command_key c \<noteq> None"
  proof -
    have "\<not> is_getall r" using kv_spec_getall [OF r(1)] that by (cases c) auto
    then show ?thesis
      using r(3) CreateResponsePacket_encode [of r]
      by (auto simp: reads_as_def packet_response_object received_resp_def)
  qed
  then show ?thesis using r by blast
qed

interpretation kv_shards: shard_backend kv_answers
  by unfold_locales (rule kv_answers_spec)

text \<open>C6: The sharded store refines a single store. A client that talks to the proxy, whose shards
  answer with their request handlers, each on a store of its own, cannot tell them from one
  store: the thread handles the session and returns ok; the replies the client gets, in order,
  read as the responses of a run of the specification on one map, the union of what the shards
  hold for their keys, and that run ends with the union of what the shards hold afterwards.\<close>

theorem sharded_store_refines:
  assumes "rocksdb_contract ops I M" and "\<forall>fd. I (ds fd)" and "served (kv_answers ops) p net ds es net' ds'"
  shows "ShardingProxyWorker_HandleClient p net = Inr (Status_Ok, net') \<and>
    outq (net' (clientfd p)) = outq (net (clientfd p)) @ concat (map (\<lambda>(c, fd, reply). packet_chunks reply) es) \<and>
    (\<forall>fd. I (ds' fd)) \<and>
    (\<exists>rs. list_all2 reads_as (map (\<lambda>(c, fd, reply). reply) es) rs \<and>
      kv_run (cluster_map p M ds) (zip (map fst es) rs) (cluster_map p M ds') \<and>
      cluster_map p M ds' = fold effect (zip (map fst es) rs) (cluster_map p M ds))"
  using kv_shards.session_refines [OF assms] .

text \<open>A proxy of two shards, of which the first holds the key \<open>_3\<close>.\<close>

definition example_stores :: "int \<Rightarrow> mem" where
  "example_stores = (\<lambda>fd. if fd = 5 then [([95, 51], [118])] else [])"

definition example_session :: net where
  "example_session = (\<lambda>_. fresh_socket)
     (4 := fresh_socket\<lparr>inq := map Segment (packet_chunks (encode_command (Get [95, 51]))) @ [Hangup]\<rparr>,
      5 := fresh_socket\<lparr>inq := map Segment (packet_chunks (encode_response (RGet Status_Ok [118]))) @ []\<rparr>)"

lemma example_shard_of: "GetShardId 2 [95, 51] = Inr 1"
proof -
  have "ExtractKey ([] @ underscore # to_string 3 @ []) = Inr (int 3)"
    by (rule ExtractKey_to_string) simp_all
  then show ?thesis by (simp add: GetShardId_def underscore_def smod_int_alt_def to_string.simps)
qed

lemma example_answer:
  "kv_answers mem_db [([95, 51], [118])] (Get [95, 51]) (encode_response (RGet Status_Ok [118])) [([95, 51], [118])]"
proof -
  let ?c = "Get [95, 51]" and ?b = "replicate kMaxBufferSize (0 :: byte)" and ?r = "encode_response (RGet Status_Ok [118])"
  have out: "take 17 (fill ?b ?r) = ?r" by (rule take_fill) (simp add: length_encode_response)
  have "KvRequestHandler_HandleReadCompletion mem_db [([95, 51], [118])] (encode_command ?c @ []) ?b =
      Inr (StatusOr_ptr (Some 17), fill ?b ?r, [([95, 51], [118])])"
    using kv_handler_eq [of ?c ?b mem_db "[([95, 51], [118])]" "[]"]
    by (simp add: kMaxBufferSize_eq mem_db_def mem_get_def rocks_ok_def wf_command_def
        response_written_def length_encode_response is_getall_def)
  then show ?thesis
    unfolding kv_answers_def using out
    by (intro exI [of _ "[]"] exI [of _ ?b] exI [of _ 17] exI [of _ "fill ?b ?r"]) (simp add: kMaxBufferSize_eq)
qed

lemma example_served:
  "\<exists>net' ds'. served (kv_answers mem_db) (ShardingProxyWorker_new 4 [5, 6]) example_session example_stores
     [(Get [95, 51], 5, encode_response (RGet Status_Ok [118]))] net' ds'"
proof -
  let ?p = "ShardingProxyWorker_new 4 [5, 6]" and ?c = "Get [95, 51]" and ?r = "encode_response (RGet Status_Ok [118])"
  let ?net = "example_session(clientfd ?p := exchanged (example_session (clientfd ?p)) [Hangup] ?r,
      5 := exchanged (example_session 5) [] (encode_command ?c))"
  let ?ds = "example_stores(5 := [([95, 51], [118])])"
  have shard: "GetShardId (num_nodes ?p) [95, 51] = Inr 1"
    using example_shard_of by (simp add: ShardingProxyWorker_new_def)
  have server: "server_at (shard_servers ?p) 1 = Inr 5" by (simp add: server_at_def ShardingProxyWorker_new_def)
  have wf: "wf_command ?c" by (simp add: wf_command_def)
  have answer: "kv_answers mem_db (example_stores 5) ?c ?r [([95, 51], [118])]"
    using example_answer by (simp add: example_stores_def)
  have ready: "ready (example_session (clientfd ?p)) (encode_command ?c) [Hangup]" "ready (example_session 5) ?r []"
    by (simp_all add: ready_def example_session_def ShardingProxyWorker_new_def)
  have "served (kv_answers mem_db) ?p ?net ?ds [] ?net ?ds"
    by (rule served_close) (simp_all add: exchanged_def example_session_def ShardingProxyWorker_new_def)
  from served_exchange [OF wf _ shard server _ ready(1) answer ready(2) this]
  show ?thesis by (auto simp: ShardingProxyWorker_new_def)
qed

lemma sharded_store_refines_witness:
  "\<exists>net' ds' r. ShardingProxyWorker_HandleClient (ShardingProxyWorker_new 4 [5, 6]) example_session =
      Inr (Status_Ok, net') \<and>
     kv_run (cluster_map (ShardingProxyWorker_new 4 [5, 6]) map_of example_stores) [(Get [95, 51], r)]
       (cluster_map (ShardingProxyWorker_new 4 [5, 6]) map_of ds')"
proof -
  have good: "\<forall>fd. mem_good (example_stores fd)" by (simp add: example_stores_def mem_good_def)
  obtain net' ds' where run: "served (kv_answers mem_db) (ShardingProxyWorker_new 4 [5, 6]) example_session example_stores
     [(Get [95, 51], 5, encode_response (RGet Status_Ok [118]))] net' ds'"
    using example_served by blast
  note session = sharded_store_refines [OF mem_db_contract good run]
  then obtain r where "kv_run (cluster_map (ShardingProxyWorker_new 4 [5, 6]) map_of example_stores)
      [(Get [95, 51], r)] (cluster_map (ShardingProxyWorker_new 4 [5, 6]) map_of ds')"
    by (auto simp del: effect.simps fold_simps simp: list_all2_Cons1)
  then show ?thesis using session by blast
qed

end
