(* ===== verification/Sqpkv_Relay.thy ===== *)
theory Sqpkv_Relay
  imports Sqpkv_Cluster
begin

text \<open>
  The thread of the proxy (\<^verbatim>\<open>ShardingProxyWorker::HandleClient\<close> in
  \<^verbatim>\<open>src/server/sharding_proxy_worker.cc\<close>) in small steps, one for each call that may
  wait for the network, so that the threads of several clients can interleave; and the proof that
  a thread that is left alone does what the function does.
\<close>

section \<open>Steps of a thread\<close>

text \<open>Where a thread is: at the head of the loop; with a command whose key has to be looked up; with
  a command that its server has been sent, waiting for the answer; with a GetAll; with a GetAll that
  all servers have been sent, the servers whose answers are missing and the keys so far; or behind
  the loop, with the status it left it with.\<close>

datatype proxy_thread =
    Awaiting
  | Dispatching bytes bytes
  | Relaying int
  | Collecting bytes
  | Gathering "int list" "bytes list"
  | Ended status

fun proxy_thread_step :: "proxy \<Rightarrow> proxy_thread \<Rightarrow> net \<Rightarrow> (proxy_thread \<times> net) result" where
  "proxy_thread_step p Awaiting net =
     bindR (ReadFromClient (net (clientfd p))) (\<lambda>(packet, s).
     let net = net(clientfd p := s) in
     if err (so_status packet) then Inr (Ended Status_Ok, net)
     else if eof (so_status packet) then Inr (Ended Status_Ok, net)
     else bindR (so_deref packet) (\<lambda>pk.
       bindR (ToBinary (command_base pk)) (\<lambda>data.
       case pk of
         GetPacket b key \<Rightarrow> Inr (Dispatching key data, net)
       | PutPacket b key value \<Rightarrow> Inr (Dispatching key data, net)
       | DeletePacket b key \<Rightarrow> Inr (Dispatching key data, net)
       | GetAllPacket b pre \<Rightarrow> Inr (Collecting data, net))))"
| "proxy_thread_step p (Dispatching key data) net =
     bindR (GetShardId (num_nodes p) key) (\<lambda>shard_id.
     bindR (server_at (shard_servers p) shard_id) (\<lambda>serverfd.
     bindR (SendPacket_data data (net serverfd)) (\<lambda>(st, s).
     Inr (if err st then Ended st else Relaying serverfd, net(serverfd := s)))))"
| "proxy_thread_step p (Relaying serverfd) net =
     bindR (ForwardPacket serverfd (clientfd p) net) (\<lambda>(st, net).
     Inr (if ok st then Awaiting else Ended st, net))"
| "proxy_thread_step p (Collecting data) net =
     bindR (send_all (shard_servers p) data net) (\<lambda>(st, net).
     Inr (if \<not> ok st then Ended st else Gathering (shard_servers p) [], net))"
| "proxy_thread_step p (Gathering [] keys) net =
     bindR (GetAllResponsePacket_new Status_Ok keys None) (\<lambda>(resp, _).
     bindR (SendPacket (response_base resp) (net (clientfd p))) (\<lambda>(st, s).
     Inr (if ok st then Awaiting else Ended st, net(clientfd p := s))))"
| "proxy_thread_step p (Gathering (serverfd # fds) keys) net =
     bindR (ReadFromServer (net serverfd)) (\<lambda>(resp, s).
     let net = net(serverfd := s) in
     if \<not> ok (so_status resp) then Inr (Ended (so_status resp), net)
     else bindR (so_deref resp) (\<lambda>r.
       case r of
         GetAllResponsePacket rp ks \<Rightarrow> Inr (Gathering fds (AddKeys ks keys), net)
       | _ \<Rightarrow> Inl TypeConfusion))"
| "proxy_thread_step p (Ended st) net = Inr (Ended st, net)"

inductive proxy_moves :: "proxy \<Rightarrow> proxy_thread \<times> net \<Rightarrow> proxy_thread \<times> net \<Rightarrow> bool"
  for p :: proxy where
  move: "\<forall>st. t \<noteq> Ended st \<Longrightarrow> proxy_thread_step p t net = Inr c \<Longrightarrow> proxy_moves p (t, net) c"

inductive_cases proxy_movesE: "proxy_moves p (t, net) c"
inductive_simps proxy_moves_simp: "proxy_moves p (t, net) c"

lemma moves_from:
  "proxy_moves p (Awaiting, net) c \<longleftrightarrow> proxy_thread_step p Awaiting net = Inr c"
  "proxy_moves p (Dispatching key data, net) c \<longleftrightarrow> proxy_thread_step p (Dispatching key data) net = Inr c"
  "proxy_moves p (Relaying fd, net) c \<longleftrightarrow> proxy_thread_step p (Relaying fd) net = Inr c"
  "proxy_moves p (Collecting data, net) c \<longleftrightarrow> proxy_thread_step p (Collecting data) net = Inr c"
  "proxy_moves p (Gathering fds keys, net) c \<longleftrightarrow> proxy_thread_step p (Gathering fds keys) net = Inr c"
  "\<not> proxy_moves p (Ended st, net) c"
  by (simp_all add: proxy_moves_simp del: proxy_thread_step.simps)

section \<open>A thread alone\<close>

text \<open>How a thread can come to rest: behind the loop, or in a call that does not return.\<close>

definition rests :: "proxy \<Rightarrow> proxy_thread \<times> net \<Rightarrow> (status \<times> net) result \<Rightarrow> bool" where
  "rests p = (\<lambda>(t, net) r. case r of
     Inl h \<Rightarrow> proxy_thread_step p t net = Inl h
   | Inr (st, net') \<Rightarrow> t = Ended st \<and> net = net')"

lemma rests_stuck: "rests p c r \<Longrightarrow> \<not> proxy_moves p c c'"
  by (cases c; cases r) (auto simp: rests_def elim!: proxy_movesE)

lemma rests_unique: "rests p c r \<Longrightarrow> rests p c r' \<Longrightarrow> r = r'"
  by (cases c; cases r; cases r') (auto simp: rests_def)

lemma moves_det: "proxy_moves p c c' \<Longrightarrow> proxy_moves p c c'' \<Longrightarrow> c' = c''"
  by (cases c) (auto elim!: proxy_movesE)

lemma moves_confluent:
  assumes "(proxy_moves p)\<^sup>*\<^sup>* c d" and "rests p d r"
    and "(proxy_moves p)\<^sup>*\<^sup>* c d'" and "rests p d' r'"
  shows "r' = r"
  using assms(1,3)
proof (induction rule: converse_rtranclp_induct)
  case base
  then show ?case by (metis assms(2,4) converse_rtranclpE rests_stuck rests_unique)
next
  case (step c e)
  from step.prems show ?case
  proof (cases rule: converse_rtranclpE)
    case base
    then show ?thesis using step.hyps(1) assms(4) rests_stuck by blast
  next
    case (step e')
    then show ?thesis using moves_det [OF \<open>proxy_moves p c e\<close>] \<open>(proxy_moves p)\<^sup>*\<^sup>* e d' \<Longrightarrow> r' = r\<close> by blast
  qed
qed

lemma err_not_ok: "err st \<Longrightarrow> \<not> ok st"
  by (simp add: err_def ok_def)

lemma dispatch_fwd:
  "DispatchPacket p key data net = bindR (proxy_thread_step p (Dispatching key data) net)
     (\<lambda>(t, n). case t of Relaying fd \<Rightarrow> ForwardPacket fd (clientfd p) n | Ended st \<Rightarrow> Inr (st, n))"
  by (auto simp: DispatchPacket_def bindR_def Let_def split: sum.splits prod.splits)

lemma dispatch_first:
  assumes "proxy_thread_step p (Dispatching key data) net = Inr (t, n)"
  obtains fd where "t = Relaying fd" | st where "t = Ended st" and "err st"
  using assms by (auto simp: result_simps split: if_splits)

lemma dispatch_steps_ok:
  assumes "DispatchPacket p key data net = Inr (st, net')"
  shows "(proxy_moves p)\<^sup>*\<^sup>* (Dispatching key data, net) (if ok st then Awaiting else Ended st, net')"
proof -
  from assms obtain t n where tn: "proxy_thread_step p (Dispatching key data) net = Inr (t, n)"
    by (auto simp: dispatch_fwd result_simps simp del: proxy_thread_step.simps)
  then have s1: "proxy_moves p (Dispatching key data, net) (t, n)"
    by (simp add: moves_from del: proxy_thread_step.simps)
  from tn show ?thesis
  proof (cases rule: dispatch_first)
    case (1 fd)
    then have "ForwardPacket fd (clientfd p) n = Inr (st, net')"
      using assms tn by (simp add: dispatch_fwd del: proxy_thread_step.simps)
    then have "proxy_moves p (t, n) (if ok st then Awaiting else Ended st, net')"
      using 1 by (simp add: moves_from)
    then show ?thesis using s1 by simp
  next
    case (2 st1)
    then show ?thesis
      using assms tn s1 err_not_ok by (auto simp: dispatch_fwd simp del: proxy_thread_step.simps)
  qed
qed

lemma dispatch_steps_halt:
  assumes "DispatchPacket p key data net = Inl h"
  shows "\<exists>d. (proxy_moves p)\<^sup>*\<^sup>* (Dispatching key data, net) d \<and> rests p d (Inl h)"
proof (cases "proxy_thread_step p (Dispatching key data) net")
  case (Inl h')
  then have "rests p (Dispatching key data, net) (Inl h)"
    using assms by (simp add: rests_def dispatch_fwd del: proxy_thread_step.simps)
  then show ?thesis by blast
next
  case (Inr c)
  obtain t n where c: "c = (t, n)" by fastforce
  with Inr have tn: "proxy_thread_step p (Dispatching key data) net = Inr (t, n)" by simp
  then show ?thesis
  proof (cases rule: dispatch_first)
    case (1 fd)
    have "proxy_moves p (Dispatching key data, net) (t, n)"
      using tn by (simp add: moves_from del: proxy_thread_step.simps)
    moreover have "rests p (t, n) (Inl h)"
      using assms tn by (simp add: rests_def dispatch_fwd 1 del: proxy_thread_step.simps(2))
    ultimately show ?thesis by blast
  next
    case (2 st1)
    then show ?thesis using assms tn by (simp add: dispatch_fwd del: proxy_thread_step.simps)
  qed
qed

lemmas dispatch_steps = dispatch_steps_ok dispatch_steps_halt

text \<open>What is left of a GetAll when the servers have been sent it.\<close>

definition getall_rest :: "proxy \<Rightarrow> int list \<Rightarrow> bytes list \<Rightarrow> net \<Rightarrow> (bool \<times> status \<times> net) result" where
  "getall_rest p fds keys net =
     bindR (gather fds keys net) (\<lambda>(st, keys, net).
     if \<not> ok st then Inr (False, st, net)
     else bindR (GetAllResponsePacket_new Status_Ok keys None) (\<lambda>(resp, _).
       bindR (SendPacket (response_base resp) (net (clientfd p))) (\<lambda>(st, s).
       Inr (ok st, st, net(clientfd p := s)))))"

lemma proxy_getall_rest:
  "proxy_getall p data net = bindR (send_all (shard_servers p) data net) (\<lambda>(st, net).
     if \<not> ok st then Inr (False, st, net) else getall_rest p (shard_servers p) [] net)"
  by (simp add: proxy_getall_def getall_rest_def cong: if_cong)

text \<open>The answer is built without a buffer.\<close>

lemma getall_answer_null: "GetAllResponsePacket_new Status_Ok keys None = Inl NullDeref"
  using response_new_null [of "RGetAll Status_Ok keys"] by simp

lemma getall_rest_Nil:
  "getall_rest p [] keys net = Inl NullDeref" "proxy_thread_step p (Gathering [] keys) net = Inl NullDeref"
  by (simp_all add: getall_rest_def getall_answer_null)

lemma getall_rest_Cons:
  "getall_rest p (fd # fds) keys net = bindR (proxy_thread_step p (Gathering (fd # fds) keys) net)
     (\<lambda>(t, net). case t of Ended st \<Rightarrow> Inr (False, st, net) | Gathering fds keys \<Rightarrow> getall_rest p fds keys net)"
  by (auto simp: getall_rest_def bindR_def Let_def split: sum.splits prod.splits response_packet.splits)

text \<open>The rest of a round, once the thread has made its first step.\<close>

lemma gathering_first:
  assumes "proxy_thread_step p (Gathering (fd # fds) keys) net = Inr (t, n)"
  obtains ks where "t = Gathering fds ks" | st where "t = Ended st" and "\<not> ok st"
proof -
  from assms obtain resp s where rd: "ReadFromServer (net fd) = Inr (resp, s)" by (auto simp: result_simps)
  show thesis
  proof (cases "ok (so_status resp)")
    case True
    then obtain r where "so_deref resp = Inr r" using assms rd by (auto simp: result_simps)
    then show ?thesis using assms rd True that(1) by (cases r) auto
  next
    case False
    then show ?thesis using assms rd that(2) by auto
  qed
qed

lemma gathering_steps_ok:
  "getall_rest p fds keys net = Inr (again, st, net') \<Longrightarrow>
     (proxy_moves p)\<^sup>*\<^sup>* (Gathering fds keys, net) (if again then Awaiting else Ended st, net')"
proof (induction fds arbitrary: keys net)
  case Nil
  then show ?case by (simp add: getall_rest_Nil)
next
  case (Cons fd fds)
  then obtain t n where tn: "proxy_thread_step p (Gathering (fd # fds) keys) net = Inr (t, n)"
    by (auto simp: getall_rest_Cons result_simps simp del: proxy_thread_step.simps)
  then have s1: "proxy_moves p (Gathering (fd # fds) keys, net) (t, n)"
    by (simp add: moves_from del: proxy_thread_step.simps)
  from tn show ?case
  proof (cases rule: gathering_first)
    case (1 ks)
    then have "getall_rest p fds ks n = Inr (again, st, net')"
      using Cons.prems tn by (simp add: getall_rest_Cons del: proxy_thread_step.simps)
    from Cons.IH [OF this] s1 1 show ?thesis by (simp add: converse_rtranclp_into_rtranclp)
  next
    case (2 st1)
    then show ?thesis
      using Cons.prems tn s1 by (auto simp: getall_rest_Cons simp del: proxy_thread_step.simps)
  qed
qed

lemma gathering_steps_halt:
  "getall_rest p fds keys net = Inl h \<Longrightarrow> \<exists>d. (proxy_moves p)\<^sup>*\<^sup>* (Gathering fds keys, net) d \<and> rests p d (Inl h)"
proof (induction fds arbitrary: keys net)
  case Nil
  then have "rests p (Gathering [] keys, net) (Inl h)"
    by (simp add: rests_def getall_rest_Nil del: proxy_thread_step.simps)
  then show ?case by blast
next
  case (Cons fd fds)
  show ?case
  proof (cases "proxy_thread_step p (Gathering (fd # fds) keys) net")
    case (Inl h')
    then have "rests p (Gathering (fd # fds) keys, net) (Inl h)"
      using Cons.prems by (simp add: rests_def getall_rest_Cons del: proxy_thread_step.simps)
    then show ?thesis by blast
  next
    case (Inr c)
    obtain t n where "c = (t, n)" by fastforce
    with Inr have tn: "proxy_thread_step p (Gathering (fd # fds) keys) net = Inr (t, n)" by simp
    then have s1: "proxy_moves p (Gathering (fd # fds) keys, net) (t, n)"
      by (simp add: moves_from del: proxy_thread_step.simps)
    from tn show ?thesis
    proof (cases rule: gathering_first)
      case (1 ks)
      then have "getall_rest p fds ks n = Inl h"
        using Cons.prems tn by (simp add: getall_rest_Cons del: proxy_thread_step.simps)
      from Cons.IH [OF this] s1 1 show ?thesis by (meson converse_rtranclp_into_rtranclp)
    next
      case (2 st1)
      then show ?thesis using Cons.prems tn by (simp add: getall_rest_Cons del: proxy_thread_step.simps)
    qed
  qed
qed

lemma collecting_steps_ok:
  assumes "proxy_getall p data net = Inr (again, st, net')"
  shows "(proxy_moves p)\<^sup>*\<^sup>* (Collecting data, net) (if again then Awaiting else Ended st, net')"
proof -
  from assms obtain st1 n where send: "send_all (shard_servers p) data net = Inr (st1, n)"
    and rest: "(if \<not> ok st1 then Inr (False, st1, n) else getall_rest p (shard_servers p) [] n) = Inr (again, st, net')"
    by (auto simp: proxy_getall_rest result_simps)
  then have "proxy_moves p (Collecting data, net)
      (if \<not> ok st1 then Ended st1 else Gathering (shard_servers p) [], n)"
    by (simp add: moves_from)
  then show ?thesis
    using rest gathering_steps_ok [of p "shard_servers p" "[]" n again st net']
    by (auto simp: converse_rtranclp_into_rtranclp split: if_splits)
qed

lemma collecting_steps_halt:
  assumes "proxy_getall p data net = Inl h"
  shows "\<exists>d. (proxy_moves p)\<^sup>*\<^sup>* (Collecting data, net) d \<and> rests p d (Inl h)"
proof (cases "send_all (shard_servers p) data net")
  case (Inl h')
  then have "rests p (Collecting data, net) (Inl h)"
    using assms by (simp add: rests_def proxy_getall_rest)
  then show ?thesis by blast
next
  case (Inr c)
  obtain st n where c: "c = (st, n)" by fastforce
  then have "ok st" "getall_rest p (shard_servers p) [] n = Inl h"
    using assms Inr by (simp_all add: proxy_getall_rest split: if_splits)
  moreover from this have "proxy_moves p (Collecting data, net) (Gathering (shard_servers p) [], n)"
    using Inr c by (simp add: moves_from)
  ultimately show ?thesis
    using gathering_steps_halt by (meson converse_rtranclp_into_rtranclp)
qed

text \<open>One round of the loop is one or several steps of the thread.\<close>

definition round_rest :: "proxy \<Rightarrow> proxy_thread \<times> net \<Rightarrow> (bool \<times> status \<times> net) result" where
  "round_rest p = (\<lambda>(t, net). case t of
     Dispatching key data \<Rightarrow> bindR (DispatchPacket p key data net) (\<lambda>(st, net). Inr (ok st, st, net))
   | Collecting data \<Rightarrow> proxy_getall p data net
   | Ended st \<Rightarrow> Inr (False, st, net))"

lemma round_first:
  "ShardingProxyWorker_round p net = bindR (proxy_thread_step p Awaiting net) (round_rest p)"
  by (auto simp: ShardingProxyWorker_round_def round_rest_def bindR_def Let_def
      split: sum.splits prod.splits command_packet.splits)

lemma first_step_cases:
  assumes "proxy_thread_step p Awaiting net = Inr (t, n)"
  obtains key data where "t = Dispatching key data" | data where "t = Collecting data" | "t = Ended Status_Ok"
proof -
  from assms obtain packet s where rd: "ReadFromClient (net (clientfd p)) = Inr (packet, s)"
    by (auto simp: result_simps)
  show thesis
  proof (cases "err (so_status packet) \<or> eof (so_status packet)")
    case True
    then show ?thesis using assms rd that(3) by (auto simp: Let_def split: if_splits)
  next
    case False
    then obtain pk where "so_deref packet = Inr pk"
      using assms rd by (auto simp: result_simps Let_def)
    then show ?thesis
      using assms rd False that(1,2) by (cases pk) (auto simp: result_simps Let_def)
  qed
qed

lemma round_steps:
  assumes "ShardingProxyWorker_round p net = Inr (again, st, net')"
  shows "(proxy_moves p)\<^sup>*\<^sup>* (Awaiting, net) (if again then Awaiting else Ended st, net')"
proof -
  from assms obtain t n where tn: "proxy_thread_step p Awaiting net = Inr (t, n)"
    and rest: "round_rest p (t, n) = Inr (again, st, net')"
    by (auto simp: round_first result_simps simp del: proxy_thread_step.simps)
  then have s1: "(proxy_moves p)\<^sup>*\<^sup>* (Awaiting, net) (t, n)"
    by (auto simp: moves_from simp del: proxy_thread_step.simps)
  have "(proxy_moves p)\<^sup>*\<^sup>* (t, n) (if again then Awaiting else Ended st, net')"
    using tn
  proof (cases rule: first_step_cases)
    case (1 key data)
    then show ?thesis using rest dispatch_steps(1) [of p key data n st net']
      by (auto simp: round_rest_def result_simps simp del: proxy_thread_step.simps)
  next
    case (2 data)
    then show ?thesis using rest collecting_steps_ok [of p data n again st net'] by (simp add: round_rest_def)
  next
    case 3
    then show ?thesis using rest by (auto simp: round_rest_def)
  qed
  with s1 show ?thesis by (rule rtranclp_trans)
qed

lemma round_halts:
  assumes "ShardingProxyWorker_round p net = Inl h"
  shows "\<exists>d. (proxy_moves p)\<^sup>*\<^sup>* (Awaiting, net) d \<and> rests p d (Inl h)"
proof (cases "proxy_thread_step p Awaiting net")
  case (Inl h')
  then have "rests p (Awaiting, net) (Inl h)"
    using assms by (simp add: rests_def round_first del: proxy_thread_step.simps)
  then show ?thesis by blast
next
  case (Inr c)
  obtain t n where c: "c = (t, n)" by fastforce
  have s1: "(proxy_moves p)\<^sup>*\<^sup>* (Awaiting, net) (t, n)"
    using Inr c by (auto simp: moves_from simp del: proxy_thread_step.simps)
  have rest: "round_rest p (t, n) = Inl h" using assms Inr c by (simp add: round_first del: proxy_thread_step.simps)
  have "\<exists>d. (proxy_moves p)\<^sup>*\<^sup>* (t, n) d \<and> rests p d (Inl h)"
    using Inr [unfolded c]
  proof (cases rule: first_step_cases)
    case (1 key data)
    then show ?thesis using rest dispatch_steps(2) [of p key data n h]
      by (auto simp: round_rest_def result_simps)
  next
    case (2 data)
    then show ?thesis using rest collecting_steps_halt [of p data n h] by (simp add: round_rest_def)
  next
    case 3
    then show ?thesis using rest by (simp add: round_rest_def)
  qed
  with s1 show ?thesis by (meson rtranclp_trans)
qed

lemma thread_alone:
  "\<exists>d. (proxy_moves p)\<^sup>*\<^sup>* (Awaiting, net) d \<and> rests p d (ShardingProxyWorker_HandleClient p net)"
proof (induction p net rule: ShardingProxyWorker_HandleClient.induct)
  case (1 p net)
  show ?case
  proof (cases "ShardingProxyWorker_round p net")
    case (Inl h)
    then have "ShardingProxyWorker_HandleClient p net = Inl h"
      by (subst ShardingProxyWorker_HandleClient.simps) simp
    then show ?thesis using round_halts [OF Inl] by simp
  next
    case (Inr x)
    obtain again st net' where x: "x = (again, st, net')" by (cases x)
    then have rest: "ShardingProxyWorker_HandleClient p net =
        (if again then ShardingProxyWorker_HandleClient p net' else Inr (st, net'))"
      using Inr by (subst ShardingProxyWorker_HandleClient.simps) simp
    have steps: "(proxy_moves p)\<^sup>*\<^sup>* (Awaiting, net) (if again then Awaiting else Ended st, net')"
      using round_steps [OF Inr [unfolded x]] .
    show ?thesis
    proof (cases again)
      case True
      obtain d where d: "(proxy_moves p)\<^sup>*\<^sup>* (Awaiting, net') d"
          "rests p d (ShardingProxyWorker_HandleClient p net')"
        using "1.IH" [OF Inr x [symmetric] refl True] by blast
      have "(proxy_moves p)\<^sup>*\<^sup>* (Awaiting, net) (Awaiting, net')" using steps True by simp
      from this d(1) have "(proxy_moves p)\<^sup>*\<^sup>* (Awaiting, net) d" by (rule rtranclp_trans)
      then show ?thesis using d(2) rest True by (intro exI [of _ d]) simp
    next
      case False
      then have "rests p (Ended st, net') (ShardingProxyWorker_HandleClient p net)"
        using rest by (simp add: rests_def)
      then show ?thesis using steps False by auto
    qed
  qed
qed

text \<open>C10: The steps of a thread and the function it runs are equivalent. Whatever the sockets hold,
  the function returns a status and leaves sockets behind exactly when some steps of the thread
  lead behind its loop with them; and it fails to return, for whatever reason, exactly when some
  steps lead to a call that does not return for that reason.\<close>

theorem thread_equals_HandleClient:
  "(ShardingProxyWorker_HandleClient p net = Inr (st, net') \<longleftrightarrow>
      (proxy_moves p)\<^sup>*\<^sup>* (Awaiting, net) (Ended st, net')) \<and>
   (ShardingProxyWorker_HandleClient p net = Inl h \<longleftrightarrow>
      (\<exists>t n. (proxy_moves p)\<^sup>*\<^sup>* (Awaiting, net) (t, n) \<and> proxy_thread_step p t n = Inl h))"
proof -
  have iff: "ShardingProxyWorker_HandleClient p net = r \<longleftrightarrow> (\<exists>d. (proxy_moves p)\<^sup>*\<^sup>* (Awaiting, net) d \<and> rests p d r)" for r
    using thread_alone [of p net] moves_confluent by metis
  show ?thesis unfolding iff by (auto simp: rests_def)
qed

end
