(* ===== verification/Sqpkv_Sessions.thy ===== *)
theory Sqpkv_Sessions
  imports Sqpkv_Relay
begin

text \<open>
  Several clients at once: one thread of the proxy per client
  (\<^verbatim>\<open>src/server/sharding_proxy_worker.cc\<close>), each with its own connections to the same
  shard servers, whose steps interleave with each other, with the clients and with the shards;
  and the invariant of one session.

  The threads are those of the code (\<open>proxy_thread_step\<close>). What is around them is described by step
  relations: clients that use the protocol as the client library does, one command at a time and the
  next when the answer has been read (\<open>client_move\<close>); shards that read a packet as the code does and answer it
  with the bytes of their request handler (the parameter \<open>answers\<close>); connections that break and
  shards that fall; and the end of the proxy's process, when a thread halts other than by waiting or a signal
  for a write to a dead connection ends it. Two assumptions are made about the network: the pieces of
  a packet are read as they were written (as one client and one worker never have two packets under way
  on one connection, only pieces of the same packet could be merged or split), and none is lost
  as long as both ends stand. A session starts with a worker whose connections have been made.
\<close>

section \<open>The cluster and its moves\<close>

text \<open>The number of the server that is responsible for a key, from one up, if the policy reaches one of
  the \<open>n\<close> servers; and the commands for which there is no such server.\<close>

definition owner :: "int \<Rightarrow> bytes \<Rightarrow> int result" where
  "owner n k = bindR (GetShardId n k) (\<lambda>i. if 1 \<le> i \<and> i \<le> n then Inr i else Inl OutOfBounds)"

definition unservable :: "int \<Rightarrow> command \<Rightarrow> bool" where
  "unservable n c \<longleftrightarrow> (case command_key c of None \<Rightarrow> True | Some k \<Rightarrow> \<not> (\<exists>j. owner n k = Inr j))"

text \<open>One client: its proxy worker, where the worker's thread is, the sockets of this worker, how many
  pieces of what was written to it each server has read, the commands the client has sent, whether it
  waits for an answer, how many pieces of answers it has read,
  whether it has closed its side of the connection, and whether the connection is broken.\<close>

record session =
  proxy_of :: proxy
  point :: proxy_thread
  wires :: net
  taken :: "int \<Rightarrow> nat"
  submitted :: "command list"
  busy :: bool
  got :: nat
  gone :: bool
  broken :: bool

text \<open>The stores of the shards by number, the shards that have fallen, the sessions, the log of the
  keyed commands the shards have executed (the session, the command and the reply), and how the process of
  the proxy ended, if it has.\<close>

record 'd cluster =
  shard_stores :: "int \<Rightarrow> 'd"
  fallen :: "int set"
  sessions :: "session list"
  history :: "(nat \<times> command \<times> bytes) list"
  proxy_end :: "halt option"

definition session_new :: "int \<Rightarrow> int list \<Rightarrow> session" where
  "session_new cfd fds = \<lparr>proxy_of = ShardingProxyWorker_new cfd fds, point = Awaiting,
     wires = (\<lambda>_. fresh_socket), taken = (\<lambda>_. 0), submitted = [], busy = False, got = 0, gone = False,
     broken = False\<rparr>"

definition cluster_new :: "(int \<Rightarrow> 'd) \<Rightarrow> 'd cluster" where
  "cluster_new ds = \<lparr>shard_stores = ds, fallen = {}, sessions = [], history = [], proxy_end = None\<rparr>"

definition deliver :: "int \<Rightarrow> arrival list \<Rightarrow> net \<Rightarrow> net" where
  "deliver fd as net = net(fd := (net fd)\<lparr>inq := inq (net fd) @ as\<rparr>)"

definition client_sends :: "command \<Rightarrow> session \<Rightarrow> session" where
  "client_sends c s = s\<lparr>wires := deliver (clientfd (proxy_of s)) (map Segment (packet_chunks (encode_command c))) (wires s),
     submitted := submitted s @ [c], busy := True\<rparr>"

text \<open>What a client has not read yet of what its worker wrote to it, and the client after it has read an
  answer.\<close>

definition unheard :: "session \<Rightarrow> socket" where
  "unheard s = fresh_socket\<lparr>inq := map Segment (drop (got s) (outq (wires s (clientfd (proxy_of s)))))\<rparr>"

definition client_hears :: "socket \<Rightarrow> session \<Rightarrow> session" where
  "client_hears rest s =
     s\<lparr>got := length (outq (wires s (clientfd (proxy_of s)))) - length (inq rest), busy := False\<rparr>"

definition client_leaves :: "session \<Rightarrow> session" where
  "client_leaves s = s\<lparr>wires := deliver (clientfd (proxy_of s)) [Hangup] (wires s), gone := True\<rparr>"

text \<open>A connection breaks: the failure is reported to the thread's read when it has read what has come
  in, and before that perhaps to a write.\<close>

definition client_breaks :: "int list \<Rightarrow> session \<Rightarrow> session" where
  "client_breaks plan s = s\<lparr>wires := (wires s)(clientfd (proxy_of s) := (wires s (clientfd (proxy_of s)))
       \<lparr>inq := inq (wires s (clientfd (proxy_of s))) @ [Failure], wplan := plan\<rparr>), broken := True\<rparr>"

text \<open>A server ends: the worker finds the end of the connection to it behind what has come in, or at
  once when that was lost, and its later writes to the server succeed or fail as \<open>plan\<close> says.\<close>

definition server_falls :: "int \<Rightarrow> bool \<Rightarrow> int list \<Rightarrow> session \<Rightarrow> session" where
  "server_falls fd arrived plan s = s\<lparr>wires := (wires s)(fd := (wires s fd)
     \<lparr>inq := (if arrived then inq (wires s fd) else []) @ [Hangup], wplan := plan\<rparr>)\<rparr>"

text \<open>What a server has not read yet of what the worker wrote to it, and the session after it has read and
  answered.\<close>

definition unread :: "session \<Rightarrow> int \<Rightarrow> socket" where
  "unread s fd = fresh_socket\<lparr>inq := map Segment (drop (taken s fd) (outq (wires s fd)))\<rparr>"

definition answered_by :: "session \<Rightarrow> int \<Rightarrow> bytes \<Rightarrow> socket \<Rightarrow> session" where
  "answered_by s fd reply rest = s\<lparr>wires := deliver fd (map Segment (packet_chunks reply)) (wires s),
     taken := (taken s)(fd := length (outq (wires s fd)) - length (inq rest))\<rparr>"

text \<open>A connection to a server that has fallen.\<close>

definition hung :: "session \<Rightarrow> int \<Rightarrow> bool" where
  "hung s fd \<longleftrightarrow> Hangup \<in> set (inq (wires s fd))"

declare hung_def [simp]

text \<open>The clients: one connects and, when every shard can be reached, gets a worker, whose connections
  have descriptors of their own; one that does not wait for an answer sends any command of the format; one that
  waits reads an answer, as the library does; one that does not wait closes its side of the
  connection; a connection breaks, also when a client ends that still waits.\<close>

inductive client_move :: "int \<Rightarrow> 'd cluster \<Rightarrow> 'd cluster \<Rightarrow> bool" for n :: int where
  join: "proxy_end S = None \<Longrightarrow> fallen S = {} \<Longrightarrow> distinct (cfd # fds) \<Longrightarrow> int (length fds) = n \<Longrightarrow>
     client_move n S (S\<lparr>sessions := sessions S @ [session_new cfd fds]\<rparr>)"
| submit: "proxy_end S = None \<Longrightarrow> i < length (sessions S) \<Longrightarrow> s = sessions S ! i \<Longrightarrow>
     \<not> gone s \<Longrightarrow> \<not> broken s \<Longrightarrow> \<not> busy s \<Longrightarrow> wf_command c \<Longrightarrow>
     client_move n S (S\<lparr>sessions := (sessions S)[i := client_sends c s]\<rparr>)"
| receive: "i < length (sessions S) \<Longrightarrow> s = sessions S ! i \<Longrightarrow> \<not> gone s \<Longrightarrow> \<not> broken s \<Longrightarrow> busy s \<Longrightarrow>
     ReadFromServer (unheard s) = Inr (StatusOr_ptr (Some resp), rest) \<Longrightarrow>
     client_move n S (S\<lparr>sessions := (sessions S)[i := client_hears rest s]\<rparr>)"
| leave: "i < length (sessions S) \<Longrightarrow> s = sessions S ! i \<Longrightarrow> \<not> gone s \<Longrightarrow> \<not> broken s \<Longrightarrow> \<not> busy s \<Longrightarrow>
     client_move n S (S\<lparr>sessions := (sessions S)[i := client_leaves s]\<rparr>)"
| break: "i < length (sessions S) \<Longrightarrow> s = sessions S ! i \<Longrightarrow> \<not> gone s \<Longrightarrow> \<not> broken s \<Longrightarrow> plan \<in> {[], [-1]} \<Longrightarrow>
     client_move n S (S\<lparr>sessions := (sessions S)[i := client_breaks plan s]\<rparr>)"

text \<open>The servers: a thread of the proxy makes a step, as long as the process runs; a step of a thread halts other
  than by waiting, and with it the process; or a shard that has not fallen reads a command
  from one of its connections, as the code reads it, executes it on its store and answers, and the
  answer arrives. A shard also executes what a proxy has sent it that has ended.\<close>

inductive server_move ::
  "('d \<Rightarrow> command \<Rightarrow> bytes \<Rightarrow> 'd \<Rightarrow> bool) \<Rightarrow> 'd cluster \<Rightarrow> 'd cluster \<Rightarrow> bool"
  for answers :: "'d \<Rightarrow> command \<Rightarrow> bytes \<Rightarrow> 'd \<Rightarrow> bool" where
  advance: "proxy_end S = None \<Longrightarrow> i < length (sessions S) \<Longrightarrow> s = sessions S ! i \<Longrightarrow> (\<And>st. point s \<noteq> Ended st) \<Longrightarrow>
     proxy_thread_step (proxy_of s) (point s) (wires s) = Inr (t, w) \<Longrightarrow>
     server_move answers S (S\<lparr>sessions := (sessions S)[i := s\<lparr>point := t, wires := w\<rparr>]\<rparr>)"
| crash: "proxy_end S = None \<Longrightarrow> i < length (sessions S) \<Longrightarrow> s = sessions S ! i \<Longrightarrow>
     proxy_thread_step (proxy_of s) (point s) (wires s) = Inl e \<Longrightarrow> e \<noteq> Blocked \<Longrightarrow>
     server_move answers S (S\<lparr>proxy_end := Some e\<rparr>)"
| execute: "i < length (sessions S) \<Longrightarrow> s = sessions S ! i \<Longrightarrow> j < length (shard_servers (proxy_of s)) \<Longrightarrow>
     fd = shard_servers (proxy_of s) ! j \<Longrightarrow> int j + 1 \<notin> fallen S \<Longrightarrow>
     ReadFromClient (unread s fd) = Inr (StatusOr_ptr (Some pk), rest) \<Longrightarrow>
     answers (shard_stores S (int j + 1)) (packet_command pk) reply d \<Longrightarrow>
     server_move answers S (S\<lparr>shard_stores := (shard_stores S)(int j + 1 := d),
       sessions := (sessions S)[i := answered_by s fd reply rest],
       history := history S @ (if command_key (packet_command pk) = None then []
         else [(i, packet_command pk, reply)])\<rparr>)"

text \<open>A shard falls: every session finds out on its own connection, and an answer that was under way
  reaches its worker or not. So a shard may also end between executing a command and answering. And as long
  as a thread runs whose client's connection is broken or one of whose servers has fallen, a write of it may
  raise \<^verbatim>\<open>SIGPIPE\<close>, for which the program has no handler.\<close>

definition dead_peer :: "session \<Rightarrow> bool" where
  "dead_peer s \<longleftrightarrow> (\<forall>st. point s \<noteq> Ended st) \<and> (broken s \<or> (\<exists>fd \<in> set (shard_servers (proxy_of s)). hung s fd))"

inductive fault_move :: "int \<Rightarrow> 'd cluster \<Rightarrow> 'd cluster \<Rightarrow> bool" for n :: int where
  fall: "int j < n \<Longrightarrow> int j + 1 \<notin> fallen S \<Longrightarrow>
     list_all2 (\<lambda>s s'. \<exists>arrived plan. s' = server_falls (shard_servers (proxy_of s) ! j) arrived plan s)
       (sessions S) ss \<Longrightarrow>
     fault_move n S (S\<lparr>fallen := insert (int j + 1) (fallen S), sessions := ss\<rparr>)"
| sigpipe: "proxy_end S = None \<Longrightarrow> i < length (sessions S) \<Longrightarrow> dead_peer (sessions S ! i) \<Longrightarrow>
     fault_move n S (S\<lparr>proxy_end := Some Signalled\<rparr>)"

definition cluster_move ::
  "('d \<Rightarrow> command \<Rightarrow> bytes \<Rightarrow> 'd \<Rightarrow> bool) \<Rightarrow> int \<Rightarrow> 'd cluster \<Rightarrow> 'd cluster \<Rightarrow> bool" where
  "cluster_move answers n S S' \<longleftrightarrow> client_move n S S' \<or> server_move answers S S' \<or> fault_move n S S'"

section \<open>The invariant of a session\<close>

text \<open>The part of the log that belongs to a session, and the pieces of some replies and requests.\<close>

definition log_of :: "nat \<Rightarrow> (nat \<times> command \<times> bytes) list \<Rightarrow> (command \<times> bytes) list" where
  "log_of i H = map snd (filter (\<lambda>e. fst e = i) H)"

definition replies :: "(command \<times> bytes) list \<Rightarrow> bytes list" where
  "replies h = concat (map (\<lambda>e. packet_chunks (snd e)) h)"

definition requests :: "command list \<Rightarrow> arrival list" where
  "requests cs = concat (map (\<lambda>c. map Segment (packet_chunks (encode_command c))) cs)"

lemma log_simps [simp]:
  "log_of i [] = []" "log_of i (H @ [(x, e)]) = (if x = i then log_of i H @ [e] else log_of i H)"
  "replies [] = []" "replies (h @ [(c, reply)]) = replies h @ packet_chunks reply"
  "requests [] = []" "requests (c # cs) = map Segment (packet_chunks (encode_command c)) @ requests cs"
  "requests (cs @ [c]) = requests cs @ map Segment (packet_chunks (encode_command c))"
  by (simp_all add: log_of_def replies_def requests_def)

text \<open>A connection on which nothing is under way; one on which a command waits for its server; and one on which
  an answer waits for the thread.\<close>

definition idle :: "session \<Rightarrow> int \<Rightarrow> bool" where
  "idle s fd \<longleftrightarrow> inq (wires s fd) = [Hangup] \<or>
     inq (wires s fd) = [] \<and> taken s fd = length (outq (wires s fd))"

definition asked :: "session \<Rightarrow> int \<Rightarrow> command \<Rightarrow> bool" where
  "asked s fd c \<longleftrightarrow> inq (wires s fd) = [] \<and>
     drop (taken s fd) (outq (wires s fd)) = packet_chunks (encode_command c)"

definition told :: "session \<Rightarrow> int \<Rightarrow> bytes \<Rightarrow> bool" where
  "told s fd reply \<longleftrightarrow> (\<exists>q. inq (wires s fd) = map Segment (packet_chunks reply) @ q \<and>
     (q = [Hangup] \<or> q = [] \<and> taken s fd = length (outq (wires s fd))))"

text \<open>The commands of the log are the first ones the client sent, and it has the replies to all of
  them or to all but the last.\<close>

definition heard :: "session \<Rightarrow> (command \<times> bytes) list \<Rightarrow> bool" where
  "heard s h \<longleftrightarrow> map fst h = take (length h) (submitted s) \<and>
     (\<exists>m. m \<le> length h \<and> length h \<le> Suc m \<and> outq (wires s (clientfd (proxy_of s))) = replies (take m h))"

text \<open>The servers a command is for, and those the client has sent a command for.\<close>

definition needs :: "proxy \<Rightarrow> command \<Rightarrow> int \<Rightarrow> bool" where
  "needs p c fd \<longleftrightarrow> (case command_key c of
     None \<Rightarrow> fd \<in> set (shard_servers p) | Some k \<Rightarrow> route p k = Inr fd)"

definition uses :: "session \<Rightarrow> int \<Rightarrow> bool" where
  "uses s fd \<longleftrightarrow> (\<exists>c \<in> set (submitted s). needs (proxy_of s) c fd)"

lemma uses_update [simp]:
  "uses (s\<lparr>point := t\<rparr>) fd = uses s fd" "uses (s\<lparr>wires := w\<rparr>) fd = uses s fd"
  "uses (s\<lparr>taken := k\<rparr>) fd = uses s fd" "uses (s\<lparr>gone := b\<rparr>) fd = uses s fd"
  "uses (s\<lparr>broken := b\<rparr>) fd = uses s fd" "uses (s\<lparr>busy := b\<rparr>) fd = uses s fd" "uses (s\<lparr>got := m\<rparr>) fd = uses s fd"
  by (auto simp: uses_def)

lemma uses_next:
  "submitted s = cs @ c # cs' \<Longrightarrow> command_key c = Some k \<Longrightarrow> route (proxy_of s) k = Inr fd \<Longrightarrow> uses s fd"
  "submitted s = cs @ c # cs' \<Longrightarrow> command_key c = None \<Longrightarrow> fd \<in> set (shard_servers (proxy_of s)) \<Longrightarrow> uses s fd"
  by (auto simp: uses_def needs_def)

text \<open>The worker and its sockets, whatever the thread does.\<close>

definition wired :: "int \<Rightarrow> session \<Rightarrow> bool" where
  "wired n s \<longleftrightarrow> distinct (clientfd (proxy_of s) # shard_servers (proxy_of s)) \<and>
     num_nodes (proxy_of s) = n \<and> n = int (length (shard_servers (proxy_of s))) \<and>
     (\<forall>fd. is_open (wires s fd) \<and> (fd \<noteq> clientfd (proxy_of s) \<and> \<not> hung s fd \<longrightarrow> wplan (wires s fd) = [])) \<and>
     (\<forall>c \<in> set (submitted s). wf_command c)"

text \<open>The command the thread is at, between those of the log and those that wait in the client's socket.\<close>

definition current :: "session \<Rightarrow> command \<Rightarrow> command list \<Rightarrow> (command \<times> bytes) list \<Rightarrow> bool" where
  "current s c cs h \<longleftrightarrow> submitted s = map fst h @ c # cs \<and> outq (wires s (clientfd (proxy_of s))) = replies h"

lemma current_heard: "current s c cs h \<Longrightarrow> heard s h"
  by (auto simp: current_def heard_def)

text \<open>Where the thread is, with the commands that wait in the client's socket and the log of the
  session: every server but those the thread waits for has fallen, or has nothing to read and
  nothing to say. One it waits for has been asked, or has answered, or has fallen and will not.\<close>

fun placed :: "proxy_thread \<Rightarrow> session \<Rightarrow> command list \<Rightarrow> (command \<times> bytes) list \<Rightarrow> bool" where
  "placed Awaiting s cs h \<longleftrightarrow> submitted s = map fst h @ cs \<and>
     outq (wires s (clientfd (proxy_of s))) = replies h \<and> (\<forall>fd \<in> set (shard_servers (proxy_of s)). idle s fd)"
| "placed (Dispatching key data) s cs h \<longleftrightarrow> (\<exists>c. current s c cs h \<and>
     data = encode_command c \<and> command_key c = Some key \<and> (\<forall>fd \<in> set (shard_servers (proxy_of s)). idle s fd))"
| "placed (Relaying sfd) s cs h \<longleftrightarrow> sfd \<in> set (shard_servers (proxy_of s)) \<and> uses s sfd \<and>
     (\<forall>fd \<in> set (shard_servers (proxy_of s)). fd \<noteq> sfd \<longrightarrow> idle s fd) \<and>
     ((\<exists>c k. current s c cs h \<and> command_key c = Some k \<and> route (proxy_of s) k = Inr sfd \<and> asked s sfd c) \<or>
      (\<exists>g c reply. h = g @ [(c, reply)] \<and> submitted s = map fst h @ cs \<and>
         outq (wires s (clientfd (proxy_of s))) = replies g \<and> told s sfd reply) \<or>
      inq (wires s sfd) = [Hangup] \<and> heard s h)"
| "placed (Collecting data) s cs h \<longleftrightarrow> (\<exists>c. current s c cs h \<and>
     data = encode_command c \<and> command_key c = None \<and> (\<forall>fd \<in> set (shard_servers (proxy_of s)). idle s fd))"
| "placed (Gathering fds keys) s cs h \<longleftrightarrow> (\<exists>c fds'. current s c cs h \<and> command_key c = None \<and>
     shard_servers (proxy_of s) = fds' @ fds \<and> (\<forall>fd \<in> set fds'. idle s fd) \<and>
     (\<forall>fd \<in> set fds. inq (wires s fd) = [Hangup] \<or> asked s fd c \<or> (\<exists>reply. told s fd reply)))"
| "placed (Ended st) s cs h \<longleftrightarrow> gone s \<and> ok st \<and> cs = [] \<and> submitted s = map fst h \<and>
     outq (wires s (clientfd (proxy_of s))) = replies h \<and> (\<forall>fd \<in> set (shard_servers (proxy_of s)). idle s fd)"

definition ending :: "session \<Rightarrow> arrival list" where
  "ending s = (if gone s then [Hangup] else if broken s then [Failure] else [])"

text \<open>A thread comes to its end when its client's connection has broken or a server that the client uses
  has fallen; one reply may be lost, and a server may still have a \<^verbatim>\<open>GetAll\<close> to read.\<close>

definition lost :: "session \<Rightarrow> (command \<times> bytes) list \<Rightarrow> bool" where
  "lost s h \<longleftrightarrow> (broken s \<or> (\<exists>fd. uses s fd \<and> hung s fd)) \<and>
     (\<exists>st. point s = Ended st) \<and> heard s h \<and>
     (\<forall>fd \<in> set (shard_servers (proxy_of s)). hung s fd \<or> taken s fd = length (outq (wires s fd)) \<or>
        (\<exists>c \<in> set (submitted s). command_key c = None \<and>
           drop (taken s fd) (outq (wires s fd)) = packet_chunks (encode_command c)))"

text \<open>The invariant of a session whose thread has not lost its client or a server.\<close>

definition running :: "int \<Rightarrow> session \<Rightarrow> command list \<Rightarrow> (command \<times> bytes) list \<Rightarrow> bool" where
  "running n s cs h \<longleftrightarrow> wired n s \<and> \<not> (gone s \<and> broken s) \<and>
     inq (wires s (clientfd (proxy_of s))) = requests cs @ ending s \<and>
     (wplan (wires s (clientfd (proxy_of s))) = [] \<or> broken s \<and> wplan (wires s (clientfd (proxy_of s))) = [-1]) \<and>
     placed (point s) s cs h"

definition session_good :: "int \<Rightarrow> session \<Rightarrow> (command \<times> bytes) list \<Rightarrow> bool" where
  "session_good n s h \<longleftrightarrow> wired n s \<and> \<not> (gone s \<and> broken s) \<and> (lost s h \<or> (\<exists>cs. running n s cs h))"

text \<open>What the client knows: it has read the first answers, and sent no command but those they answer and
  one more if it waits.\<close>

definition in_step :: "session \<Rightarrow> (command \<times> bytes) list \<Rightarrow> bool" where
  "in_step s h \<longleftrightarrow> (\<exists>m \<le> length h. got s = length (replies (take m h)) \<and>
     length (submitted s) \<le> m + (if busy s then 1 else 0))"

text \<open>How much there is left to do for a session.\<close>

definition pending :: "session \<Rightarrow> nat" where
  "pending s = length (filter (\<lambda>fd. taken s fd \<noteq> length (outq (wires s fd))) (shard_servers (proxy_of s)))"

definition work :: "session \<Rightarrow> nat" where
  "work s = (let n = length (shard_servers (proxy_of s)) in
     (2 * n + 5) * length (inq (wires s (clientfd (proxy_of s)))) + pending s +
     (case point s of
        Awaiting \<Rightarrow> 1
      | Dispatching key data \<Rightarrow> n + 3
      | Relaying fd \<Rightarrow> 2
      | Collecting data \<Rightarrow> 2 * n + 3
      | Gathering fds keys \<Rightarrow> length fds + 2
      | Ended st \<Rightarrow> 0))"

lemma session_running: "session_good n s h \<Longrightarrow> \<not> lost s h \<Longrightarrow> (\<And>cs. running n s cs h \<Longrightarrow> thesis) \<Longrightarrow> thesis"
  by (auto simp: session_good_def)

lemma running_good: "running n s cs h \<Longrightarrow> session_good n s h"
  by (auto simp: session_good_def running_def)

lemma lost_good: "wired n s \<Longrightarrow> \<not> (gone s \<and> broken s) \<Longrightarrow> lost s h \<Longrightarrow> session_good n s h"
  by (simp add: session_good_def)

lemma route_servers: "route p k = Inr fd \<Longrightarrow> fd \<in> set (shard_servers p)"
  by (auto simp: route_def server_at_def result_simps split: if_splits)

lemma wired_server: "wired n s \<Longrightarrow> fd \<in> set (shard_servers (proxy_of s)) \<Longrightarrow> fd \<noteq> clientfd (proxy_of s)"
  by (auto simp: wired_def)

lemma running_sockets:
  assumes "running n s cs h"
  shows "is_open (wires s fd)" and "fd \<noteq> clientfd (proxy_of s) \<Longrightarrow> \<not> hung s fd \<Longrightarrow> wplan (wires s fd) = []"
    and "fd \<in> set (shard_servers (proxy_of s)) \<Longrightarrow> fd \<noteq> clientfd (proxy_of s)"
  using assms wired_server by (auto simp: running_def wired_def)

lemma running_client: "running n s cs h \<Longrightarrow> clientfd (proxy_of s) \<notin> set (shard_servers (proxy_of s))"
  by (simp add: running_def wired_def)

lemma running_wf: "running n s cs h \<Longrightarrow> c \<in> set (submitted s) \<Longrightarrow> wf_command c"
  by (simp add: running_def wired_def)

lemma session_new_good:
  "distinct (cfd # fds) \<Longrightarrow> int (length fds) = n \<Longrightarrow> session_good n (session_new cfd fds) []"
  by (auto simp: session_good_def running_def wired_def session_new_def ShardingProxyWorker_new_def idle_def ending_def
      intro!: exI [of _ "[]"])

section \<open>The steps of the thread\<close>

text \<open>What a step of the thread is in each of these places.\<close>

lemma step_waits:
  assumes "is_open (wires s (clientfd p))" and "inq (wires s (clientfd p)) = []"
  shows "proxy_thread_step p Awaiting (wires s) = Inl Blocked"
  using assms by (simp add: ReadFromClient_def ReadWholePacket_def read_loop_unfold sys_read_def)

lemma step_leaves:
  assumes "is_open (w (clientfd p))" and "inq (w (clientfd p)) = [Hangup]"
  shows "proxy_thread_step p Awaiting w = Inr (Ended Status_Ok, w)"
  using assms by (simp add: ReadFromClient_def ReadWholePacket_def read_loop_unfold sys_read_def)

lemma step_reads:
  assumes "wf_command c" and "is_open (w (clientfd p))"
    and "inq (w (clientfd p)) = map Segment (packet_chunks (encode_command c)) @ q"
  shows "proxy_thread_step p Awaiting w =
    Inr (case command_key c of Some k \<Rightarrow> Dispatching k (encode_command c) | None \<Rightarrow> Collecting (encode_command c),
      w(clientfd p := (w (clientfd p))\<lparr>inq := q\<rparr>))"
  using ReadFromClient_object [OF assms] ToBinary_received [OF assms(1)]
  by (cases c) simp_all

lemma step_dispatches:
  assumes "wf_command c" and "route p k = Inr fd" and "is_open (w fd)" and "wplan (w fd) = []"
  shows "proxy_thread_step p (Dispatching k (encode_command c)) w =
    Inr (Relaying fd, w(fd := (w fd)\<lparr>outq := outq (w fd) @ packet_chunks (encode_command c)\<rparr>))"
proof -
  from assms(2) obtain i where "GetShardId (num_nodes p) k = Inr i" "server_at (shard_servers p) i = Inr fd"
    by (auto simp: route_def result_simps)
  then show ?thesis
    using SendPacket_data_chunks [OF assms(3,4) encode_command_short [OF assms(1)]] by simp
qed

lemma step_dispatches_down:
  assumes "wf_command c" and "route p k = Inr fd"
  obtains st s where "proxy_thread_step p (Dispatching k (encode_command c)) w =
      Inr (if err st then Ended st else Relaying fd, w(fd := s))"
    and "inq s = inq (w fd)" and "is_open s = is_open (w fd)"
proof -
  from assms(2) obtain i where i: "GetShardId (num_nodes p) k = Inr i" "server_at (shard_servers p) i = Inr fd"
    by (auto simp: route_def result_simps)
  from SendPacket_data_returns [OF encode_command_short [OF assms(1)], of "w fd"] obtain st s where
    "SendPacket_data (encode_command c) (w fd) = Inr (st, s)" "inq s = inq (w fd)" "is_open s = is_open (w fd)"
    by blast
  then show thesis using that i by simp
qed

lemma step_relays:
  assumes "fd \<noteq> clientfd p" and "is_open (w fd)" and "is_open (w (clientfd p))" and "wplan (w (clientfd p)) = []"
    and "inq (w fd) = map Segment (packet_chunks reply) @ q"
  shows "proxy_thread_step p (Relaying fd) w = Inr (Awaiting, w(fd := (w fd)\<lparr>inq := q\<rparr>,
    clientfd p := (w (clientfd p))\<lparr>outq := outq (w (clientfd p)) @ packet_chunks reply\<rparr>))"
  using ForwardPacket_chunks [of fd "clientfd p" w reply q] assms by simp

lemma step_breaks:
  assumes "is_open (w (clientfd p))" and "inq (w (clientfd p)) = [Failure]"
  shows "proxy_thread_step p Awaiting w =
    Inr (Ended Status_Ok, w(clientfd p := (w (clientfd p))\<lparr>inq := []\<rparr>))"
  using assms by (simp add: ReadFromClient_def ReadWholePacket_def read_loop_unfold sys_read_def)

lemma packet_chunks_first:
  obtains c cs where "packet_chunks d = c # cs" and "0 < length c" and "length c \<le> kMaxNetPacketSize"
proof -
  obtain c cs where c: "packet_chunks d = c # cs" using packet_chunks_nonempty [of d] by (cases "packet_chunks d") auto
  then have "0 < length c \<and> length c \<le> kMaxNetPacketSize"
    using packet_chunks_shape [of d] by (cases cs) (auto simp: kMaxNetPacketSize_def)
  then show thesis using that c by blast
qed

lemma step_loses:
  assumes "fd \<noteq> clientfd p" and "is_open (w fd)" and "is_open (w (clientfd p))" and "wplan (w (clientfd p)) = [-1]"
    and "inq (w fd) = map Segment (packet_chunks reply) @ q"
  shows "\<exists>cs. proxy_thread_step p (Relaying fd) w = Inr (Ended Status_Eof, w(fd := (w fd)\<lparr>inq := map Segment cs @ q\<rparr>,
    clientfd p := (w (clientfd p))\<lparr>wplan := []\<rparr>))"
proof -
  obtain c cs where c: "packet_chunks reply = c # cs" "0 < length c" "length c \<le> kMaxNetPacketSize"
    by (rule packet_chunks_first)
  let ?s = "(w fd)\<lparr>inq := map Segment cs @ q\<rparr>"
  have "sys_read kMaxNetPacketSize (w fd) = Inr (int (length c), c, ?s)"
    using assms(2,5) c by (simp add: sys_read_def max_transfer_def kMaxNetPacketSize_def)
  moreover have "sys_write c ((w(fd := ?s)) (clientfd p)) = (-1, (w (clientfd p))\<lparr>wplan := []\<rparr>)"
    using assms(1,3,4) by (simp add: sys_write_def)
  ultimately have "ForwardPacket fd (clientfd p) w =
      Inr (Status_Eof, w(fd := ?s, clientfd p := (w (clientfd p))\<lparr>wplan := []\<rparr>))"
    using c(2) by (subst ForwardPacket.simps) (simp add: Let_def)
  then show ?thesis by auto
qed

lemma step_relay_waits:
  assumes "is_open (w fd)" and "inq (w fd) = []"
  shows "proxy_thread_step p (Relaying fd) w = Inl Blocked"
  using assms by (subst proxy_thread_step.simps, subst ForwardPacket.simps) (simp add: sys_read_def)

lemma step_hangs:
  assumes "is_open (w fd)" and "inq (w fd) = [Hangup]"
  shows "proxy_thread_step p (Relaying fd) w = Inr (Ended Status_Eof, w)"
  using assms by (subst proxy_thread_step.simps, subst ForwardPacket.simps) (simp add: sys_read_def)

text \<open>Looking up a key and parsing a packet do not wait.\<close>

lemma GetShardId_no_wait: "GetShardId n k \<noteq> Inl Blocked"
  using id_start_eq [of 0 k]
  by (auto simp: GetShardId_def ExtractKey_def stoul_def result_simps Let_def split: if_splits prod.splits)

lemma route_no_wait: "route p k \<noteq> Inl Blocked"
  using GetShardId_no_wait by (auto simp: route_def server_at_def result_simps split: if_splits)

lemma step_dispatch_halts:
  assumes "route p k = Inl e"
  shows "proxy_thread_step p (Dispatching k data) w = Inl e" and "e \<noteq> Blocked"
  using assms route_no_wait by (auto simp: route_def result_simps)

lemma read_bytes_no_wait: "read_bytes m p n \<noteq> Inl Blocked"
  by (simp add: read_bytes_def)

lemma ReadSlices_no_wait: "ReadSlices m p n \<noteq> Inl Blocked"
proof (induction n arbitrary: p)
  case (Suc n)
  then show ?case
    using read_bytes_no_wait by (auto simp: ReadSlice_def ReadValue_def Let_def result_simps)
qed simp

lemma ResponsePacket_parse_no_wait: "ResponsePacket_parse buf \<noteq> Inl Blocked"
  using read_bytes_no_wait
  by (auto simp: ResponsePacket_parse_def ParseStatus_def Packet_parse_def payload_ptr_def ReadValue_def Let_def
      result_simps split: option.splits)

lemmas response_parsers = GetResponsePacket_parse_def PutResponsePacket_parse_def DeleteResponsePacket_parse_def
  GetAllResponsePacket_parse_def

lemma CreateResponsePacket_no_wait: "CreateResponsePacket buf \<noteq> Inl Blocked"
  using read_bytes_no_wait ReadSlices_no_wait ResponsePacket_parse_no_wait
  by (auto simp: CreateResponsePacket_def response_parsers payload_ptr_def ReadSlice_def ReadValue_def Let_def
      result_simps split: option.splits op_code.splits)

text \<open>Sending to all servers returns, and stops early only at one that has fallen.\<close>

lemma send_all_returns:
  assumes "distinct fds" and "length d < 4294967296"
    and "\<forall>fd \<in> set fds. is_open (w fd) \<and> (Hangup \<in> set (inq (w fd)) \<or> wplan (w fd) = [])"
  shows "\<exists>st w'. send_all fds d w = Inr (st, w') \<and> (\<not> ok st \<longrightarrow> (\<exists>fd \<in> set fds. Hangup \<in> set (inq (w fd)))) \<and>
    (\<forall>x. inq (w' x) = inq (w x) \<and> is_open (w' x) = is_open (w x) \<and> (x \<notin> set fds \<longrightarrow> w' x = w x) \<and>
      (x \<in> set fds \<and> Hangup \<notin> set (inq (w x)) \<longrightarrow> wplan (w' x) = [] \<and>
        (outq (w' x) = outq (w x) @ packet_chunks d \<or> \<not> ok st \<and> outq (w' x) = outq (w x))))"
  using assms(1,3)
proof (induction fds arbitrary: w)
  case (Cons fd fds)
  obtain st1 s1 where send: "SendPacket_data d (w fd) = Inr (st1, s1)" "inq s1 = inq (w fd)" "is_open s1 = is_open (w fd)"
    using SendPacket_data_returns [OF assms(2), of "w fd"] by blast
  have up: "st1 = Status_Ok \<and> s1 = (w fd)\<lparr>outq := outq (w fd) @ packet_chunks d\<rparr>" if "Hangup \<notin> set (inq (w fd))"
    using SendPacket_data_chunks [of "w fd" d] Cons.prems(2) assms(2) send(1) that by auto
  let ?w = "w(fd := s1)"
  show ?case
  proof (cases "ok st1")
    case False
    then have "Hangup \<in> set (inq (w fd))" using up by (metis status_observers(1))
    then show ?thesis using send False Cons.prems by (intro exI [of _ st1] exI [of _ ?w]) auto
  next
    case True
    have "\<forall>x \<in> set fds. is_open (?w x) \<and> (Hangup \<in> set (inq (?w x)) \<or> wplan (?w x) = [])"
      using Cons.prems by auto
    moreover have "distinct fds" using Cons.prems(1) by simp
    ultimately obtain st w' where w': "send_all fds d ?w = Inr (st, w')"
      "\<not> ok st \<longrightarrow> (\<exists>x \<in> set fds. Hangup \<in> set (inq (?w x)))"
      "\<forall>x. inq (w' x) = inq (?w x) \<and> is_open (w' x) = is_open (?w x) \<and> (x \<notin> set fds \<longrightarrow> w' x = ?w x) \<and>
        (x \<in> set fds \<and> Hangup \<notin> set (inq (?w x)) \<longrightarrow> wplan (w' x) = [] \<and>
        (outq (w' x) = outq (?w x) @ packet_chunks d \<or> \<not> ok st \<and> outq (w' x) = outq (?w x)))"
      using Cons.IH [of ?w] by (elim meta_impE exE conjE) (assumption | rule that)+
    have at: "w' fd = s1" using w'(3) Cons.prems(1) by simp
    have "inq (w' x) = inq (w x) \<and> is_open (w' x) = is_open (w x) \<and> (x \<notin> set (fd # fds) \<longrightarrow> w' x = w x) \<and>
      (x \<in> set (fd # fds) \<and> Hangup \<notin> set (inq (w x)) \<longrightarrow> wplan (w' x) = [] \<and>
        (outq (w' x) = outq (w x) @ packet_chunks d \<or> \<not> ok st \<and> outq (w' x) = outq (w x)))" for x
    proof (cases "x = fd")
      case True
      then show ?thesis using at send(2,3) up Cons.prems by auto
    next
      case False
      then show ?thesis using w'(3) [rule_format, of x] by simp
    qed
    moreover have "\<not> ok st \<longrightarrow> (\<exists>x \<in> set (fd # fds). Hangup \<in> set (inq (w x)))"
      using w'(2) Cons.prems(1) by (auto split: if_splits)
    ultimately show ?thesis
      using send(1) True w'(1) by (intro exI [of _ st] exI [of _ w']) simp
  qed
qed simp

text \<open>A step of a \<^verbatim>\<open>GetAll\<close> at a server that has answered, that has not, and that has fallen.\<close>

lemma step_gathers:
  assumes "is_open (w fd)" and "inq (w fd) = map Segment (packet_chunks reply) @ q"
  shows "(\<exists>ks. proxy_thread_step p (Gathering (fd # fds) keys) w =
      Inr (Gathering fds ks, w(fd := (w fd)\<lparr>inq := q\<rparr>))) \<or>
    (\<exists>e. proxy_thread_step p (Gathering (fd # fds) keys) w = Inl e \<and> e \<noteq> Blocked)"
proof -
  let ?buf = "concat (packet_chunks reply)"
  have rd: "ReadFromServer (w fd) =
      bindR (CreateResponsePacket ?buf) (\<lambda>p. Inr (StatusOr_ptr p, (w fd)\<lparr>inq := q\<rparr>))"
    using ReadWholePacket_chunks [OF assms] by (simp add: ReadFromServer_def)
  show ?thesis
  proof (cases "CreateResponsePacket ?buf")
    case (Inl e)
    then show ?thesis using rd CreateResponsePacket_no_wait [of ?buf] by auto
  next
    case (Inr r)
    then show ?thesis using rd by (cases r) (auto split: response_packet.splits)
  qed
qed

lemma step_gather_waits:
  assumes "is_open (w fd)" and "inq (w fd) = []"
  shows "proxy_thread_step p (Gathering (fd # fds) keys) w = Inl Blocked"
  using assms by (simp add: ReadFromServer_def ReadWholePacket_def read_loop_unfold sys_read_def)

lemma step_gather_hangs:
  assumes "is_open (w fd)" and "inq (w fd) = [Hangup]"
  shows "proxy_thread_step p (Gathering (fd # fds) keys) w = Inr (Ended Status_Eof, w)"
  using assms by (simp add: ReadFromServer_def ReadWholePacket_def read_loop_unfold sys_read_def)

end
