(* ===== verification/Sqpkv_Session_Steps.thy ===== *)
theory Sqpkv_Session_Steps
  imports Sqpkv_Sessions
begin

text \<open>
  What the steps of its thread do to a session of \<open>Sqpkv_Sessions\<close>: they keep the invariant \<open>session_good\<close>
  and leave less \<open>work\<close>; and a thread that does not make a step waits, for its client or for a shard, or
  its client has sent a command that no server is responsible for.
\<close>

section \<open>Steps of the thread\<close>

text \<open>A step of the thread keeps the invariant, there is less to do, and it does not change which servers
  have fallen, wherever the thread is.\<close>

definition advances :: "int \<Rightarrow> session \<Rightarrow> (command \<times> bytes) list \<Rightarrow> proxy_thread \<Rightarrow> net \<Rightarrow> bool" where
  "advances n s h t w \<longleftrightarrow>
     session_good n (s\<lparr>point := t, wires := w\<rparr>) h \<and> work (s\<lparr>point := t, wires := w\<rparr>) < work s \<and>
     (\<forall>fd \<in> set (shard_servers (proxy_of s)). hung (s\<lparr>point := t, wires := w\<rparr>) fd = hung s fd)"

lemma pending_le: "pending s \<le> length (shard_servers (proxy_of s))"
  by (simp add: pending_def)

lemma pending_same:
  assumes "\<And>fd. fd \<in> set (shard_servers (proxy_of s)) \<Longrightarrow> outq (w fd) = outq (wires s fd)"
  shows "pending (s\<lparr>point := t, wires := w\<rparr>) = pending s"
  using assms by (simp add: pending_def cong: filter_cong)

text \<open>The work of a step that leaves the client's socket alone, and of one that reads from it.\<close>

fun weight :: "nat \<Rightarrow> proxy_thread \<Rightarrow> nat" where
  "weight n Awaiting = 1"
| "weight n (Dispatching key data) = n + 3"
| "weight n (Relaying fd) = 2"
| "weight n (Collecting data) = 2 * n + 3"
| "weight n (Gathering fds keys) = length fds + 2"
| "weight n (Ended st) = 0"

lemma work_eq:
  "work s = (2 * length (shard_servers (proxy_of s)) + 5) * length (inq (wires s (clientfd (proxy_of s)))) +
     pending s + weight (length (shard_servers (proxy_of s))) (point s)"
  by (simp add: work_def Let_def split: proxy_thread.split)

lemma work_less:
  assumes "length (inq (w (clientfd (proxy_of s)))) \<le> length (inq (wires s (clientfd (proxy_of s))))"
    and "pending (s\<lparr>point := t, wires := w\<rparr>) + weight (length (shard_servers (proxy_of s))) t <
      pending s + weight (length (shard_servers (proxy_of s))) (point s)"
  shows "work (s\<lparr>point := t, wires := w\<rparr>) < work s"
proof -
  let ?n = "length (shard_servers (proxy_of s))"
  have "(2 * ?n + 5) * length (inq (w (clientfd (proxy_of s)))) \<le>
      (2 * ?n + 5) * length (inq (wires s (clientfd (proxy_of s))))"
    using assms(1) by (rule mult_le_mono2)
  moreover have "work (s\<lparr>point := t, wires := w\<rparr>) = (2 * ?n + 5) * length (inq (w (clientfd (proxy_of s)))) +
      pending (s\<lparr>point := t, wires := w\<rparr>) + weight ?n t" by (simp add: work_eq)
  ultimately show ?thesis using assms(2) work_eq [of s] by linarith
qed

lemma work_reads:
  assumes "length (inq (w (clientfd (proxy_of s)))) < length (inq (wires s (clientfd (proxy_of s))))"
    and "weight (length (shard_servers (proxy_of s))) t \<le> 2 * length (shard_servers (proxy_of s)) + 4"
    and "pending (s\<lparr>point := t, wires := w\<rparr>) = pending s"
  shows "work (s\<lparr>point := t, wires := w\<rparr>) < work s"
proof -
  let ?n = "length (shard_servers (proxy_of s))"
  have "(2 * ?n + 5) * Suc (length (inq (w (clientfd (proxy_of s))))) \<le>
      (2 * ?n + 5) * length (inq (wires s (clientfd (proxy_of s))))"
    using assms(1) by (intro mult_le_mono2) simp
  moreover have "work (s\<lparr>point := t, wires := w\<rparr>) = (2 * ?n + 5) * length (inq (w (clientfd (proxy_of s)))) +
      pending (s\<lparr>point := t, wires := w\<rparr>) + weight ?n t" by (simp add: work_eq)
  ultimately show ?thesis using assms(2,3) work_eq [of s] unfolding mult_Suc_right by linarith
qed

lemma advances_at_end:
  assumes run: "running n s [] h" and at: "point s = Awaiting"
    and step: "proxy_thread_step (proxy_of s) Awaiting (wires s) = Inr (t, w)"
  shows "advances n s h t w"
proof -
  let ?p = "proxy_of s" and ?w = "wires s"
  note sockets = running_sockets [OF run]
  have q: "inq (?w (clientfd ?p)) = ending s" using run by (simp add: running_def)
  consider "gone s" "\<not> broken s" | "broken s" "\<not> gone s" | "\<not> gone s" "\<not> broken s"
    using run by (auto simp: running_def)
  then show ?thesis
  proof cases
    case 1
    then have tw: "t = Ended Status_Ok" "w = ?w"
      using step_leaves [of ?w ?p] sockets q step by (simp_all add: ending_def)
    have "running n (s\<lparr>point := t, wires := w\<rparr>) [] h"
      using run 1 at by (auto simp: running_def tw wired_def idle_def ending_def)
    then show ?thesis using running_good tw at by (simp add: advances_def work_eq pending_def)
  next
    case 2
    then have tw: "t = Ended Status_Ok" "w = ?w(clientfd ?p := (?w (clientfd ?p))\<lparr>inq := []\<rparr>)"
      using step_breaks [of ?w ?p] sockets q step by (simp_all add: ending_def)
    have "lost (s\<lparr>point := t, wires := w\<rparr>) h" "wired n (s\<lparr>point := t, wires := w\<rparr>)"
      using run 2 at sockets(3)
      by (auto simp: lost_def running_def tw idle_def wired_def heard_def intro!: exI [of _ "length h"])
    then have "session_good n (s\<lparr>point := t, wires := w\<rparr>) h" using 2 by (intro lost_good) simp_all
    moreover have "work (s\<lparr>point := t, wires := w\<rparr>) < work s"
      using q 2 sockets(3) by (intro work_reads) (auto simp: tw ending_def intro!: pending_same)
    ultimately show ?thesis using tw running_client [OF run] by (auto simp: advances_def)
  next
    case 3
    then show ?thesis using q step step_waits [of s ?p] sockets by (simp add: ending_def)
  qed
qed

lemma advances_read:
  assumes run: "running n s (c # cs) h" and at: "point s = Awaiting"
    and step: "proxy_thread_step (proxy_of s) Awaiting (wires s) = Inr (t, w)"
  shows "advances n s h t w"
proof -
  let ?p = "proxy_of s" and ?w = "wires s" and ?q = "requests cs @ ending s"
  note sockets = running_sockets [OF run]
  have q: "inq (?w (clientfd ?p)) = map Segment (packet_chunks (encode_command c)) @ ?q"
    using run by (simp add: running_def)
  have wf: "wf_command c" using running_wf [OF run] run at by (simp add: running_def)
  have tw: "t = (case command_key c of Some k \<Rightarrow> Dispatching k (encode_command c) | None \<Rightarrow> Collecting (encode_command c))"
      "w = ?w(clientfd ?p := (?w (clientfd ?p))\<lparr>inq := ?q\<rparr>)"
    using step_reads [OF wf, of ?w ?p ?q] sockets q step by simp_all
  have "running n (s\<lparr>point := t, wires := w\<rparr>) cs h"
    using run at sockets(3) unfolding tw
    by (cases "command_key c") (auto simp: running_def current_def wired_def idle_def ending_def)
  moreover have "work (s\<lparr>point := t, wires := w\<rparr>) < work s"
    using q sockets(3)
    by (intro work_reads) (auto simp: tw intro!: pending_same split: option.split)
  ultimately show ?thesis using running_good tw running_client [OF run] by (auto simp: advances_def)
qed

text \<open>A thread that ends, as its client or a server is lost, leaves the session lost.\<close>

lemma advances_lost:
  assumes "wired n (s\<lparr>point := Ended st, wires := w\<rparr>)" and "\<not> (gone s \<and> broken s)"
    and "lost (s\<lparr>point := Ended st, wires := w\<rparr>) h"
    and "length (inq (w (clientfd (proxy_of s)))) \<le> length (inq (wires s (clientfd (proxy_of s))))"
    and "pending (s\<lparr>point := Ended st, wires := w\<rparr>) <
      pending s + weight (length (shard_servers (proxy_of s))) (point s)"
    and "\<And>fd. fd \<in> set (shard_servers (proxy_of s)) \<Longrightarrow>
      Hangup \<in> set (inq (w fd)) \<longleftrightarrow> Hangup \<in> set (inq (wires s fd))"
  shows "advances n s h (Ended st) w"
proof -
  have "session_good n (s\<lparr>point := Ended st, wires := w\<rparr>) h" using assms(1-3) by (intro lost_good) simp_all
  moreover have "work (s\<lparr>point := Ended st, wires := w\<rparr>) < work s" using assms(4,5) by (intro work_less) simp_all
  ultimately show ?thesis using assms(6) by (auto simp: advances_def)
qed

lemma dispatching_command:
  assumes run: "running n s cs h" and at: "point s = Dispatching key data"
  obtains c where "current s c cs h" and "data = encode_command c" and "wf_command c" and "command_key c = Some key"
    and "\<forall>fd \<in> set (shard_servers (proxy_of s)). idle s fd"
proof -
  from run at obtain c where c: "current s c cs h" "data = encode_command c" "command_key c = Some key"
    "\<forall>fd \<in> set (shard_servers (proxy_of s)). idle s fd"
    by (auto simp: running_def)
  moreover have "wf_command c" using running_wf [OF run] c(1) by (simp add: current_def)
  ultimately show thesis using that by blast
qed

lemma advances_dispatch_up:
  assumes run: "running n s cs h" and at: "point s = Dispatching key (encode_command c)"
    and c: "current s c cs h" "command_key c = Some key" "route (proxy_of s) key = Inr fd"
    and idle: "\<forall>fd \<in> set (shard_servers (proxy_of s)). idle s fd"
    and wf: "wf_command c" and up: "\<not> hung s fd"
    and step: "proxy_thread_step (proxy_of s) (Dispatching key (encode_command c)) (wires s) = Inr (t, w)"
  shows "advances n s h t w"
proof -
  note mem = route_servers [OF c(3)] and open_fd = running_sockets(1) [OF run]
  note other = running_sockets(3) [OF run mem]
  have used: "uses s fd" using uses_next(1) [OF _ c(2,3)] c(1) by (simp add: current_def)
  have "wplan (wires s fd) = []" using running_sockets(2) [OF run other up] .
  then have tw: "t = Relaying fd"
      "w = (wires s)(fd := (wires s fd)\<lparr>outq := outq (wires s fd) @ packet_chunks (encode_command c)\<rparr>)"
    using step_dispatches [where w = "wires s", OF wf c(3) open_fd] step by simp_all
  have empty: "inq (wires s fd) = []" "taken s fd = length (outq (wires s fd))"
    using up idle mem by (auto simp: idle_def)
  have "running n (s\<lparr>point := t, wires := w\<rparr>) cs h"
    using run at c mem other empty used idle
    by (auto simp: running_def current_def tw wired_def idle_def ending_def asked_def)
  moreover have "work (s\<lparr>point := t, wires := w\<rparr>) < work s"
    using at other pending_le [of "s\<lparr>point := t, wires := w\<rparr>"] by (intro work_less) (simp_all add: tw)
  ultimately show ?thesis using running_good tw by (auto simp: advances_def)
qed

lemma advances_dispatch_down:
  assumes run: "running n s cs h" and at: "point s = Dispatching key (encode_command c)"
    and c: "current s c cs h" "command_key c = Some key" "route (proxy_of s) key = Inr fd"
    and idle: "\<forall>fd \<in> set (shard_servers (proxy_of s)). idle s fd"
    and wf: "wf_command c" and down: "hung s fd"
    and step: "proxy_thread_step (proxy_of s) (Dispatching key (encode_command c)) (wires s) = Inr (t, w)"
  shows "advances n s h t w"
proof -
  note mem = route_servers [OF c(3)] and open_fd = running_sockets(1) [OF run]
  note other = running_sockets(3) [OF run mem]
  have used: "uses s fd" using uses_next(1) [OF _ c(2,3)] c(1) by (simp add: current_def)
  have hang: "inq (wires s fd) = [Hangup]" using down idle mem by (auto simp: idle_def)
  from step_dispatches_down [OF wf c(3), of "wires s"] obtain st s1 where
    d: "proxy_thread_step (proxy_of s) (Dispatching key (encode_command c)) (wires s) =
      Inr (if err st then Ended st else Relaying fd, (wires s)(fd := s1))"
      "inq s1 = inq (wires s fd)" "is_open s1 = is_open (wires s fd)" by blast
  have tw: "t = (if err st then Ended st else Relaying fd)" "w = (wires s)(fd := s1)"
    using trans [OF sym [OF step] d(1)] by simp_all
  have s1: "inq s1 = [Hangup]" "is_open s1" using d(2,3) hang open_fd by simp_all
  have wired: "wired n (s\<lparr>point := t, wires := w\<rparr>)"
    using run other s1 by (auto simp: running_def tw(2) wired_def)
  have heard: "heard (s\<lparr>point := t, wires := w\<rparr>) h"
    using current_heard [OF c(1)] other by (simp add: heard_def tw(2))
  have less: "pending (s\<lparr>point := t, wires := w\<rparr>) + 2 < pending s + weight (length (shard_servers (proxy_of s))) (point s)"
    using at pending_le [of "s\<lparr>point := t, wires := w\<rparr>"] by simp
  show ?thesis
  proof (cases "err st")
    case True
    have "lost (s\<lparr>point := t, wires := w\<rparr>) h"
      using run at mem heard True s1(1) used idle by (auto simp: lost_def running_def tw idle_def)
    with wired True have "advances n s h (Ended st) w"
      using run other less s1(1) hang unfolding tw by (intro advances_lost) (auto simp: running_def)
    then show ?thesis using tw(1) True by simp
  next
    case False
    then have "running n (s\<lparr>point := t, wires := w\<rparr>) cs h"
      using run at mem other s1(1) heard wired used idle by (auto simp: running_def tw idle_def ending_def)
    moreover have "work (s\<lparr>point := t, wires := w\<rparr>) < work s"
      using less other False by (intro work_less) (simp_all add: tw)
    ultimately show ?thesis using running_good tw(2) s1(1) hang by (auto simp: advances_def)
  qed
qed

lemma advances_dispatch:
  assumes run: "running n s cs h" and at: "point s = Dispatching key data"
    and step: "proxy_thread_step (proxy_of s) (point s) (wires s) = Inr (t, w)"
  shows "advances n s h t w"
proof -
  from dispatching_command [OF run at] obtain c where
    c: "current s c cs h" "data = encode_command c" "wf_command c" "command_key c = Some key"
    "\<forall>fd \<in> set (shard_servers (proxy_of s)). idle s fd" .
  obtain fd where fd: "route (proxy_of s) key = Inr fd"
    using step_dispatch_halts(1) [of "proxy_of s" key] step at
    by (cases "route (proxy_of s) key") (simp_all del: proxy_thread_step.simps)
  show ?thesis
    using advances_dispatch_up [OF run at [unfolded c(2)] c(1,4) fd c(5,3) _ step [unfolded at c(2)]]
      advances_dispatch_down [OF run at [unfolded c(2)] c(1,4) fd c(5,3) _ step [unfolded at c(2)]]
    by blast
qed

text \<open>A thread that waits for a server: there is no answer yet, or there is one, and the log has it,
  or the server has fallen and there will be none.\<close>

lemma relaying_cases:
  assumes "running n s cs h" and "point s = Relaying fd"
  obtains (waits) c k where "current s c cs h" and "command_key c = Some k" and "route (proxy_of s) k = Inr fd"
      and "inq (wires s fd) = []" and "drop (taken s fd) (outq (wires s fd)) = packet_chunks (encode_command c)"
  | (answer) g c reply q where "h = g @ [(c, reply)]" and "submitted s = map fst h @ cs"
      and "outq (wires s (clientfd (proxy_of s))) = replies g"
      and "inq (wires s fd) = map Segment (packet_chunks reply) @ q"
      and "q = [Hangup] \<or> q = [] \<and> taken s fd = length (outq (wires s fd))"
  | (hangs) "inq (wires s fd) = [Hangup]" and "heard s h"
  using assms by (auto simp: running_def asked_def told_def)

lemma relaying_server:
  assumes "running n s cs h" and "point s = Relaying fd"
  shows "fd \<in> set (shard_servers (proxy_of s))" and "uses s fd"
    and "\<forall>x \<in> set (shard_servers (proxy_of s)). x \<noteq> fd \<longrightarrow> idle s x"
  using assms by (simp_all add: running_def)

lemma advances_hangs:
  assumes run: "running n s cs h" and at: "point s = Relaying fd"
    and down: "inq (wires s fd) = [Hangup]" and "heard s h"
  shows "advances n s h (Ended Status_Eof) (wires s)"
proof (rule advances_lost)
  note server = relaying_server [OF run at]
  then have "\<exists>x. uses s x \<and> hung s x" using down by (intro exI [of _ fd]) simp
  then show "lost (s\<lparr>point := Ended Status_Eof, wires := wires s\<rparr>) h"
    using server down \<open>heard s h\<close> by (auto simp: lost_def idle_def heard_def)
  show "pending (s\<lparr>point := Ended Status_Eof, wires := wires s\<rparr>) <
      pending s + weight (length (shard_servers (proxy_of s))) (point s)"
    using at by (simp add: pending_def)
qed (use run at in \<open>auto simp: running_def wired_def\<close>)

lemma advances_told:
  assumes run: "running n s cs h" and at: "point s = Relaying fd"
    and told: "h = g @ [(c, reply)]" "submitted s = map fst h @ cs"
      "outq (wires s (clientfd (proxy_of s))) = replies g"
      "inq (wires s fd) = map Segment (packet_chunks reply) @ q"
      "q = [Hangup] \<or> q = [] \<and> taken s fd = length (outq (wires s fd))"
    and step: "proxy_thread_step (proxy_of s) (Relaying fd) (wires s) = Inr (t, w)"
  shows "advances n s h t w"
proof -
  let ?p = "proxy_of s" and ?w = "wires s"
  note server = relaying_server [OF run at]
  note open_fd = running_sockets(1) [OF run] and other = running_sockets(3) [OF run server(1)]
  show ?thesis
  proof (cases "wplan (?w (clientfd ?p)) = []")
    case False
    then have br: "broken s" "wplan (?w (clientfd ?p)) = [-1]" using run by (auto simp: running_def)
    then obtain rest where tw: "t = Ended Status_Eof" "w = ?w(fd := (?w fd)\<lparr>inq := map Segment rest @ q\<rparr>,
        clientfd ?p := (?w (clientfd ?p))\<lparr>wplan := []\<rparr>)"
      using step_loses [OF other, of ?w reply q] open_fd told(4) step by auto
    have hangs: "Hangup \<in> set (inq (w x)) \<longleftrightarrow> Hangup \<in> set (inq (?w x))" for x
      using told(4) by (auto simp: tw)
    have "lost (s\<lparr>point := t, wires := w\<rparr>) h" "wired n (s\<lparr>point := t, wires := w\<rparr>)"
      using run told other server br(1)
      by (auto simp: lost_def tw idle_def running_def wired_def heard_def intro!: exI [of _ "length g"])
    moreover have "pending (s\<lparr>point := t, wires := w\<rparr>) = pending s"
      using running_client [OF run] by (intro pending_same) (auto simp: tw)
    ultimately show ?thesis
      using run other at hangs unfolding tw(1) by (intro advances_lost) (auto simp: running_def tw(2))
  next
    case True
    have tw: "t = Awaiting" "w = ?w(fd := (?w fd)\<lparr>inq := q\<rparr>,
        clientfd ?p := (?w (clientfd ?p))\<lparr>outq := outq (?w (clientfd ?p)) @ packet_chunks reply\<rparr>)"
      using step_relays [OF other, of ?w reply q] open_fd told(4) True step by auto
    have "running n (s\<lparr>point := t, wires := w\<rparr>) cs h"
      using run told other server by (auto simp: running_def tw wired_def idle_def ending_def)
    moreover have "work (s\<lparr>point := t, wires := w\<rparr>) < work s"
    proof (rule work_less)
      have "pending (s\<lparr>point := t, wires := w\<rparr>) = pending s"
        using running_client [OF run] by (intro pending_same) (auto simp: tw)
      then show "pending (s\<lparr>point := t, wires := w\<rparr>) + weight (length (shard_servers ?p)) t <
          pending s + weight (length (shard_servers ?p)) (point s)" using at by (simp add: tw(1))
    qed (use other in \<open>simp add: tw\<close>)
    ultimately show ?thesis
      using running_good running_client [OF run] told(4) by (auto simp: advances_def tw)
  qed
qed

lemma advances_relay:
  assumes run: "running n s cs h" and at: "point s = Relaying fd"
    and step: "proxy_thread_step (proxy_of s) (point s) (wires s) = Inr (t, w)"
  shows "advances n s h t w"
  using run at
proof (cases rule: relaying_cases)
  case (waits c k)
  then show ?thesis using step step_relay_waits [of "wires s" fd] running_sockets(1) [OF run] at by simp
next
  case (answer g c reply q)
  then show ?thesis using advances_told [OF run at] step at by simp
next
  case hangs
  then show ?thesis
    using advances_hangs [OF run at] step_hangs [of "wires s" fd] running_sockets(1) [OF run] step at by simp
qed

text \<open>A thread that sends a \<^verbatim>\<open>GetAll\<close> to all servers, and one that gathers their answers.\<close>

lemma advances_collecting:
  assumes run: "running n s cs h" and at: "point s = Collecting data"
    and step: "proxy_thread_step (proxy_of s) (point s) (wires s) = Inr (t, w)"
  shows "advances n s h t w"
proof -
  let ?p = "proxy_of s" and ?w = "wires s"
  from run at obtain c where c: "current s c cs h" "data = encode_command c" "command_key c = None"
    and idle: "\<forall>fd \<in> set (shard_servers ?p). idle s fd" by (auto simp: running_def)
  have wf: "wf_command c" using running_wf [OF run] c(1) by (simp add: current_def)
  have wired: "wired n s" using run by (simp add: running_def)
  have "\<forall>fd \<in> set (shard_servers ?p). is_open (?w fd) \<and> (Hangup \<in> set (inq (?w fd)) \<or> wplan (?w fd) = [])"
    using wired wired_server [OF wired] by (auto simp: wired_def)
  from send_all_returns [OF _ encode_command_short [OF wf] this] wired obtain st w' where
    sent: "send_all (shard_servers ?p) (encode_command c) ?w = Inr (st, w')"
      "\<not> ok st \<longrightarrow> (\<exists>fd \<in> set (shard_servers ?p). hung s fd)"
    and w': "\<forall>x. inq (w' x) = inq (?w x) \<and> is_open (w' x) = is_open (?w x) \<and> (x \<notin> set (shard_servers ?p) \<longrightarrow> w' x = ?w x) \<and>
      (x \<in> set (shard_servers ?p) \<and> Hangup \<notin> set (inq (?w x)) \<longrightarrow> wplan (w' x) = [] \<and>
        (outq (w' x) = outq (?w x) @ packet_chunks (encode_command c) \<or> \<not> ok st \<and> outq (w' x) = outq (?w x)))"
    by (auto simp: wired_def)
  have tw: "t = (if ok st then Gathering (shard_servers ?p) [] else Ended st)" "w = w'"
    using step sent(1) at c(2) by auto
  have client: "w' (clientfd ?p) = ?w (clientfd ?p)" using w' running_client [OF run] by simp
  have wired': "wired n (s\<lparr>point := t, wires := w\<rparr>)"
    using wired w' by (auto simp: wired_def tw(2))
  have drops: "inq (?w x) = [] \<and> drop (taken s x) (outq (w' x)) = packet_chunks (encode_command c) \<or>
      inq (?w x) = [] \<and> \<not> ok st \<and> outq (w' x) = outq (?w x) \<and> taken s x = length (outq (?w x))"
    if "x \<in> set (shard_servers ?p)" "inq (?w x) \<noteq> [Hangup]" for x
    using idle w' [rule_format, of x] that by (auto simp: idle_def)
  have heard: "heard (s\<lparr>point := t, wires := w\<rparr>) h"
    using current_heard [OF c(1)] client by (simp add: heard_def tw(2))
  have pend: "pending (s\<lparr>point := t, wires := w\<rparr>) \<le> length (shard_servers ?p)"
    using pending_le [of "s\<lparr>point := t, wires := w\<rparr>"] by simp
  show ?thesis
  proof (cases "ok st")
    case True
    have "running n (s\<lparr>point := t, wires := w\<rparr>) cs h"
      using run at c wired' True w' client drops
      by (auto simp: running_def tw current_def ending_def asked_def intro!: exI [of _ c])
    moreover have "work (s\<lparr>point := t, wires := w\<rparr>) < work s"
      using pend at True client by (intro work_less) (simp_all add: tw)
    ultimately show ?thesis using running_good w' by (auto simp: advances_def tw(2))
  next
    case False
    have "c \<in> set (submitted s)" using c(1) by (simp add: current_def)
    then have "lost (s\<lparr>point := t, wires := w\<rparr>) h"
      using False sent(2) heard c w' drops uses_next(2) [of s "map fst h" c cs]
      by (fastforce simp: lost_def tw current_def)
    then have "advances n s h (Ended st) w"
      using wired' run False pend at w' client unfolding tw by (intro advances_lost) (auto simp: running_def)
    then show ?thesis using False by (simp add: tw(1))
  qed
qed

lemma gathering_head:
  assumes run: "running n s cs h" and at: "point s = Gathering (fd # fds) keys"
  obtains c fds' where "current s c cs h" and "command_key c = None" and "shard_servers (proxy_of s) = fds' @ fd # fds"
    and "\<forall>x \<in> set fds'. idle s x"
    and "\<forall>x \<in> set fds. inq (wires s x) = [Hangup] \<or> asked s x c \<or> (\<exists>reply. told s x reply)"
    and "inq (wires s fd) = [Hangup] \<or> asked s fd c \<or> (\<exists>reply. told s fd reply)"
  using assms by (auto simp: running_def)

lemma gathering_hangs:
  assumes run: "running n s cs h" and at: "point s = Gathering (fd # fds) keys"
    and down: "inq (wires s fd) = [Hangup]"
  shows "advances n s h (Ended Status_Eof) (wires s)"
proof -
  from gathering_head [OF run at] obtain c fds' where
    c: "current s c cs h" "command_key c = None" "shard_servers (proxy_of s) = fds' @ fd # fds"
      "\<forall>x \<in> set fds'. idle s x"
      "\<forall>x \<in> set fds. inq (wires s x) = [Hangup] \<or> asked s x c \<or> (\<exists>reply. told s x reply)" .
  have used: "uses s fd" using uses_next(2) [OF _ c(2)] c(1,3) by (simp add: current_def)
  have mem: "c \<in> set (submitted s)" using c(1) by (simp add: current_def)
  have "hung s x \<or> taken s x = length (outq (wires s x)) \<or>
      (\<exists>c \<in> set (submitted s). command_key c = None \<and> drop (taken s x) (outq (wires s x)) = packet_chunks (encode_command c))"
    if "x \<in> set (shard_servers (proxy_of s))" for x
    using that c(2-5) down mem by (auto simp: idle_def asked_def told_def)
  then have "lost (s\<lparr>point := Ended Status_Eof, wires := wires s\<rparr>) h"
    using used down current_heard [OF c(1)] by (auto simp: lost_def heard_def)
  then show ?thesis
    using run at by (intro advances_lost) (auto simp: running_def wired_def pending_def)
qed

lemma gathering_told:
  assumes run: "running n s cs h" and at: "point s = Gathering (fd # fds) keys"
    and told: "inq (wires s fd) = map Segment (packet_chunks reply) @ q"
      "q = [Hangup] \<or> q = [] \<and> taken s fd = length (outq (wires s fd))"
    and step: "proxy_thread_step (proxy_of s) (Gathering (fd # fds) keys) (wires s) = Inr (t, w)"
  shows "advances n s h t w"
proof -
  let ?p = "proxy_of s" and ?w = "wires s"
  from gathering_head [OF run at] obtain c fds' where
    c: "current s c cs h" "command_key c = None" "shard_servers ?p = fds' @ fd # fds"
      "\<forall>x \<in> set fds'. idle s x"
      "\<forall>x \<in> set fds. inq (?w x) = [Hangup] \<or> asked s x c \<or> (\<exists>reply. told s x reply)" .
  have other: "fd \<noteq> clientfd ?p" using running_sockets(3) [OF run, of fd] c(3) by simp
  have dist: "fd \<notin> set fds'" "fd \<notin> set fds" using run c(3) by (auto simp: running_def wired_def)
  obtain ks where tw: "t = Gathering fds ks" "w = ?w(fd := (?w fd)\<lparr>inq := q\<rparr>)"
    using step_gathers [where w = ?w and fd = fd and p = ?p and fds = fds and keys = keys, OF running_sockets(1) [OF run] told(1)] step by auto
  have "running n (s\<lparr>point := t, wires := w\<rparr>) cs h"
  proof -
    have "wired n (s\<lparr>point := t, wires := w\<rparr>)" using run other told by (auto simp: running_def wired_def tw)
    moreover have "placed t (s\<lparr>point := t, wires := w\<rparr>) cs h"
    proof -
      let ?s = "s\<lparr>point := t, wires := w\<rparr>"
      have same: "idle ?s x = idle s x" "asked ?s x c = asked s x c" "told ?s x r = told s x r" if "x \<noteq> fd" for x r
        using that by (simp_all add: idle_def asked_def told_def tw(2))
      have "idle ?s fd" using told(2) by (auto simp: idle_def tw(2))
      then have "\<forall>x \<in> set (fds' @ [fd]). idle ?s x" using same(1) dist(1) c(4) by (metis Un_iff empty_iff empty_set
            insert_iff list.simps(15) set_append)
      moreover have "\<forall>x \<in> set fds. inq (wires ?s x) = [Hangup] \<or> asked ?s x c \<or> (\<exists>reply. told ?s x reply)"
      proof
        fix x assume x: "x \<in> set fds"
        then have ne: "x \<noteq> fd" using dist(2) by auto
        then have "wires ?s x = ?w x" by (simp add: tw(2))
        then show "inq (wires ?s x) = [Hangup] \<or> asked ?s x c \<or> (\<exists>reply. told ?s x reply)"
          using c(5) x unfolding same(2,3) [OF ne] by simp
      qed
      moreover have "current ?s c cs h" using c(1) other by (simp add: current_def tw(2))
      moreover have "shard_servers (proxy_of ?s) = (fds' @ [fd]) @ fds" using c(3) by simp
      ultimately show ?thesis unfolding tw(1) placed.simps using c(2) by blast
    qed
    ultimately show ?thesis using run other by (auto simp: running_def tw(2) ending_def)
  qed
  moreover have "work (s\<lparr>point := t, wires := w\<rparr>) < work s"
  proof (rule work_less)
    have "pending (s\<lparr>point := t, wires := w\<rparr>) = pending s" by (intro pending_same) (simp add: tw)
    then show "pending (s\<lparr>point := t, wires := w\<rparr>) + weight (length (shard_servers ?p)) t <
        pending s + weight (length (shard_servers ?p)) (point s)" using at by (simp add: tw(1))
  qed (use other in \<open>simp add: tw\<close>)
  ultimately show ?thesis using running_good told(1) by (auto simp: advances_def tw)
qed

lemma advances_gathering:
  assumes run: "running n s cs h" and at: "point s = Gathering fds keys"
    and step: "proxy_thread_step (proxy_of s) (point s) (wires s) = Inr (t, w)"
  shows "advances n s h t w"
proof (cases fds)
  case Nil
  then show ?thesis using step at getall_rest_Nil(2) by (simp del: proxy_thread_step.simps)
next
  case (Cons fd fds')
  note at' = at [unfolded Cons]
  note open_fd = running_sockets(1) [OF run, of fd]
  from gathering_head [OF run at'] consider "inq (wires s fd) = [Hangup]" | "inq (wires s fd) = []"
    | reply q where "inq (wires s fd) = map Segment (packet_chunks reply) @ q"
      "q = [Hangup] \<or> q = [] \<and> taken s fd = length (outq (wires s fd))"
    unfolding asked_def told_def by metis
  then show ?thesis
  proof cases
    case 1
    then show ?thesis
      using gathering_hangs [OF run at'] step_gather_hangs [where w = "wires s", OF open_fd] step at'
      by (simp del: proxy_thread_step.simps)
  next
    case 2
    then show ?thesis using step_gather_waits [where w = "wires s", OF open_fd] step at' by (simp del: proxy_thread_step.simps)
  next
    case (3 reply q)
    then show ?thesis using gathering_told [OF run at'] step at' by simp
  qed
qed

lemma session_advances:
  assumes good: "session_good n s h" and run: "\<And>st. point s \<noteq> Ended st"
    and step: "proxy_thread_step (proxy_of s) (point s) (wires s) = Inr (t, w)"
  shows "advances n s h t w"
proof -
  have "\<not> lost s h" using run by (simp add: lost_def)
  from session_running [OF good this] obtain cs where cs: "running n s cs h" .
  show ?thesis
  proof (cases "point s")
    case Awaiting
    then show ?thesis using advances_at_end advances_read cs step by (cases cs) auto
  next
    case (Dispatching key data)
    then show ?thesis using advances_dispatch [OF cs _ step] by blast
  next
    case (Relaying fd)
    then show ?thesis using advances_relay [OF cs _ step] by blast
  next
    case (Collecting data)
    then show ?thesis using advances_collecting [OF cs _ step] by blast
  next
    case (Gathering fds keys)
    then show ?thesis using advances_gathering [OF cs _ step] by blast
  next
    case (Ended st)
    then show ?thesis using run by simp
  qed
qed

text \<open>The server of a key, as the policy and as the worker see it.\<close>

lemma route_owner:
  assumes "route p k = Inr (shard_servers p ! j)" and "j < length (shard_servers p)"
    and "distinct (shard_servers p)" and "num_nodes p = int (length (shard_servers p))"
  shows "owner (num_nodes p) k = Inr (int j + 1)"
proof -
  from assms(1) obtain i where i: "GetShardId (num_nodes p) k = Inr i" "1 \<le> i" "nat (i - 1) < length (shard_servers p)"
    "shard_servers p ! nat (i - 1) = shard_servers p ! j"
    by (auto simp: route_def server_at_def result_simps split: if_splits)
  then have "nat (i - 1) = j" using assms(2,3) by (simp add: nth_eq_iff_index_eq)
  then have "i = int j + 1" using i(2) by simp
  then show ?thesis using i(1) assms(2,4) by (simp add: owner_def)
qed

lemma owner_route:
  assumes "owner n k = Inr i" and "wired n s"
  shows "1 \<le> i \<and> nat (i - 1) < length (shard_servers (proxy_of s)) \<and>
    route (proxy_of s) k = Inr (shard_servers (proxy_of s) ! nat (i - 1))"
  using assms by (auto simp: owner_def route_def wired_def server_at_def result_simps split: if_splits)

section \<open>Where a thread stops\<close>

text \<open>The client has all its replies; the thread has ended as the client's connection broke or a server fell
  that the client has sent a command for; and the thread waits for the answer of a server that has been
  sent a command.\<close>

definition answered :: "session \<Rightarrow> (command \<times> bytes) list \<Rightarrow> bool" where
  "answered s h \<longleftrightarrow> submitted s = map fst h \<and> outq (wires s (clientfd (proxy_of s))) = replies h \<and>
     (if gone s then \<exists>st. point s = Ended st \<and> ok st else point s = Awaiting)"

definition cut_off :: "session \<Rightarrow> bool" where
  "cut_off s \<longleftrightarrow> (\<exists>st. point s = Ended st) \<and> (broken s \<or> (\<exists>fd. uses s fd \<and> hung s fd))"

definition awaits :: "session \<Rightarrow> nat \<Rightarrow> command \<Rightarrow> bool" where
  "awaits s j c \<longleftrightarrow> j < length (shard_servers (proxy_of s)) \<and>
     (let fd = shard_servers (proxy_of s) ! j in
       (point s = Relaying fd \<or> (\<exists>fds keys. point s = Gathering (fd # fds) keys)) \<and> \<not> hung s fd \<and>
       (\<exists>pk rest. ReadFromClient (unread s fd) = Inr (StatusOr_ptr (Some pk), rest) \<and> packet_command pk = c))"

lemma asked_awaits:
  assumes run: "running n s cs h" and mem: "fd \<in> set (shard_servers (proxy_of s))" and wf: "wf_command c"
    and empty: "inq (wires s fd) = []"
    and sent: "drop (taken s fd) (outq (wires s fd)) = packet_chunks (encode_command c)"
    and at: "point s = Relaying fd \<or> (\<exists>fds keys. point s = Gathering (fd # fds) keys)"
  shows "\<exists>j. awaits s j c"
proof -
  have "ReadFromClient (unread s fd) =
      Inr (StatusOr_ptr (Some (command_object (received_packet c) c)), (unread s fd)\<lparr>inq := []\<rparr>)"
    using sent by (intro ReadFromClient_object [OF wf]) (simp_all add: unread_def)
  moreover obtain j where "j < length (shard_servers (proxy_of s))" "fd = shard_servers (proxy_of s) ! j"
    using mem by (auto simp: in_set_conv_nth)
  ultimately have "awaits s j c" using at empty by (auto simp: awaits_def Let_def)
  then show ?thesis ..
qed

lemma stops_awaiting:
  assumes run: "running n s cs h" and at: "point s = Awaiting"
    and stop: "proxy_thread_step (proxy_of s) Awaiting (wires s) = Inl e"
  shows "answered s h \<and> e = Blocked"
proof -
  let ?p = "proxy_of s" and ?w = "wires s"
  note sockets = running_sockets(1) [OF run]
  have q: "inq (?w (clientfd ?p)) = requests cs @ ending s" using run by (simp add: running_def)
  have "cs = []"
  proof (rule ccontr)
    assume "cs \<noteq> []"
    then obtain c cs' where c: "cs = c # cs'" by (cases cs) auto
    then have "wf_command c" using running_wf [OF run] run at by (simp add: running_def)
    from step_reads [OF this, of ?w ?p] show False using sockets q c stop by simp
  qed
  moreover have "\<not> gone s" using step_leaves [of ?w ?p] sockets q stop \<open>cs = []\<close> by (auto simp: ending_def)
  moreover from this have "\<not> broken s"
    using step_breaks [of ?w ?p] sockets q stop \<open>cs = []\<close> by (auto simp: ending_def)
  moreover have "e = Blocked"
    using step_waits [of s ?p] sockets q stop calculation by (simp add: ending_def)
  ultimately show ?thesis using run at by (simp add: answered_def running_def)
qed

lemma stops_relaying:
  assumes run: "running n s cs h" and at: "point s = Relaying fd"
    and stop: "proxy_thread_step (proxy_of s) (Relaying fd) (wires s) = Inl e"
  shows "(\<exists>j c. awaits s j c) \<and> e = Blocked"
  using run at
proof (cases rule: relaying_cases)
  case (waits c k)
  have "wf_command c" using running_wf [OF run, of c] waits(1) by (simp add: current_def)
  then have "\<exists>j. awaits s j c"
    using asked_awaits [OF run relaying_server(1) [OF run at]] waits(4,5) at by blast
  then show ?thesis
    using stop step_relay_waits [of "wires s" fd] running_sockets(1) [OF run] waits(4) by auto
next
  case (answer g c reply q)
  have other: "fd \<noteq> clientfd (proxy_of s)"
    using running_sockets(3) [OF run] relaying_server(1) [OF run at] .
  show ?thesis
    using step_relays [OF other, of "wires s" reply q] step_loses [OF other, of "wires s" reply q]
      running_sockets(1) [OF run] answer(4) run stop
    by (auto simp: running_def simp del: proxy_thread_step.simps)
next
  case hangs
  then show ?thesis
    using step_hangs [of "wires s" fd "proxy_of s"] running_sockets(1) [OF run] stop
    by (simp del: proxy_thread_step.simps)
qed

text \<open>A thread does not wait in a lookup of a key, nor when it sends a \<^verbatim>\<open>GetAll\<close>.\<close>

lemma stops_dispatching:
  assumes run: "running n s cs h" and at: "point s = Dispatching key data"
    and stop: "proxy_thread_step (proxy_of s) (Dispatching key data) (wires s) = Inl e"
  shows "e \<noteq> Blocked \<and> (\<exists>c \<in> set (submitted s). unservable n c)"
proof -
  from dispatching_command [OF run at] obtain c where
    c: "current s c cs h" "data = encode_command c" "wf_command c" "command_key c = Some key" .
  have down: "route (proxy_of s) key \<noteq> Inr fd" for fd
  proof
    assume "route (proxy_of s) key = Inr fd"
    from step_dispatches_down [OF c(3) this, of "wires s"] show False
      using stop c(2) by (auto simp del: proxy_thread_step.simps)
  qed
  then obtain e' where e': "route (proxy_of s) key = Inl e'" by (cases "route (proxy_of s) key") auto
  have "wired n s" using run by (simp add: running_def)
  then have "unservable n c"
    using c(4) down owner_route [of n key _ s] by (auto simp: unservable_def)
  then show ?thesis
    using step_dispatch_halts(1) [OF e', of data "wires s"] step_dispatch_halts(2) [OF e'] stop c(1)
    by (auto simp: current_def simp del: proxy_thread_step.simps)
qed

lemma collecting_goes_on:
  assumes run: "running n s cs h" and at: "point s = Collecting data"
  shows "\<exists>tw. proxy_thread_step (proxy_of s) (Collecting data) (wires s) = Inr tw"
proof -
  from run at obtain c where c: "current s c cs h" "data = encode_command c" by (auto simp: running_def)
  have wf: "wf_command c" using running_wf [OF run] c(1) by (simp add: current_def)
  have wired: "wired n s" using run by (simp add: running_def)
  have "\<forall>fd \<in> set (shard_servers (proxy_of s)). is_open (wires s fd) \<and>
      (Hangup \<in> set (inq (wires s fd)) \<or> wplan (wires s fd) = [])"
    using wired wired_server [OF wired] by (auto simp: wired_def)
  from send_all_returns [OF _ encode_command_short [OF wf] this] wired show ?thesis
    using c(2) by (auto simp: wired_def)
qed

lemma stops_gathering:
  assumes run: "running n s cs h" and at: "point s = Gathering fds keys"
    and stop: "proxy_thread_step (proxy_of s) (Gathering fds keys) (wires s) = Inl e"
  shows "(e = Blocked \<longrightarrow> (\<exists>j c. awaits s j c)) \<and> (\<exists>c \<in> set (submitted s). unservable n c)"
proof -
  from run at obtain c0 where "current s c0 cs h" "command_key c0 = None" by (auto simp: running_def)
  then have un: "\<exists>c \<in> set (submitted s). unservable n c" by (auto simp: current_def unservable_def)
  have "\<exists>j c. awaits s j c" if "e = Blocked"
  proof (cases fds)
    case Nil
    then show ?thesis using stop that getall_rest_Nil(2) by (simp del: proxy_thread_step.simps)
  next
    case (Cons fd fds')
    note at' = at [unfolded Cons]
    note open_fd = running_sockets(1) [OF run, of fd]
    from gathering_head [OF run at'] obtain c xs where c: "current s c cs h" "shard_servers (proxy_of s) = xs @ fd # fds'"
      "inq (wires s fd) = [Hangup] \<or> asked s fd c \<or> (\<exists>reply. told s fd reply)" .
    have wf: "wf_command c" using running_wf [OF run] c(1) by (simp add: current_def)
    have mem: "fd \<in> set (shard_servers (proxy_of s))" using c(2) by simp
    have "inq (wires s fd) \<noteq> [Hangup]"
      using step_gather_hangs [where w = "wires s", OF open_fd] stop Cons by (auto simp del: proxy_thread_step.simps)
    moreover have "\<not> told s fd reply" for reply
    proof
      assume "told s fd reply"
      then obtain q where "inq (wires s fd) = map Segment (packet_chunks reply) @ q" by (auto simp: told_def)
      from step_gathers [where w = "wires s" and p = "proxy_of s" and fds = fds' and keys = keys, OF open_fd this]
      show False using stop Cons that by (auto simp del: proxy_thread_step.simps)
    qed
    ultimately have "asked s fd c" using c(3) by blast
    then show ?thesis using asked_awaits [OF run mem wf] at' by (auto simp: asked_def)
  qed
  then show ?thesis using un by blast
qed

text \<open>A thread that does not make a step waits, for its client or for a shard, unless its client has sent a
  command no server is responsible for.\<close>

lemma session_stops:
  assumes good: "session_good n s h"
    and stop: "(\<exists>st. point s = Ended st) \<or> proxy_thread_step (proxy_of s) (point s) (wires s) = Inl e"
  shows "((\<exists>st. point s = Ended st) \<or> e = Blocked \<longrightarrow> answered s h \<or> cut_off s \<or> (\<exists>j c. awaits s j c)) \<and>
    ((\<exists>st. point s = Ended st) \<or> e = Blocked \<or> (\<exists>c \<in> set (submitted s). unservable n c))"
proof (cases "lost s h")
  case True
  then show ?thesis by (simp add: lost_def cut_off_def)
next
  case False
  from session_running [OF good this] obtain cs where run: "running n s cs h" .
  show ?thesis
  proof (cases "point s")
    case Awaiting
    then show ?thesis using stops_awaiting [OF run] stop by auto
  next
    case (Dispatching key data)
    then show ?thesis using stops_dispatching [OF run] stop by auto
  next
    case (Relaying fd)
    then show ?thesis using stops_relaying [OF run] stop by auto
  next
    case (Collecting data)
    then show ?thesis using collecting_goes_on [OF run] stop by (auto simp del: proxy_thread_step.simps)
  next
    case (Gathering fds keys)
    then show ?thesis using stops_gathering [OF run] stop by auto
  next
    case (Ended st)
    then show ?thesis using run by (auto simp: answered_def running_def)
  qed
qed

lemma session_blocks:
  assumes "session_good n s h"
  shows "proxy_thread_step (proxy_of s) (point s) (wires s) \<in> insert (Inl Blocked) (range Inr) \<or>
    (\<exists>c \<in> set (submitted s). unservable n c)"
proof (cases "proxy_thread_step (proxy_of s) (point s) (wires s)")
  case (Inl e)
  then have "\<not> (\<exists>st. point s = Ended st)" by auto
  then show ?thesis using session_stops [OF assms disjI2 [OF Inl]] Inl by auto
qed simp

end
