(* ===== verification/Sqpkv_Session_Moves.thy ===== *)
theory Sqpkv_Session_Moves
  imports Sqpkv_Session_Steps
begin

text \<open>
  What the other moves of \<open>Sqpkv_Sessions\<close> do to one session: a shard that executes its command, what its
  client does, and the fall of one of its servers keep the invariant \<open>session_good\<close>, and the client
  stays in step with its worker (\<open>in_step\<close>).
\<close>

section \<open>A shard executes\<close>

text \<open>What a shard reads is a command a thread waits for, whose key it owns if it has one, or a \<^verbatim>\<open>GetAll\<close> that
  a thread has sent and given up on.\<close>

lemma reads_nothing: "ReadFromClient (fresh_socket\<lparr>inq := []\<rparr>) = Inl Blocked"
  by (simp add: ReadFromClient_def ReadWholePacket_def read_loop_unfold sys_read_def)

lemma reads_sent:
  assumes "wf_command c" and "drop (taken s fd) (outq (wires s fd)) = packet_chunks (encode_command c)"
    and "ReadFromClient (unread s fd) = Inr (StatusOr_ptr (Some pk), rest)"
  shows "packet_command pk = c" and "inq rest = []"
proof -
  have "ReadFromClient (unread s fd) =
      Inr (StatusOr_ptr (Some (command_object (received_packet c) c)), (unread s fd)\<lparr>inq := []\<rparr>)"
    using assms(2) by (intro ReadFromClient_object [OF assms(1)]) (simp_all add: unread_def)
  then show "packet_command pk = c" "inq rest = []" using assms(3) by (auto simp: StatusOr_ptr_def)
qed

lemma pending_answered:
  assumes mem: "fd \<in> set (shard_servers (proxy_of s))" and "taken s fd \<noteq> length (outq (wires s fd))" and "inq rest = []"
  shows "pending (answered_by s fd reply rest) < pending s"
proof -
  let ?P = "\<lambda>x. taken s x \<noteq> length (outq (wires s x))" and ?xs = "shard_servers (proxy_of s)"
  have "pending (answered_by s fd reply rest) = length (filter (\<lambda>x. x \<noteq> fd) (filter ?P ?xs))"
    using assms(3) unfolding pending_def filter_filter
    by (intro arg_cong [where f = length]) (auto simp: answered_by_def deliver_def intro!: filter_cong)
  also have "\<dots> < length (filter ?P ?xs)" using mem assms(2) by (intro length_filter_less [of fd]) auto
  finally show ?thesis by (simp add: pending_def)
qed

lemma work_answered:
  assumes wired: "wired n s" and mem: "fd \<in> set (shard_servers (proxy_of s))"
    and "taken s fd \<noteq> length (outq (wires s fd))" and "inq rest = []"
  shows "work (answered_by s fd reply rest) < work s"
proof -
  have "clientfd (proxy_of s) \<noteq> fd" using wired_server [OF wired mem] by simp
  then have "work (answered_by s fd reply rest) + pending s = work s + pending (answered_by s fd reply rest)"
    unfolding work_eq by (simp add: answered_by_def deliver_def)
  then show ?thesis using pending_answered [OF mem assms(3,4), of reply] by linarith
qed

text \<open>The log of a session after the execution of a command.\<close>

definition log_with :: "(command \<times> bytes) list \<Rightarrow> command \<Rightarrow> bytes \<Rightarrow> (command \<times> bytes) list" where
  "log_with h c reply = (if command_key c = None then h else h @ [(c, reply)])"

lemma executes_asked:
  assumes run: "running n s cs h" and at: "point s = Relaying fd"
    and j: "j < length (shard_servers (proxy_of s))" and fd: "fd = shard_servers (proxy_of s) ! j"
    and c: "current s c cs h" "command_key c = Some k" "route (proxy_of s) k = Inr fd"
    and sent: "inq (wires s fd) = []" "drop (taken s fd) (outq (wires s fd)) = packet_chunks (encode_command c)"
    and rest: "inq rest = []"
  shows "owner n k = Inr (int j + 1) \<and> running n (answered_by s fd reply rest) cs (h @ [(c, reply)])"
proof -
  note server = relaying_server [OF run at]
  note other = running_sockets(3) [OF run server(1)]
  have "owner n k = Inr (int j + 1)"
    using route_owner [of "proxy_of s" k j] c(3) fd j run by (simp add: running_def wired_def)
  moreover have "running n (answered_by s fd reply rest) cs (h @ [(c, reply)])"
    using run at c sent other server rest
    by (auto simp: running_def current_def told_def answered_by_def wired_def idle_def deliver_def ending_def)
  ultimately show ?thesis ..
qed

lemma executes_getall:
  assumes run: "running n s cs h" and at: "point s = Gathering fds keys" and mem: "fd \<in> set fds"
    and sent: "inq (wires s fd) = []" and rest: "inq rest = []"
  shows "running n (answered_by s fd reply rest) cs h"
proof -
  let ?s = "answered_by s fd reply rest"
  from run at obtain c xs where c: "current s c cs h" "command_key c = None" "shard_servers (proxy_of s) = xs @ fds"
    "\<forall>x \<in> set xs. idle s x"
    "\<forall>x \<in> set fds. inq (wires s x) = [Hangup] \<or> asked s x c \<or> (\<exists>reply. told s x reply)"
    by (auto simp: running_def)
  have other: "fd \<noteq> clientfd (proxy_of s)" using running_sockets(3) [OF run, of fd] c(3) mem by simp
  have dist: "fd \<notin> set xs" using run c(3) mem by (auto simp: running_def wired_def)
  have same: "idle ?s x = idle s x" "asked ?s x c = asked s x c" "told ?s x r = told s x r" "wires ?s x = wires s x"
    if "x \<noteq> fd" for x r
    using that by (simp_all add: idle_def asked_def told_def answered_by_def deliver_def)
  have "told ?s fd reply" using sent rest by (simp add: told_def answered_by_def deliver_def)
  then have "\<forall>x \<in> set fds. inq (wires ?s x) = [Hangup] \<or> asked ?s x c \<or> (\<exists>reply. told ?s x reply)"
    using c(5) same by metis
  moreover have "\<forall>x \<in> set xs. idle ?s x" using c(4) same(1) dist by metis
  moreover have "current ?s c cs h" "shard_servers (proxy_of ?s) = xs @ fds"
    using c(1,3) other by (auto simp: current_def answered_by_def deliver_def)
  ultimately have "placed (point ?s) ?s cs h"
    using c(2) at by (auto simp: answered_by_def intro!: exI [of _ c] exI [of _ xs])
  then show ?thesis
    using run other by (auto simp: running_def answered_by_def deliver_def wired_def ending_def)
qed

lemma executes_lost:
  assumes wired: "wired n s" and lost: "lost s h" and mem: "fd \<in> set (shard_servers (proxy_of s))"
    and rest: "inq rest = []"
  shows "lost (answered_by s fd reply rest) h"
  using lost mem rest wired_server [OF wired mem]
  by (auto simp: lost_def answered_by_def deliver_def heard_def uses_def)

lemma running_unread:
  assumes run: "running n s cs h" and mem: "fd \<in> set (shard_servers (proxy_of s))" and up: "\<not> hung s fd"
    and sent: "taken s fd \<noteq> length (outq (wires s fd))"
  obtains "point s = Relaying fd" | fds keys where "point s = Gathering fds keys" and "fd \<in> set fds"
proof -
  have "\<not> idle s fd" using up sent by (auto simp: idle_def)
  then show thesis using run mem that by (cases "point s") (auto simp: running_def)
qed

lemma running_executes:
  assumes run: "running n s cs h" and j: "j < length (shard_servers (proxy_of s))"
    and fd: "fd = shard_servers (proxy_of s) ! j" and up: "\<not> hung s fd"
    and sent: "taken s fd \<noteq> length (outq (wires s fd))"
    and rd: "ReadFromClient (unread s fd) = Inr (StatusOr_ptr (Some pk), rest)"
  shows "inq rest = [] \<and> wf_command (packet_command pk) \<and>
    (\<forall>k. command_key (packet_command pk) = Some k \<longrightarrow> owner n k = Inr (int j + 1)) \<and>
    running n (answered_by s fd reply rest) cs (log_with h (packet_command pk) reply)"
proof -
  have mem: "fd \<in> set (shard_servers (proxy_of s))" using j fd by simp
  from run mem up sent show ?thesis
  proof (cases rule: running_unread)
    case 1
    from run 1 show ?thesis
    proof (cases rule: relaying_cases)
      case (waits c k)
      have wf: "wf_command c" using running_wf [OF run, of c] waits(1) by (simp add: current_def)
      note pk = reads_sent [OF wf waits(5) rd]
      then show ?thesis
        using executes_asked [OF run 1 j fd waits, where rest = rest] wf waits(2) by (auto simp: log_with_def)
    qed (use sent up in auto)
  next
    case (2 fds keys)
    from run 2(1) obtain c where c: "current s c cs h" "command_key c = None"
      "\<forall>x \<in> set fds. inq (wires s x) = [Hangup] \<or> asked s x c \<or> (\<exists>reply. told s x reply)"
      by (auto simp: running_def)
    then have asked: "asked s fd c" using 2(2) sent up by (auto simp: told_def)
    have wf: "wf_command c" using running_wf [OF run, of c] c(1) by (simp add: current_def)
    note pk = reads_sent [OF wf _ rd]
    then show ?thesis
      using executes_getall [OF run 2] asked wf c(2) by (auto simp: asked_def log_with_def)
  qed
qed

lemma session_executes:
  assumes good: "session_good n s h" and j: "j < length (shard_servers (proxy_of s))"
    and fd: "fd = shard_servers (proxy_of s) ! j" and up: "\<not> hung s fd"
    and rd: "ReadFromClient (unread s fd) = Inr (StatusOr_ptr (Some pk), rest)"
  shows "wf_command (packet_command pk) \<and>
    (\<forall>k. command_key (packet_command pk) = Some k \<longrightarrow> owner n k = Inr (int j + 1)) \<and>
    session_good n (answered_by s fd reply rest) (log_with h (packet_command pk) reply) \<and>
    work (answered_by s fd reply rest) < work s"
proof -
  have mem: "fd \<in> set (shard_servers (proxy_of s))" using j fd by simp
  have wired: "wired n s" using good by (simp add: session_good_def)
  have sent: "taken s fd \<noteq> length (outq (wires s fd))" using rd reads_nothing by (auto simp: unread_def)
  show ?thesis
  proof (cases "lost s h")
    case True
    then obtain c where c: "c \<in> set (submitted s)" "command_key c = None"
      "drop (taken s fd) (outq (wires s fd)) = packet_chunks (encode_command c)"
      using mem up sent by (auto simp: lost_def)
    have wf: "wf_command c" using wired c(1) by (simp add: wired_def)
    note pk = reads_sent [OF wf c(3) rd]
    have "wired n (answered_by s fd reply rest)"
      using wired up by (auto simp: wired_def answered_by_def deliver_def)
    then have "session_good n (answered_by s fd reply rest) h"
      using executes_lost [OF wired True mem pk(2)] good
      by (intro lost_good) (auto simp: session_good_def answered_by_def)
    then show ?thesis
      using pk wf c(2) work_answered [OF wired mem sent pk(2)] by (simp add: log_with_def)
  next
    case False
    from session_running [OF good this] obtain cs where run: "running n s cs h" .
    note exec = running_executes [OF run j fd up sent rd, of reply]
    then show ?thesis using running_good work_answered [OF wired mem sent] by blast
  qed
qed

section \<open>Clients and faults\<close>

text \<open>What a client does keeps the invariant, whether its thread is still there or not, and so does the
  fall of a server.\<close>

lemma heard_length: "heard s h \<Longrightarrow> length h \<le> length (submitted s)"
  by (metis heard_def length_map length_take min.bounded_iff nle_le)

lemma uses_server: "uses s fd \<Longrightarrow> fd \<in> set (shard_servers (proxy_of s))"
  using route_servers by (auto simp: uses_def needs_def split: option.splits)

lemma uses_more:
  "uses s fd \<Longrightarrow> submitted s' = submitted s @ cs \<Longrightarrow> proxy_of s' = proxy_of s \<Longrightarrow> uses s' fd"
  by (auto simp: uses_def)

lemma lost_stays:
  assumes "lost s h" and "proxy_of s' = proxy_of s" and "point s' = point s" and "broken s \<longrightarrow> broken s'"
    and more: "submitted s' = submitted s @ cs"
    and "outq (wires s' (clientfd (proxy_of s))) = outq (wires s (clientfd (proxy_of s)))"
    and same: "\<And>fd. fd \<in> set (shard_servers (proxy_of s)) \<Longrightarrow> (hung s fd \<longrightarrow> hung s' fd) \<and>
      taken s' fd = taken s fd \<and> outq (wires s' fd) = outq (wires s fd)"
  shows "lost s' h"
proof -
  have "broken s' \<or> (\<exists>fd. uses s' fd \<and> hung s' fd)"
    using assms(1,4) same uses_more [OF _ more assms(2)] uses_server by (meson lost_def)
  moreover have "heard s' h"
    using assms(1,2,6) heard_length [of s h] more by (auto simp: lost_def heard_def)
  moreover have "hung s' fd \<or> taken s' fd = length (outq (wires s' fd)) \<or> (\<exists>c \<in> set (submitted s'). command_key c = None \<and>
      drop (taken s' fd) (outq (wires s' fd)) = packet_chunks (encode_command c))"
    if "fd \<in> set (shard_servers (proxy_of s))" for fd
  proof -
    have "hung s fd \<or> taken s fd = length (outq (wires s fd)) \<or> (\<exists>c \<in> set (submitted s). command_key c = None \<and>
        drop (taken s fd) (outq (wires s fd)) = packet_chunks (encode_command c))"
      using assms(1) that unfolding lost_def by blast
    then show ?thesis using same [OF that] more by (auto simp del: hung_def)
  qed
  ultimately show ?thesis using assms(1-3) unfolding lost_def by simp
qed

lemma placed_more:
  assumes "placed t s cs h" and "t = point s" and "\<not> gone s"
    and "clientfd (proxy_of s) \<notin> set (shard_servers (proxy_of s))"
  shows "placed t (client_sends c s) (cs @ [c]) h"
proof -
  let ?s = "client_sends c s"
  have same: "idle ?s fd = idle s fd" "asked ?s fd b = asked s fd b" "told ?s fd r = told s fd r"
    "wires ?s fd = wires s fd" if "fd \<in> set (shard_servers (proxy_of s))" for fd b r
    using that assms(4) by (auto simp: client_sends_def deliver_def idle_def asked_def told_def)
  have eqs: "proxy_of ?s = proxy_of s" "submitted ?s = submitted s @ [c]" "taken ?s = taken s"
    "outq (wires ?s (clientfd (proxy_of s))) = outq (wires s (clientfd (proxy_of s)))"
    by (simp_all add: client_sends_def deliver_def)
  have used: "uses s fd \<Longrightarrow> uses ?s fd" for fd by (rule uses_more) (simp_all add: eqs)
  have heard: "heard s h \<Longrightarrow> heard ?s h" using heard_length [of s h] by (auto simp: heard_def eqs)
  show ?thesis
  proof (cases t)
    case (Gathering fds keys)
    from assms(1) [unfolded Gathering] obtain b xs where b: "current s b cs h" "command_key b = None"
      "shard_servers (proxy_of s) = xs @ fds" "\<forall>fd \<in> set xs. idle s fd"
      "\<forall>fd \<in> set fds. inq (wires s fd) = [Hangup] \<or> asked s fd b \<or> (\<exists>reply. told s fd reply)"
      by auto
    then show ?thesis
      unfolding Gathering placed.simps using same
      by (intro exI [of _ b] exI [of _ xs]) (auto simp: current_def eqs)
  qed (use assms(1-3) same used heard in \<open>auto simp: eqs current_def\<close>)
qed

lemma client_sends_good:
  assumes good: "session_good n s h" and "\<not> gone s" and "\<not> broken s" and wf: "wf_command c"
  shows "session_good n (client_sends c s) h"
proof -
  have wired: "wired n s" using good by (simp add: session_good_def)
  then have wired2: "wired n (client_sends c s)"
    using wf by (auto simp: client_sends_def wired_def deliver_def)
  show ?thesis
  proof (cases "lost s h")
    case True
    then have "lost (client_sends c s) h"
      by (rule lost_stays [where cs = "[c]"])
        (use wired_server [OF wired] in \<open>auto simp: client_sends_def deliver_def\<close>)
    then show ?thesis using wired2 assms(2) by (intro lost_good) (auto simp: client_sends_def)
  next
    case False
    from session_running [OF good this] obtain cs where run: "running n s cs h" .
    then have "placed (point s) (client_sends c s) (cs @ [c]) h"
      using assms(2) by (intro placed_more) (auto simp: running_def wired_def)
    then have "running n (client_sends c s) (cs @ [c]) h"
      using run wired2 assms(2,3) by (auto simp: running_def client_sends_def deliver_def ending_def)
    then show ?thesis by (rule running_good)
  qed
qed

lemma placed_same:
  assumes "placed t s cs h" and "\<And>st. t \<noteq> Ended st"
    and "proxy_of s' = proxy_of s" "submitted s' = submitted s" "taken s' = taken s"
      "outq (wires s' (clientfd (proxy_of s))) = outq (wires s (clientfd (proxy_of s)))"
    and "\<And>fd. fd \<in> set (shard_servers (proxy_of s)) \<Longrightarrow> wires s' fd = wires s fd"
  shows "placed t s' cs h"
proof -
  have same: "idle s' fd = idle s fd" "asked s' fd b = asked s fd b" "told s' fd r = told s fd r"
    "wires s' fd = wires s fd" if "fd \<in> set (shard_servers (proxy_of s))" for fd b r
    using assms(5) assms(7) [OF that] by (simp_all add: idle_def asked_def told_def)
  have other: "uses s' = uses s" "heard s' h = heard s h" "current s' b cs h = current s b cs h" for b
    using assms(3-6) by (simp_all add: uses_def fun_eq_iff heard_def current_def)
  show ?thesis
  proof (cases t)
    case (Gathering fds keys)
    from assms(1) [unfolded Gathering] obtain b xs where b: "current s b cs h" "command_key b = None"
      "shard_servers (proxy_of s) = xs @ fds" "\<forall>fd \<in> set xs. idle s fd"
      "\<forall>fd \<in> set fds. inq (wires s fd) = [Hangup] \<or> asked s fd b \<or> (\<exists>reply. told s fd reply)"
      by auto
    then show ?thesis
      unfolding Gathering placed.simps using same other assms(3)
      by (intro exI [of _ b] exI [of _ xs]) auto
  qed (use assms(1-6) same other in auto)
qed

lemma client_ends_good:
  assumes good: "session_good n s h" and "\<not> gone s" and "\<not> broken s"
  shows "session_good n (client_leaves s) h" and "plan \<in> {[], [-1]} \<Longrightarrow> session_good n (client_breaks plan s) h"
proof -
  have wired: "wired n s" using good by (simp add: session_good_def)
  have wired2: "wired n (client_leaves s)" "wired n (client_breaks plan s)"
    using wired by (auto simp: client_leaves_def client_breaks_def wired_def deliver_def)
  note other = wired_server [OF wired]
  have "session_good n (client_leaves s) h \<and> (plan \<in> {[], [-1]} \<longrightarrow> session_good n (client_breaks plan s) h)"
  proof (cases "lost s h")
    case True
    then have "lost (client_leaves s) h" "lost (client_breaks plan s) h"
      using other
      by (auto intro!: lost_stays [OF True, where cs = "[]"] simp: client_leaves_def client_breaks_def deliver_def)
    then show ?thesis
      using wired2 assms(2,3) by (auto intro!: lost_good simp: client_leaves_def client_breaks_def)
  next
    case False
    from session_running [OF good this] obtain cs where run: "running n s cs h" .
    then have at: "placed (point s) s cs h" "\<And>st. point s \<noteq> Ended st"
      using assms(2) by (auto simp: running_def)
    have "placed (point s) (client_leaves s) cs h" "placed (point s) (client_breaks plan s) cs h"
      by (rule placed_same [OF at]; use other in \<open>auto simp: client_leaves_def client_breaks_def deliver_def\<close>)+
    then have "running n (client_leaves s) cs h" "plan \<in> {[], [-1]} \<Longrightarrow> running n (client_breaks plan s) cs h"
      using run wired2 assms(2,3)
      by (auto simp: running_def client_leaves_def client_breaks_def deliver_def ending_def)
    then show ?thesis by (auto intro: running_good)
  qed
  then show "session_good n (client_leaves s) h" "plan \<in> {[], [-1]} \<Longrightarrow> session_good n (client_breaks plan s) h"
    by simp_all
qed

lemma client_hears_good:
  assumes good: "session_good n s h" and "\<not> gone s"
  shows "session_good n (client_hears rest s) h"
proof -
  have wired: "wired n (client_hears rest s)" using good by (simp add: session_good_def wired_def client_hears_def)
  show ?thesis
  proof (cases "lost s h")
    case True
    then have "lost (client_hears rest s) h" by (rule lost_stays [where cs = "[]"]) (simp_all add: client_hears_def)
    then show ?thesis using wired assms(2) by (intro lost_good) (auto simp: client_hears_def)
  next
    case False
    from session_running [OF good this] obtain cs where run: "running n s cs h" .
    then have at: "placed (point s) s cs h" "\<And>st. point s \<noteq> Ended st"
      using assms(2) by (auto simp: running_def)
    have "placed (point s) (client_hears rest s) cs h"
      by (rule placed_same [OF at]) (simp_all add: client_hears_def)
    then have "running n (client_hears rest s) cs h"
      using run wired by (auto simp: running_def client_hears_def ending_def)
    then show ?thesis by (rule running_good)
  qed
qed

text \<open>What becomes of a connection whose server falls; the others stay as they are.\<close>

lemma falls_at:
  assumes "\<not> hung s fd"
  shows "idle s fd \<Longrightarrow> inq (wires (server_falls fd arrived plan s) fd) = [Hangup]"
    and "asked s fd c \<Longrightarrow> inq (wires (server_falls fd arrived plan s) fd) = [Hangup]"
    and "told s fd r \<Longrightarrow> inq (wires (server_falls fd arrived plan s) fd) = [Hangup] \<or> told (server_falls fd arrived plan s) fd r"
  using assms by (auto simp: server_falls_def idle_def asked_def told_def)

lemma falls_other:
  assumes "x \<noteq> fd"
  shows "idle (server_falls fd arrived plan s) x = idle s x" "asked (server_falls fd arrived plan s) x c = asked s x c"
    "told (server_falls fd arrived plan s) x r = told s x r" "wires (server_falls fd arrived plan s) x = wires s x"
  using assms by (auto simp: server_falls_def idle_def asked_def told_def)

lemma falls_same [simp]:
  "proxy_of (server_falls fd arrived plan s) = proxy_of s" "submitted (server_falls fd arrived plan s) = submitted s"
  "taken (server_falls fd arrived plan s) = taken s" "point (server_falls fd arrived plan s) = point s"
  "gone (server_falls fd arrived plan s) = gone s" "broken (server_falls fd arrived plan s) = broken s"
  "busy (server_falls fd arrived plan s) = busy s" "got (server_falls fd arrived plan s) = got s"
  "uses (server_falls fd arrived plan s) = uses s" "ending (server_falls fd arrived plan s) = ending s"
  "outq (wires (server_falls fd arrived plan s) x) = outq (wires s x)"
  by (simp_all add: server_falls_def uses_def fun_eq_iff ending_def)

lemma falls_heard [simp]:
  "heard (server_falls fd arrived plan s) h = heard s h" "current (server_falls fd arrived plan s) c cs h = current s c cs h"
  by (simp_all add: heard_def current_def)

lemma falls_placed_relaying:
  assumes run: "running n s cs h" and at: "point s = Relaying sfd"
    and mem: "fd \<in> set (shard_servers (proxy_of s))" and up: "\<not> hung s fd"
  shows "placed (Relaying sfd) (server_falls fd arrived plan s) cs h"
proof (cases "sfd = fd")
  case False
  note server = relaying_server [OF run at]
  have "placed (Relaying sfd) s cs h" using run at by (simp add: running_def)
  moreover have "idle (server_falls fd arrived plan s) x" if "idle s x" for x
    using that falls_at(1) [OF up, of arrived plan] falls_other(1) [of x fd arrived plan s]
    by (cases "x = fd") (auto simp: idle_def)
  ultimately show ?thesis using falls_other [OF False, of arrived plan s] by simp
next
  case True
  note server = relaying_server [OF run at]
  have idle: "\<forall>x \<in> set (shard_servers (proxy_of s)). x \<noteq> sfd \<longrightarrow> idle (server_falls fd arrived plan s) x"
    using server(3) falls_other(1) True by metis
  from run at show ?thesis
  proof (cases rule: relaying_cases)
    case (waits c k)
    then have "inq (wires (server_falls fd arrived plan s) sfd) = [Hangup]"
      using falls_at(2) [OF up] True by (simp add: asked_def)
    then show ?thesis using server idle current_heard [OF waits(1)] by simp
  next
    case (answer g c reply q)
    then have "told s fd reply" using True by (auto simp: told_def)
    from falls_at(3) [OF up this] True have
      "inq (wires (server_falls fd arrived plan s) sfd) = [Hangup] \<or> told (server_falls fd arrived plan s) sfd reply" by simp
    moreover have "heard s h" using answer by (auto simp: heard_def intro!: exI [of _ "length g"])
    ultimately show ?thesis using server idle answer(1-3) by auto
  next
    case hangs
    then show ?thesis using up True by simp
  qed
qed

lemma falls_placed:
  assumes run: "running n s cs h" and mem: "fd \<in> set (shard_servers (proxy_of s))" and up: "\<not> hung s fd"
  shows "placed (point s) (server_falls fd arrived plan s) cs h"
proof -
  let ?s = "server_falls fd arrived plan s"
  have other: "fd \<noteq> clientfd (proxy_of s)" using running_sockets(3) [OF run mem] .
  have idle: "idle ?s x" if "idle s x" for x
    using that falls_at(1) [OF up, of arrived plan] falls_other(1) [of x fd arrived plan s]
    by (cases "x = fd") (auto simp: idle_def)
  show ?thesis
  proof (cases "point s")
    case (Relaying sfd)
    then show ?thesis using falls_placed_relaying [OF run _ mem up] by simp
  next
    case (Gathering fds keys)
    from run Gathering obtain c xs where c: "current s c cs h" "command_key c = None"
      "shard_servers (proxy_of s) = xs @ fds" "\<forall>x \<in> set xs. idle s x"
      "\<forall>x \<in> set fds. inq (wires s x) = [Hangup] \<or> asked s x c \<or> (\<exists>reply. told s x reply)"
      by (auto simp: running_def)
    have "inq (wires ?s x) = [Hangup] \<or> asked ?s x c \<or> (\<exists>reply. told ?s x reply)" if "x \<in> set fds" for x
    proof (cases "x = fd")
      case True
      have "asked s fd c \<or> (\<exists>reply. told s fd reply)" using c(5) that up True by (metis hung_def list.set_intros(1))
      then show ?thesis using falls_at(2,3) [OF up] True by metis
    next
      case False
      then show ?thesis using c(5) that falls_other(2-4) [OF False, of arrived plan s] by simp
    qed
    moreover have "current ?s c cs h" using c(1) by simp
    moreover have "\<forall>x \<in> set xs. idle ?s x" using c(4) idle by blast
    ultimately show ?thesis unfolding Gathering placed.simps using c(2,3) by (metis falls_same(1))
  qed (use run idle in \<open>auto simp: running_def\<close>)
qed

lemma server_falls_good:
  assumes good: "session_good n s h" and mem: "fd \<in> set (shard_servers (proxy_of s))" and up: "\<not> hung s fd"
  shows "session_good n (server_falls fd arrived plan s) h"
proof -
  have wired: "wired n s" using good by (simp add: session_good_def)
  note other = wired_server [OF wired mem]
  have wired2: "wired n (server_falls fd arrived plan s)"
    using wired by (auto simp: server_falls_def wired_def)
  show ?thesis
  proof (cases "lost s h")
    case True
    then have "lost (server_falls fd arrived plan s) h"
      by (rule lost_stays [where cs = "[]"]) (use other in \<open>auto simp: server_falls_def\<close>)
    then show ?thesis using wired2 good by (intro lost_good) (auto simp: session_good_def)
  next
    case False
    from session_running [OF good this] obtain cs where run: "running n s cs h" .
    have "running n (server_falls fd arrived plan s) cs h"
      using run wired2 falls_placed [OF run mem up, of arrived plan] falls_other(4) [of "clientfd (proxy_of s)" fd arrived plan s] other
      unfolding running_def by simp
    then show ?thesis by (rule running_good)
  qed
qed

section \<open>A client is in step\<close>

lemma in_step_new: "in_step (session_new cfd fds) []"
  by (simp add: in_step_def session_new_def)

lemma in_step_same:
  "in_step s h \<Longrightarrow> got s' = got s \<Longrightarrow> submitted s' = submitted s \<Longrightarrow> busy s' = busy s \<Longrightarrow> in_step s' (h @ g)"
  unfolding in_step_def by (elim exE conjE, rule_tac x = m in exI) simp

lemma in_step_length: "in_step s h \<Longrightarrow> length (submitted s) \<le> Suc (length h)"
  by (auto simp: in_step_def split: if_splits)

lemma in_step_sends: "in_step s h \<Longrightarrow> \<not> busy s \<Longrightarrow> in_step (client_sends c s) h"
  by (auto simp: in_step_def client_sends_def)

lemma replies_take_mono: "m \<le> k \<Longrightarrow> replies (take k h) = replies (take m h) @ replies (drop m (take k h))"
proof -
  assume "m \<le> k"
  then have "take m (take k h) = take m h" by simp
  moreover have "replies (take k h) = replies (take m (take k h)) @ replies (drop m (take k h))"
    unfolding replies_def concat_append [symmetric] map_append [symmetric] append_take_drop_id ..
  ultimately show ?thesis by simp
qed

lemma reads_no_answer: "ReadFromServer (fresh_socket\<lparr>inq := []\<rparr>) = Inl Blocked"
  by (simp add: ReadFromServer_def ReadWholePacket_def read_loop_unfold sys_read_def)

lemma reads_answer:
  assumes "ReadFromServer (fresh_socket\<lparr>inq := map Segment (packet_chunks reply)\<rparr>) = Inr (r, rest)"
  shows "inq rest = []"
  using assms ReadWholePacket_chunks [of "fresh_socket\<lparr>inq := map Segment (packet_chunks reply)\<rparr>" reply "[]"]
  by (auto simp: ReadFromServer_def result_simps)

text \<open>An answer is read to its end, and there is no other behind it.\<close>

lemma in_step_hears:
  assumes "in_step s h" and "heard s h" and "busy s"
    and rd: "ReadFromServer (unheard s) = Inr (StatusOr_ptr (Some resp), rest)"
  shows "in_step (client_hears rest s) h"
proof -
  let ?out = "outq (wires s (clientfd (proxy_of s)))"
  from assms(1,3) obtain m where m: "m \<le> length h" "got s = length (replies (take m h))" "length (submitted s) \<le> Suc m"
    by (auto simp: in_step_def)
  from assms(2) obtain k where k: "k \<le> length h" "?out = replies (take k h)" by (auto simp: heard_def)
  have "length h \<le> Suc m" using heard_length [OF assms(2)] m(3) by simp
  moreover have "\<not> k \<le> m"
  proof
    assume "k \<le> m"
    then have "length ?out \<le> got s" using replies_take_mono [of k m h] k(2) m(2) by simp
    then show False using rd reads_no_answer by (simp add: unheard_def)
  qed
  ultimately have k': "k = Suc m" using k(1) by simp
  obtain c reply where "h ! m = (c, reply)" by fastforce
  then have out: "?out = replies (take m h) @ packet_chunks reply"
    using k k' by (simp add: take_Suc_conv_app_nth replies_def)
  then have "inq rest = []" using reads_answer [of reply _ rest] rd m(2) by (simp add: unheard_def)
  then have "got (client_hears rest s) = length (replies (take (Suc m) h))"
    using k(2) k' by (simp add: client_hears_def)
  then show ?thesis using m(3) k(1) k' by (auto simp: in_step_def client_hears_def)
qed

end
