(* ===== verification/Sqpkv_Concurrent.thy ===== *)
theory Sqpkv_Concurrent
  imports Sqpkv_Session_Moves
begin

text \<open>
  What holds of all sessions of the proxy and all shards together, however the moves of
  \<open>Sqpkv_Sessions\<close> interleave: the executed commands are a run of the specification, every command is
  answered as long as shards, connections and the proxy's process stand, what can end that process, and what a
  shard that falls means for the clients.
\<close>

section \<open>The invariant of the cluster\<close>

text \<open>A session's connections are hung for the shards that have fallen.\<close>

definition knows_fallen :: "int set \<Rightarrow> session \<Rightarrow> bool" where
  "knows_fallen F s \<longleftrightarrow> (\<forall>j < length (shard_servers (proxy_of s)).
     hung s (shard_servers (proxy_of s) ! j) \<longleftrightarrow> int j + 1 \<in> F)"

lemma knows_new: "knows_fallen {} (session_new cfd fds)"
  by (simp add: knows_fallen_def session_new_def ShardingProxyWorker_new_def)

lemma knows_same:
  "knows_fallen F s \<Longrightarrow> proxy_of s' = proxy_of s \<Longrightarrow>
   (\<And>fd. fd \<in> set (shard_servers (proxy_of s)) \<Longrightarrow> hung s' fd = hung s fd) \<Longrightarrow> knows_fallen F s'"
  unfolding knows_fallen_def by (metis nth_mem)

lemma knows_falls:
  assumes "knows_fallen F s" and "wired n s" and "j < length (shard_servers (proxy_of s))"
  shows "knows_fallen (insert (int j + 1) F) (server_falls (shard_servers (proxy_of s) ! j) arrived plan s)"
  using assms by (auto simp: knows_fallen_def server_falls_def wired_def nth_eq_iff_index_eq)

text \<open>Why the process of the proxy may have ended: a client has sent a command that no server is responsible
  for; or, by the signal, a connection has broken or a shard has fallen.\<close>

definition excused :: "int \<Rightarrow> 'd cluster \<Rightarrow> bool" where
  "excused n S \<longleftrightarrow> (\<forall>e. proxy_end S = Some e \<longrightarrow>
     (\<exists>s \<in> set (sessions S). \<exists>c \<in> set (submitted s). unservable n c) \<or>
     e = Signalled \<and> (fallen S \<noteq> {} \<or> (\<exists>s \<in> set (sessions S). broken s)))"

text \<open>What is kept of a session, with the number of the session.\<close>

definition member_good :: "int \<Rightarrow> 'd cluster \<Rightarrow> nat \<Rightarrow> session \<Rightarrow> bool" where
  "member_good n S i s \<longleftrightarrow> session_good n s (log_of i (history S)) \<and> in_step s (log_of i (history S)) \<and>
     knows_fallen (fallen S) s"

definition cluster_good :: "int \<Rightarrow> 'd cluster \<Rightarrow> bool" where
  "cluster_good n S \<longleftrightarrow> (\<forall>i < length (sessions S). member_good n S i (sessions S ! i)) \<and>
     (\<forall>e \<in> set (history S). fst e < length (sessions S)) \<and> excused n S"

lemma log_of_new: "\<forall>e \<in> set H. fst e < i \<Longrightarrow> log_of i H = []"
  by (auto simp: log_of_def filter_empty_conv)

lemma cluster_goodD:
  assumes "cluster_good n S" and "i < length (sessions S)"
  shows "session_good n (sessions S ! i) (log_of i (history S))" and "knows_fallen (fallen S) (sessions S ! i)"
    and "wired n (sessions S ! i)" and "in_step (sessions S ! i) (log_of i (history S))"
  using assms by (auto simp: cluster_good_def session_good_def member_good_def)

text \<open>An update of one session that does not forget what its client sent or that its connection broke.\<close>

lemma excused_update:
  assumes "excused n S" and "i < length (sessions S)" and "set (submitted (sessions S ! i)) \<subseteq> set (submitted s)"
    and "broken (sessions S ! i) \<longrightarrow> broken s" and "sessions S' = (sessions S)[i := s]"
    and "fallen S' = fallen S" and "proxy_end S' = proxy_end S"
  shows "excused n S'"
proof -
  have "\<exists>s' \<in> set (sessions S'). P s'" if "\<exists>s' \<in> set (sessions S). P s'" "P (sessions S ! i) \<Longrightarrow> P s" for P
  proof -
    from that(1) obtain j where j: "j < length (sessions S)" "P (sessions S ! j)" by (auto simp: in_set_conv_nth)
    then have "P (sessions S' ! j)" "j < length (sessions S')"
      using that(2) assms(2,5) by (cases "j = i"; simp)+
    then show ?thesis using nth_mem by blast
  qed
  note keep = this
  let ?sent = "\<lambda>S. \<exists>s' \<in> set (sessions S). \<exists>c \<in> set (submitted s'). unservable n c"
  let ?broke = "\<lambda>S. \<exists>s' \<in> set (sessions S). broken s'"
  have sent: "?sent S \<Longrightarrow> ?sent S'" using assms(3) by (elim keep) auto
  have broke: "?broke S \<Longrightarrow> ?broke S'" using assms(4) by (elim keep) auto
  have "?sent S' \<or> e = Signalled \<and> (fallen S' \<noteq> {} \<or> ?broke S')" if "proxy_end S' = Some e" for e
  proof -
    have "?sent S \<or> e = Signalled \<and> (fallen S \<noteq> {} \<or> ?broke S)"
      using assms(1,7) that by (simp add: excused_def)
    then show ?thesis using sent broke assms(6) by argo
  qed
  then show ?thesis unfolding excused_def by simp
qed

lemma cluster_good_update:
  assumes "cluster_good n S" and "i < length (sessions S)" and "session_good n s (log_of i (history S))"
    and "in_step s (log_of i (history S))" and "knows_fallen (fallen S) s"
    and "set (submitted (sessions S ! i)) \<subseteq> set (submitted s)" and "broken (sessions S ! i) \<longrightarrow> broken s"
  shows "cluster_good n (S\<lparr>sessions := (sessions S)[i := s]\<rparr>)"
proof -
  have "excused n (S\<lparr>sessions := (sessions S)[i := s]\<rparr>)"
    by (rule excused_update [OF _ assms(2,6,7)]) (use assms(1) in \<open>simp_all add: cluster_good_def\<close>)
  moreover have "member_good n S x ((sessions S)[i := s] ! x)" if "x < length (sessions S)" for x
    using assms(1-5) that by (cases "x = i") (simp_all add: cluster_good_def member_good_def)
  ultimately show ?thesis using assms(1) by (simp add: cluster_good_def member_good_def)
qed

text \<open>What a client does does not touch its worker's servers.\<close>

lemma client_knows:
  assumes "cluster_good n S" and "i < length (sessions S)"
  shows "knows_fallen (fallen S) (client_sends c (sessions S ! i))"
    and "knows_fallen (fallen S) (client_hears rest (sessions S ! i))"
    and "knows_fallen (fallen S) (client_leaves (sessions S ! i))"
    and "knows_fallen (fallen S) (client_breaks plan (sessions S ! i))"
proof -
  let ?s = "sessions S ! i"
  note knows = cluster_goodD(2) [OF assms] and wired = cluster_goodD(3) [OF assms]
  show "knows_fallen (fallen S) (client_sends c ?s)"
    using wired by (intro knows_same [OF knows]) (auto simp: client_sends_def deliver_def wired_def)
  show "knows_fallen (fallen S) (client_hears rest ?s)"
    by (intro knows_same [OF knows]) (simp_all add: client_hears_def)
  show "knows_fallen (fallen S) (client_leaves ?s)"
    using wired by (intro knows_same [OF knows]) (auto simp: client_leaves_def deliver_def wired_def)
  show "knows_fallen (fallen S) (client_breaks plan ?s)"
    using wired by (intro knows_same [OF knows]) (auto simp: client_breaks_def wired_def)
qed

text \<open>What a session's log means to its client, wherever its thread is.\<close>

lemma session_log:
  assumes "session_good n s h"
  shows "heard s h"
proof (cases "lost s h")
  case True
  then show ?thesis by (simp add: lost_def)
next
  case False
  with assms obtain cs where "placed (point s) s cs h" by (auto simp: session_good_def running_def)
  then show ?thesis
    by (cases "point s")
      (auto simp: heard_def current_def intro: exI [of _ "length h"] exI [of _ "length h - 1"])
qed

lemma client_move_good: "client_move n S S' \<Longrightarrow> cluster_good n S \<Longrightarrow> cluster_good n S'"
proof (induction rule: client_move.induct)
  case (join S cfd fds)
  have "member_good n S (length (sessions S)) (session_new cfd fds)"
    using session_new_good [OF join.hyps(3,4)] log_of_new [of "history S" "length (sessions S)"] knows_new in_step_new
      join.prems join.hyps(2) by (simp add: cluster_good_def member_good_def)
  then show ?case
    using join.prems by (auto simp: cluster_good_def nth_append less_Suc_eq member_good_def excused_def)
next
  case (submit S i s c)
  note s = submit.hyps(3)
  note good = cluster_goodD [OF submit.prems submit.hyps(2), folded s]
  show ?case
    using client_sends_good [OF good(1) submit.hyps(4,5,7)] in_step_sends [OF good(4) submit.hyps(6)]
      client_knows(1) [OF submit.prems submit.hyps(2), folded s] s
    by (intro cluster_good_update submit) (auto simp: client_sends_def)
next
  case (receive i S s resp rest)
  note s = receive.hyps(2)
  note good = cluster_goodD [OF receive.prems receive.hyps(1), folded s]
  show ?case
    using client_hears_good [OF good(1) receive.hyps(3)] in_step_hears [OF good(4) session_log [OF good(1)] receive.hyps(5,6)]
      client_knows(2) [OF receive.prems receive.hyps(1), folded s] s
    by (intro cluster_good_update receive) (auto simp: client_hears_def)
next
  case (leave i S s)
  note s = leave.hyps(2)
  note good = cluster_goodD [OF leave.prems leave.hyps(1), folded s]
  show ?case
    using client_ends_good(1) [OF good(1) leave.hyps(3,4)] in_step_same [OF good(4), of "client_leaves s" "[]"]
      client_knows(3) [OF leave.prems leave.hyps(1), folded s] s
    by (intro cluster_good_update leave) (auto simp: client_leaves_def)
next
  case (break i S s plan)
  note s = break.hyps(2)
  note good = cluster_goodD [OF break.prems break.hyps(1), folded s]
  show ?case
    using client_ends_good(2) [OF good(1) break.hyps(3-5)] in_step_same [OF good(4), of "client_breaks plan s" "[]"]
      client_knows(4) [OF break.prems break.hyps(1), folded s] s
    by (intro cluster_good_update break) (auto simp: client_breaks_def)
qed

lemma fall_good:
  assumes good: "cluster_good n S" and j: "int j < n" "int j + 1 \<notin> fallen S"
    and ss: "list_all2 (\<lambda>s s'. \<exists>arrived plan. s' = server_falls (shard_servers (proxy_of s) ! j) arrived plan s)
       (sessions S) ss"
  shows "cluster_good n (S\<lparr>fallen := insert (int j + 1) (fallen S), sessions := ss\<rparr>)"
proof -
  have len: "length ss = length (sessions S)" using ss by (simp add: list_all2_lengthD)
  have each: "session_good n (ss ! i) (log_of i (history S)) \<and> in_step (ss ! i) (log_of i (history S)) \<and>
      knows_fallen (insert (int j + 1) (fallen S)) (ss ! i) \<and> submitted (ss ! i) = submitted (sessions S ! i) \<and>
      broken (ss ! i) = broken (sessions S ! i)"
    if i: "i < length (sessions S)" for i
  proof -
    let ?s = "sessions S ! i"
    let ?fd = "shard_servers (proxy_of ?s) ! j"
    note facts = cluster_goodD [OF good i]
    have j': "j < length (shard_servers (proxy_of ?s))" using facts(3) j(1) by (simp add: wired_def)
    from ss i obtain arrived plan where s: "ss ! i = server_falls ?fd arrived plan ?s"
      by (auto dest: list_all2_nthD)
    have up: "\<not> hung ?s ?fd" using facts(2) j' j(2) by (simp add: knows_fallen_def)
    show ?thesis
      using server_falls_good [OF facts(1) nth_mem [OF j'] up] knows_falls [OF facts(2,3) j'] s
        in_step_same [OF facts(4), of "ss ! i" "[]"] by simp
  qed
  have keep: "\<exists>s \<in> set ss. P s" if "\<exists>s \<in> set (sessions S). P s"
      "\<And>i. i < length (sessions S) \<Longrightarrow> P (sessions S ! i) \<Longrightarrow> P (ss ! i)" for P
    using that len by (metis in_set_conv_nth)
  have "excused n (S\<lparr>fallen := insert (int j + 1) (fallen S), sessions := ss\<rparr>)"
    using good keep [where P = "\<lambda>s. \<exists>c \<in> set (submitted s). unservable n c"] each
    by (auto simp: cluster_good_def excused_def)
  then show ?thesis using good len each by (simp add: cluster_good_def member_good_def)
qed

lemma fault_move_good: "fault_move n S S' \<Longrightarrow> cluster_good n S \<Longrightarrow> cluster_good n S'"
proof (induction rule: fault_move.induct)
  case (fall j S ss)
  then show ?case by (intro fall_good)
next
  case (sigpipe S i)
  let ?s = "sessions S ! i"
  have "fallen S \<noteq> {} \<or> broken ?s"
  proof (cases "broken ?s")
    case False
    then obtain fd where "fd \<in> set (shard_servers (proxy_of ?s))" "hung ?s fd" using sigpipe.hyps(3) by (auto simp: dead_peer_def)
    then show ?thesis
      using cluster_goodD(2) [OF sigpipe.prems sigpipe.hyps(2)] by (auto simp: in_set_conv_nth knows_fallen_def)
  qed simp
  then have "excused n (S\<lparr>proxy_end := Some Signalled\<rparr>)" using nth_mem [OF sigpipe.hyps(2)] by (auto simp: excused_def)
  then show ?case using sigpipe.prems by (simp add: cluster_good_def member_good_def)
qed

text \<open>How many steps the servers can make without the clients.\<close>

definition work_left :: "'d cluster \<Rightarrow> nat" where
  "work_left S = sum_list (map work (sessions S)) + (if proxy_end S = None then 1 else 0)"

lemma work_left_update:
  "i < length xs \<Longrightarrow> work x < work (xs ! i) \<Longrightarrow> sum_list (map work (xs[i := x])) < sum_list (map work xs)"
  by (induction xs arbitrary: i) (auto split: nat.splits simp: nth_Cons list_update.simps)

text \<open>What a shard executes is the next command of the session, and the shard owns its key, if it has one.\<close>

lemma cluster_executes:
  assumes "cluster_good n S" and "i < length (sessions S)" and "s = sessions S ! i"
    and "j < length (shard_servers (proxy_of s))" and "fd = shard_servers (proxy_of s) ! j"
    and "int j + 1 \<notin> fallen S" and "ReadFromClient (unread s fd) = Inr (StatusOr_ptr (Some pk), rest)"
  shows "wf_command (packet_command pk) \<and>
    (\<forall>k. command_key (packet_command pk) = Some k \<longrightarrow> owner n k = Inr (int j + 1)) \<and>
    session_good n (answered_by s fd reply rest) (log_with (log_of i (history S)) (packet_command pk) reply) \<and>
    work (answered_by s fd reply rest) < work s"
proof -
  note good = cluster_goodD [OF assms(1,2), folded assms(3)]
  have "\<not> hung s fd" using good(2) assms(4-6) by (simp add: knows_fallen_def)
  from session_executes [OF good(1) assms(4,5) this assms(7)] show ?thesis .
qed

lemma log_with_of:
  "log_of x (H @ (if command_key c = None then [] else [(i, c, reply)])) =
     (if x = i then log_with (log_of x H) c reply else log_of x H)"
  by (simp add: log_with_def)

lemma execute_good:
  assumes good: "cluster_good n S" and i: "i < length (sessions S)" and s: "s = sessions S ! i"
    and exec: "session_good n (answered_by s fd reply rest) (log_with (log_of i (history S)) c reply)"
    and less: "work (answered_by s fd reply rest) < work s"
    and S': "S' = S\<lparr>shard_stores := ds, sessions := (sessions S)[i := answered_by s fd reply rest],
       history := history S @ (if command_key c = None then [] else [(i, c, reply)])\<rparr>"
  shows "cluster_good n S' \<and> work_left S' < work_left S"
proof -
  let ?s = "answered_by s fd reply rest"
  note facts = cluster_goodD [OF good i, folded s]
  have same: "got ?s = got s" "submitted ?s = submitted s" "busy ?s = busy s" "broken ?s = broken s"
    by (simp_all add: answered_by_def)
  have "in_step ?s (log_with (log_of i (history S)) c reply)"
    using in_step_same [OF facts(4) same(1-3), of "if command_key c = None then [] else [(c, reply)]"]
    by (cases "command_key c") (simp_all add: log_with_def)
  moreover have "knows_fallen (fallen S) ?s"
    by (rule knows_same [OF facts(2)]) (auto simp: answered_by_def deliver_def)
  ultimately have "member_good n S' x (sessions S' ! x)" if "x < length (sessions S)" for x
    using good exec that i unfolding S' by (auto simp: member_good_def log_with_of nth_list_update cluster_good_def)
  moreover have "excused n S'"
    by (rule excused_update [of n S i ?s]) (use good i s same in \<open>simp_all add: S' cluster_good_def\<close>)
  moreover have "work_left S' < work_left S"
    using work_left_update [OF i] less s by (simp add: work_left_def S')
  ultimately show ?thesis using good i by (auto simp: cluster_good_def S')
qed

lemma server_move_good:
  "server_move answers S S' \<Longrightarrow> cluster_good n S \<Longrightarrow> cluster_good n S' \<and> work_left S' < work_left S"
proof (induction rule: server_move.induct)
  case (advance S i s t w)
  note s = advance.hyps(3)
  note good = cluster_goodD [OF advance.prems advance.hyps(2), folded s]
  let ?s = "s\<lparr>point := t, wires := w\<rparr>"
  have adv: "advances n s (log_of i (history S)) t w"
    by (rule session_advances [OF good(1) advance.hyps(4,5)])
  have "knows_fallen (fallen S) ?s"
    using adv by (intro knows_same [OF good(2)]) (simp_all add: advances_def)
  moreover have "in_step ?s (log_of i (history S))" using in_step_same [OF good(4), of ?s "[]"] by simp
  ultimately have "cluster_good n (S\<lparr>sessions := (sessions S)[i := ?s]\<rparr>)"
    using adv s by (intro cluster_good_update [OF advance.prems advance.hyps(2)]) (simp_all add: advances_def)
  then show ?case using adv advance by (simp add: advances_def work_left_def work_left_update)
next
  case (crash S i s e)
  have "\<exists>c \<in> set (submitted s). unservable n c"
    using session_stops [OF cluster_goodD(1) [OF crash.prems crash.hyps(2), folded crash.hyps(3)], of e] crash.hyps(4,5)
    by auto
  moreover have "s \<in> set (sessions S)" using crash.hyps(2,3) by simp
  ultimately have "excused n (S\<lparr>proxy_end := Some e\<rparr>)" by (auto simp: excused_def)
  then show ?case using crash by (simp add: cluster_good_def member_good_def work_left_def)
next
  case (execute i S s j fd pk rest reply d)
  from cluster_executes [OF execute.prems execute.hyps(1-6), of reply]
  show ?case by (intro execute_good [OF execute.prems execute.hyps(1,2)]) simp_all
qed

lemma cluster_move_good: "cluster_move answers n S S' \<Longrightarrow> cluster_good n S \<Longrightarrow> cluster_good n S'"
  using client_move_good server_move_good fault_move_good unfolding cluster_move_def by blast

lemma cluster_moveI:
  "client_move n S S' \<Longrightarrow> cluster_move answers n S S'"
  "server_move answers S S' \<Longrightarrow> cluster_move answers n S S'"
  "fault_move n S S' \<Longrightarrow> cluster_move answers n S S'"
  by (simp_all add: cluster_move_def)

lemma cluster_new_good: "cluster_good n (cluster_new ds)"
  by (simp add: cluster_good_def cluster_new_def excused_def)

lemma reachable_good:
  "(cluster_move answers n)\<^sup>*\<^sup>* (cluster_new ds) S \<Longrightarrow> cluster_good n S"
  by (induction rule: rtranclp_induct) (blast intro: cluster_new_good cluster_move_good)+

section \<open>Clients cannot tell the shards from one store\<close>

text \<open>The commands and the replies of the log.\<close>

definition logged :: "(nat \<times> command \<times> bytes) list \<Rightarrow> command list \<times> bytes list" where
  "logged H = (map (\<lambda>(i, c, reply). c) H, map (\<lambda>(i, c, reply). reply) H)"

definition linearized ::
  "int \<Rightarrow> ('d \<Rightarrow> bool) \<Rightarrow> ('d \<Rightarrow> bytes \<rightharpoonup> bytes) \<Rightarrow> (int \<Rightarrow> 'd) \<Rightarrow> 'd cluster \<Rightarrow> bool" where
  "linearized n I M ds S \<longleftrightarrow> (\<forall>i. I (shard_stores S i)) \<and>
     (\<exists>rs. list_all2 reads_as (snd (logged (history S))) rs \<and>
       kv_run (union_map (owner n) M ds) (zip (fst (logged (history S))) rs)
         (union_map (owner n) M (shard_stores S)))"

text \<open>A shard that answers a \<^verbatim>\<open>GetAll\<close> holds the same map afterwards.\<close>

lemma union_map_kept: "M d = M (ds i) \<Longrightarrow> union_map own M (ds(i := d)) = union_map own M ds"
  by (auto simp: union_map_def fun_eq_iff split: sum.splits)

context shard_backend
begin

lemma execute_linearized:
  assumes "rocksdb_contract ops I M" and lin: "linearized n I M ds S"
    and c: "wf_command c" "\<forall>k. command_key c = Some k \<longrightarrow> owner n k = Inr j"
    and ans: "answers ops (shard_stores S j) c reply d"
    and S': "shard_stores S' = (shard_stores S)(j := d)"
      "history S' = history S @ (if command_key c = None then [] else [(i, c, reply)])"
  shows "linearized n I M ds S'"
proof -
  from lin obtain rs where rs: "\<forall>i. I (shard_stores S i)"
    "list_all2 reads_as (snd (logged (history S))) rs"
    "kv_run (union_map (owner n) M ds) (zip (fst (logged (history S))) rs)
       (union_map (owner n) M (shard_stores S))"
    by (auto simp: linearized_def)
  from answer_spec [OF assms(1) _ c(1) ans] rs(1) obtain r where
    r: "kv_spec (M (shard_stores S j)) c r (M d)" "I d" "command_key c \<noteq> None \<longrightarrow> reads_as reply r" by blast
  show ?thesis
  proof (cases "command_key c")
    case None
    then have "M d = M (shard_stores S j)" using r(1) by (cases c) (auto elim: kv_spec_GetAllE)
    then show ?thesis
      using rs r(2) None union_map_kept [of M d "shard_stores S" j "owner n"] by (auto simp: linearized_def S')
  next
    case (Some k)
    have "kv_spec (union_map (owner n) M (shard_stores S)) c r
        (union_map (owner n) M ((shard_stores S)(j := d)))"
      using union_map_step [where owner = "owner n" and i = j and k = k and M = M and ds = "shard_stores S",
          OF r(1) Some] c(2) Some by blast
    from kv_run_snoc [OF rs(3) this] have "kv_run (union_map (owner n) M ds)
        (zip (fst (logged (history S)) @ [c]) (rs @ [r])) (union_map (owner n) M ((shard_stores S)(j := d)))"
      using list_all2_lengthD [OF rs(2)] by (simp add: logged_def zip_append1)
    then show ?thesis
      using rs r Some unfolding linearized_def S'
      by (auto simp: logged_def intro!: exI [of _ "rs @ [r]"] list_all2_appendI)
  qed
qed

lemma move_linearized:
  assumes "rocksdb_contract ops I M" and "cluster_move (answers ops) n S S'" and "cluster_good n S"
    and "linearized n I M ds S"
  shows "linearized n I M ds S'"
  using assms(2) unfolding cluster_move_def
proof (elim disjE)
  assume "client_move n S S'"
  then show ?thesis using assms(4) by cases (auto simp: linearized_def)
next
  assume "fault_move n S S'"
  then show ?thesis using assms(4) by cases (auto simp: linearized_def)
next
  assume "server_move (answers ops) S S'"
  then show ?thesis
  proof cases
    case (advance i s t w)
    then show ?thesis using assms(4) by (auto simp: linearized_def)
  next
    case (crash i s e)
    then show ?thesis using assms(4) by (auto simp: linearized_def)
  next
    case (execute i s j fd pk rest reply d)
    from cluster_executes [OF assms(3) execute(2-7)]
    show ?thesis
      using execute by (intro execute_linearized [OF assms(1,4) _ _ execute(8), of S' i]) simp_all
  qed
qed

lemma reachable_linearized:
  assumes "rocksdb_contract ops I M" and "\<forall>i. I (ds i)"
  shows "(cluster_move (answers ops) n)\<^sup>*\<^sup>* (cluster_new ds) S \<Longrightarrow> linearized n I M ds S"
proof (induction rule: rtranclp_induct)
  case base
  then show ?case using assms(2) by (auto simp: linearized_def cluster_new_def logged_def intro: run_done)
next
  case (step S S')
  show ?case
    using move_linearized [OF assms(1) step.hyps(2) reachable_good [OF step.hyps(1)] step.IH] .
qed

end


section \<open>Every command is answered\<close>

text \<open>The thread waits for a shard that has no answer to the command it was sent.\<close>

definition refused :: "('d \<Rightarrow> command \<Rightarrow> bytes \<Rightarrow> 'd \<Rightarrow> bool) \<Rightarrow> 'd cluster \<Rightarrow> session \<Rightarrow> bool" where
  "refused answers S s \<longleftrightarrow>
     (\<exists>j c. awaits s j c \<and> (\<nexists>reply d. answers (shard_stores S (int j + 1)) c reply d))"

lemma server_moves_work:
  "(server_move answers ^^ m) S S' \<Longrightarrow> cluster_good n S \<Longrightarrow>
     cluster_good n S' \<and> m + work_left S' \<le> work_left S"
proof (induction m arbitrary: S')
  case (Suc m)
  from Suc.prems(1) obtain T where "(server_move answers ^^ m) S T" "server_move answers T S'" by auto
  then show ?case using Suc.IH [of T] Suc.prems(2) server_move_good [of answers T S' n] by fastforce
qed simp

lemma server_move_submitted:
  "server_move answers S S' \<Longrightarrow> map submitted (sessions S') = map submitted (sessions S)"
  by (induction rule: server_move.induct) (auto simp: map_update list_update_same_conv answered_by_def)

lemma server_moves_submitted:
  "(server_move answers ^^ m) S S' \<Longrightarrow> map submitted (sessions S') = map submitted (sessions S)"
  by (induction m arbitrary: S') (auto dest: server_move_submitted)

text \<open>The servers do not end the process of the proxy unless a client has sent a command that no server is
  responsible for.\<close>

lemma server_move_ends:
  assumes "server_move answers S S'" and "cluster_good n S"
  shows "proxy_end S' = proxy_end S \<or> (\<exists>cs \<in> set (map submitted (sessions S)). \<exists>c \<in> set cs. unservable n c)"
  using assms(1)
proof cases
  case (crash i s e)
  then have "\<exists>c \<in> set (submitted s). unservable n c"
    using session_stops [OF cluster_goodD(1) [OF assms(2) crash(3), folded crash(4)], of e] by auto
  moreover have "s \<in> set (sessions S)" using crash(3,4) by simp
  ultimately show ?thesis by auto
qed simp_all

lemma server_moves_end:
  "(server_move answers ^^ m) S S' \<Longrightarrow> cluster_good n S \<Longrightarrow>
     proxy_end S' = proxy_end S \<or> (\<exists>cs \<in> set (map submitted (sessions S)). \<exists>c \<in> set cs. unservable n c)"
proof (induction m arbitrary: S')
  case (Suc m)
  from Suc.prems(1) obtain T where T: "(server_move answers ^^ m) S T" "server_move answers T S'" by auto
  then have "cluster_good n T" "map submitted (sessions T) = map submitted (sessions S)"
    using server_moves_work Suc.prems(2) server_moves_submitted by blast+
  then show ?case using Suc.IH [OF T(1) Suc.prems(2)] server_move_ends [OF T(2), of n] by metis
qed simp

lemma quiet_answered:
  assumes "cluster_good n S" and quiet: "\<nexists>S'. server_move answers S S'" and up: "proxy_end S = None"
    and i: "i < length (sessions S)"
  shows "answered (sessions S ! i) (log_of i (history S)) \<or> cut_off (sessions S ! i) \<or>
    refused answers S (sessions S ! i)"
proof -
  let ?s = "sessions S ! i"
  note good = cluster_goodD [OF assms(1) i]
  have "(\<exists>st. point ?s = Ended st) \<or> proxy_thread_step (proxy_of ?s) (point ?s) (wires ?s) = Inl Blocked"
  proof (rule ccontr)
    assume not: "\<not> ?thesis"
    show False
    proof (cases "proxy_thread_step (proxy_of ?s) (point ?s) (wires ?s)")
      case (Inl e)
      then show False using server_move.crash [OF up i refl Inl, of answers] not quiet by auto
    next
      case (Inr tw)
      obtain t w where "tw = (t, w)" by fastforce
      then show False using server_move.advance [OF up i refl, of t w answers] Inr not quiet by blast
    qed
  qed
  then have "answered ?s (log_of i (history S)) \<or> cut_off ?s \<or> (\<exists>j c. awaits ?s j c)"
    using session_stops [OF good(1), of Blocked] by blast
  moreover have "refused answers S ?s" if "awaits ?s j c" for j c
  proof -
    from that obtain pk rest where j: "j < length (shard_servers (proxy_of ?s))"
      and rd: "ReadFromClient (unread ?s (shard_servers (proxy_of ?s) ! j)) = Inr (StatusOr_ptr (Some pk), rest)"
      and c: "packet_command pk = c" and live: "\<not> hung ?s (shard_servers (proxy_of ?s) ! j)"
      by (auto simp: awaits_def Let_def)
    have "int j + 1 \<notin> fallen S" using good(2) j live by (simp add: knows_fallen_def)
    from server_move.execute [where answers = answers, OF i refl j refl this rd]
    show ?thesis using quiet that c unfolding refused_def by metis
  qed
  ultimately show ?thesis by blast
qed


section \<open>What a fallen shard does to the clients\<close>

text \<open>The next command of the client is for a shard that has fallen.\<close>

definition stranded :: "int \<Rightarrow> nat \<Rightarrow> (command \<times> bytes) list \<Rightarrow> 'd cluster \<Rightarrow> bool" where
  "stranded n i h S \<longleftrightarrow> i < length (sessions S) \<and> log_of i (history S) = h \<and>
     (\<exists>c cs k j. submitted (sessions S ! i) = map fst h @ c # cs \<and> command_key c = Some k \<and>
        owner n k = Inr j \<and> j \<in> fallen S)"

lemma client_move_stranded: "client_move n S S' \<Longrightarrow> stranded n i h S \<Longrightarrow> stranded n i h S'"
  by (induction rule: client_move.induct)
    (auto simp: stranded_def nth_append nth_list_update client_sends_def client_hears_def client_leaves_def
      client_breaks_def)

lemma fault_move_stranded: "fault_move n S S' \<Longrightarrow> stranded n i h S \<Longrightarrow> stranded n i h S'"
proof (induction rule: fault_move.induct)
  case (fall j S ss)
  then have i: "i < length (sessions S)" by (simp add: stranded_def)
  from list_all2_nthD [OF fall.hyps(3) this] have "submitted (ss ! i) = submitted (sessions S ! i)" by auto
  moreover have "i < length ss" using i list_all2_lengthD [OF fall.hyps(3)] by simp
  ultimately show ?case using fall.prems by (auto simp: stranded_def)
next
  case (sigpipe S i')
  then show ?case by (simp add: stranded_def)
qed

lemma server_move_stranded:
  assumes "server_move answers S S'" and good: "cluster_good n S" and str: "stranded n i h S"
  shows "stranded n i h S'"
  using assms(1)
proof cases
  case (advance i' s t w)
  then show ?thesis using str by (auto simp: stranded_def nth_list_update)
next
  case (crash i' s e)
  then show ?thesis using str by (simp add: stranded_def)
next
  case (execute i' s j' fd pk rest reply d)
  let ?s = "answered_by s fd reply rest" and ?c = "packet_command pk"
  have sub: "submitted ?s = submitted s" by (simp add: answered_by_def)
  have "command_key ?c = None" if i: "i' = i"
  proof (rule ccontr)
    assume key: "command_key ?c \<noteq> None"
    from str obtain c cs k j where c: "submitted s = map fst h @ c # cs" "command_key c = Some k"
      "owner n k = Inr j" "j \<in> fallen S" "log_of i (history S) = h"
      using execute(3) by (auto simp: stranded_def i)
    note exec = cluster_executes [OF good execute(2-7), of reply]
    then have "heard ?s (h @ [(?c, reply)])" using session_log c(5) i key by (auto simp: log_with_def)
    then have "?c = c" using c(1) by (simp add: heard_def sub)
    then show False using exec c(2-4) execute(6) by auto
  qed
  then show ?thesis using str execute sub by (auto simp: stranded_def nth_list_update)
qed

lemma stranded_stays:
  assumes "(cluster_move answers n)\<^sup>*\<^sup>* S T" and "cluster_good n S" and "stranded n i h S"
  shows "cluster_good n T \<and> stranded n i h T"
  using assms
  by (induction rule: rtranclp_induct)
    (auto simp: cluster_move_def intro: client_move_good server_move_good [THEN conjunct1] fault_move_good
      client_move_stranded server_move_stranded fault_move_stranded)

text \<open>A thread whose next command is for a fallen shard does not wait.\<close>

lemma awaits_next:
  assumes good: "session_good n s h" and aw: "awaits s j' c'"
    and sub: "submitted s = map fst h @ c # cs" and key: "command_key c = Some k"
  shows "owner n k = Inr (int j' + 1) \<and> \<not> hung s (shard_servers (proxy_of s) ! j')"
proof -
  let ?fd = "shard_servers (proxy_of s) ! j'"
  have j: "j' < length (shard_servers (proxy_of s))"
    "point s = Relaying ?fd \<or> (\<exists>fds keys. point s = Gathering (?fd # fds) keys)"
    and up: "\<not> hung s ?fd" using aw by (auto simp: awaits_def Let_def)
  then have "\<not> lost s h" by (auto simp: lost_def)
  from session_running [OF good this] obtain cs' where run: "running n s cs' h" .
  from j(2) show ?thesis
  proof
    assume "\<exists>fds keys. point s = Gathering (?fd # fds) keys"
    then show ?thesis using run sub key by (auto simp: running_def current_def)
  next
    assume at: "point s = Relaying ?fd"
    from run at show ?thesis
    proof (cases rule: relaying_cases)
      case (waits c2 k2)
      then show ?thesis
        using route_owner [of "proxy_of s" k j'] j(1) sub key run up by (simp add: running_def wired_def current_def)
    next
      case (answer g c2 reply q)
      have "taken s ?fd \<noteq> length (outq (wires s ?fd))"
        using aw reads_nothing by (auto simp: awaits_def unread_def Let_def)
      then show ?thesis using answer(4,5) up by auto
    next
      case hangs
      then show ?thesis using up by simp
    qed
  qed
qed

lemma stranded_ends:
  assumes good: "cluster_good n S" and str: "stranded n i h S" and quiet: "\<nexists>U. server_move answers S U"
    and up: "proxy_end S = None"
  shows "\<exists>st. point (sessions S ! i) = Ended st"
proof -
  let ?s = "sessions S ! i"
  from str obtain c cs k j where c: "submitted ?s = map fst h @ c # cs" "command_key c = Some k"
    "owner n k = Inr j" "j \<in> fallen S" and h: "log_of i (history S) = h" and i: "i < length (sessions S)"
    by (auto simp: stranded_def)
  note facts = cluster_goodD [OF good i, unfolded h]
  have "\<not> refused answers S ?s"
  proof
    assume "refused answers S ?s"
    then obtain j' c' where aw: "awaits ?s j' c'" by (auto simp: refused_def)
    from awaits_next [OF facts(1) aw c(1,2)] show False
      using c(3,4) aw facts(2) by (auto simp: knows_fallen_def awaits_def Let_def)
  qed
  then have "answered ?s h \<or> cut_off ?s" using quiet_answered [OF good quiet up i] h by simp
  then show ?thesis using c(1) by (auto simp: answered_def cut_off_def)
qed


section \<open>An example\<close>

text \<open>Two shards, of which the first has the key \<open>_3\<close>, a client that asks for it, and one that
  connects and says nothing.\<close>

definition example_shards :: "int \<Rightarrow> mem" where
  "example_shards = (\<lambda>i. if i = 1 then [([95, 51], [118])] else [])"

lemma example_owner: "owner 2 [95, 51] = Inr 1"
  using example_shard_of by (simp add: owner_def)

lemma example_request:
  "\<exists>S. (cluster_move answers 2)\<^sup>*\<^sup>* (cluster_new example_shards) S \<and> shard_stores S = example_shards \<and> fallen S = {} \<and>
     proxy_end S = None \<and>
     sessions S = [client_sends (Get [95, 51]) (session_new 4 [5, 6]), session_new 7 [8, 9]] \<and> history S = []"
proof -
  let ?S0 = "cluster_new example_shards" and ?s = "session_new 4 [5, 6]" and ?t = "session_new 7 [8, 9]"
  let ?S1 = "?S0\<lparr>sessions := sessions ?S0 @ [?s]\<rparr>"
  let ?S2 = "?S1\<lparr>sessions := sessions ?S1 @ [?t]\<rparr>"
  let ?S3 = "?S2\<lparr>sessions := (sessions ?S2)[0 := client_sends (Get [95, 51]) (sessions ?S2 ! 0)]\<rparr>"
  have "client_move 2 ?S0 ?S1" "client_move 2 ?S1 ?S2" by (rule client_move.join; simp add: cluster_new_def)+
  moreover have "client_move 2 ?S2 ?S3"
    by (rule client_move.submit [OF _ _ refl])
      (simp_all add: cluster_new_def session_new_def wf_command_def)
  ultimately have "(cluster_move answers 2)\<^sup>*\<^sup>* ?S0 ?S3"
    by (meson cluster_moveI(1) r_into_rtranclp rtranclp_trans)
  then show ?thesis by (intro exI [of _ ?S3]) (simp add: cluster_new_def)
qed

text \<open>One exchange, when nothing else moves.\<close>

lemma request_runs:
  assumes S: "i < length (sessions S)" "sessions S ! i = s" "proxy_end S = None" and wired: "wired n s"
    and at: "point s = Awaiting" and c: "wf_command c" "command_key c = Some k" and route: "route (proxy_of s) k = Inr fd"
    and up: "\<not> hung s fd" and q: "inq (wires s (clientfd (proxy_of s))) = map Segment (packet_chunks (encode_command c)) @ q"
  shows "(server_move answers)\<^sup>*\<^sup>* S (S\<lparr>sessions := (sessions S)[i := s\<lparr>point := Relaying fd, wires := (wires s)
      (clientfd (proxy_of s) := (wires s (clientfd (proxy_of s)))\<lparr>inq := q\<rparr>,
       fd := (wires s fd)\<lparr>outq := outq (wires s fd) @ packet_chunks (encode_command c)\<rparr>)\<rparr>]\<rparr>)"
proof -
  let ?p = "proxy_of s" and ?w = "wires s"
  have fd: "fd \<noteq> clientfd ?p" using wired_server [OF wired route_servers [OF route]] .
  have open_all: "is_open (?w x)" "wplan (?w fd) = []" for x using wired fd up by (auto simp: wired_def)
  let ?w1 = "?w(clientfd ?p := (?w (clientfd ?p))\<lparr>inq := q\<rparr>)"
  let ?s1 = "s\<lparr>point := Dispatching k (encode_command c), wires := ?w1\<rparr>"
  let ?S1 = "S\<lparr>sessions := (sessions S)[i := ?s1]\<rparr>"
  have m1: "server_move answers S ?S1"
    by (rule server_move.advance [OF S(3,1) S(2) [symmetric]])
      (use step_reads [OF c(1), of ?w ?p q] c(2) open_all q at in simp_all)
  let ?w2 = "?w1(fd := (?w1 fd)\<lparr>outq := outq (?w1 fd) @ packet_chunks (encode_command c)\<rparr>)"
  have "server_move answers ?S1 (?S1\<lparr>sessions := (sessions ?S1)[i := ?s1\<lparr>point := Relaying fd, wires := ?w2\<rparr>]\<rparr>)"
  proof (rule server_move.advance)
    show "proxy_thread_step (proxy_of ?s1) (point ?s1) (wires ?s1) = Inr (Relaying fd, ?w2)"
      using step_dispatches [OF c(1) route, of ?w1] open_all fd by simp
  qed (use S in simp_all)
  then have "server_move answers ?S1 (S\<lparr>sessions := (sessions S)[i := s\<lparr>point := Relaying fd, wires := ?w
      (clientfd ?p := (?w (clientfd ?p))\<lparr>inq := q\<rparr>,
       fd := (?w fd)\<lparr>outq := outq (?w fd) @ packet_chunks (encode_command c)\<rparr>)\<rparr>]\<rparr>)"
    using fd by simp
  with m1 show ?thesis by (meson r_into_rtranclp rtranclp_trans)
qed

lemma answer_runs:
  assumes S: "i < length (sessions S)" "sessions S ! i = s" "proxy_end S = None" and wired: "wired n s"
    and j: "j < length (shard_servers (proxy_of s))" and at: "point s = Relaying (shard_servers (proxy_of s) ! j)"
    and c: "wf_command c" "command_key c = Some k" and plan: "wplan (wires s (clientfd (proxy_of s))) = []"
    and q: "inq (wires s (shard_servers (proxy_of s) ! j)) = []"
    and sent: "drop (taken s (shard_servers (proxy_of s) ! j)) (outq (wires s (shard_servers (proxy_of s) ! j))) =
      packet_chunks (encode_command c)"
    and up: "int j + 1 \<notin> fallen S" and answer: "answers (shard_stores S (int j + 1)) c reply d"
  shows "\<exists>S' s'. (server_move answers)\<^sup>*\<^sup>* S S' \<and> history S' = history S @ [(i, c, reply)] \<and>
    shard_stores S' = (shard_stores S)(int j + 1 := d) \<and> sessions S' = (sessions S)[i := s'] \<and>
    outq (wires s' (clientfd (proxy_of s))) = outq (wires s (clientfd (proxy_of s))) @ packet_chunks reply"
proof -
  let ?p = "proxy_of s" and ?w = "wires s" and ?pk = "command_object (received_packet c) c"
  let ?fd = "shard_servers ?p ! j" and ?cfd = "clientfd ?p" and ?rest = "fresh_socket\<lparr>inq := []\<rparr>"
  have fd: "?fd \<noteq> ?cfd" using wired_server [OF wired, of ?fd] j by simp
  have open_all: "is_open (?w x)" for x using wired by (simp add: wired_def)
  have rd: "ReadFromClient (unread s ?fd) = Inr (StatusOr_ptr (Some ?pk), ?rest)"
    using ReadFromClient_object [OF c(1), of "unread s ?fd" "[]"] sent by (simp add: unread_def)
  define s3 where "s3 = answered_by s ?fd reply ?rest"
  let ?S3 = "S\<lparr>shard_stores := (shard_stores S)(int j + 1 := d), sessions := (sessions S)[i := s3],
    history := history S @ [(i, packet_command ?pk, reply)]\<rparr>"
  have m3: "server_move answers S ?S3"
    using server_move.execute [where answers = answers, OF S(1) S(2) [symmetric] j refl up rd, of reply d] answer c(2)
    unfolding s3_def by simp
  have s3: "wires s3 = deliver ?fd (map Segment (packet_chunks reply)) ?w" "point s3 = Relaying ?fd" "proxy_of s3 = ?p"
    by (simp_all add: s3_def answered_by_def at)
  define w4 where "w4 = (wires s3)(?fd := (wires s3 ?fd)\<lparr>inq := []\<rparr>,
    ?cfd := (wires s3 ?cfd)\<lparr>outq := outq (wires s3 ?cfd) @ packet_chunks reply\<rparr>)"
  let ?S4 = "?S3\<lparr>sessions := (sessions ?S3)[i := s3\<lparr>point := Awaiting, wires := w4\<rparr>]\<rparr>"
  have "server_move answers ?S3 ?S4"
  proof (rule server_move.advance)
    show "proxy_thread_step (proxy_of s3) (point s3) (wires s3) = Inr (Awaiting, w4)"
      using step_relays [OF fd, of "wires s3" reply "[]"] open_all fd q plan
      by (simp add: s3 w4_def) (simp add: deliver_def)
  qed (use S in \<open>simp_all add: s3\<close>)
  with m3 have "(server_move answers)\<^sup>*\<^sup>* S ?S4" by (meson r_into_rtranclp rtranclp_trans)
  moreover have "outq (wires (s3\<lparr>point := Awaiting, wires := w4\<rparr>) ?cfd) = outq (?w ?cfd) @ packet_chunks reply"
    using fd by (simp add: w4_def s3) (simp add: deliver_def)
  ultimately show ?thesis by (intro exI [of _ ?S4] exI [of _ "s3\<lparr>point := Awaiting, wires := w4\<rparr>"]) simp
qed

lemma exchange_runs:
  assumes S: "i < length (sessions S)" "sessions S ! i = s" "proxy_end S = None" and wired: "wired n s" and at: "point s = Awaiting"
    and plan: "wplan (wires s (clientfd (proxy_of s))) = []"
    and c: "wf_command c" "command_key c = Some k" "owner n k = Inr (int j + 1)"
    and q: "inq (wires s (clientfd (proxy_of s))) = map Segment (packet_chunks (encode_command c)) @ q"
    and empty: "inq (wires s (shard_servers (proxy_of s) ! j)) = []"
      "taken s (shard_servers (proxy_of s) ! j) = length (outq (wires s (shard_servers (proxy_of s) ! j)))"
    and up: "int j + 1 \<notin> fallen S" and answer: "answers (shard_stores S (int j + 1)) c reply d"
  shows "\<exists>S' s'. (server_move answers)\<^sup>*\<^sup>* S S' \<and> history S' = history S @ [(i, c, reply)] \<and>
    shard_stores S' = (shard_stores S)(int j + 1 := d) \<and> sessions S' = (sessions S)[i := s'] \<and>
    outq (wires s' (clientfd (proxy_of s))) = outq (wires s (clientfd (proxy_of s))) @ packet_chunks reply"
proof -
  let ?p = "proxy_of s" and ?w = "wires s"
  let ?fd = "shard_servers ?p ! j" and ?cfd = "clientfd ?p"
  have j: "j < length (shard_servers ?p)" and route: "route ?p k = Inr ?fd"
    using owner_route [OF c(3) wired] by simp_all
  have fd: "?fd \<noteq> ?cfd" using wired_server [OF wired, of ?fd] j by simp
  define s2 where "s2 = s\<lparr>point := Relaying ?fd, wires := ?w(?cfd := (?w ?cfd)\<lparr>inq := q\<rparr>,
    ?fd := (?w ?fd)\<lparr>outq := outq (?w ?fd) @ packet_chunks (encode_command c)\<rparr>)\<rparr>"
  define S2 where "S2 = S\<lparr>sessions := (sessions S)[i := s2]\<rparr>"
  have m: "(server_move answers)\<^sup>*\<^sup>* S S2"
    unfolding S2_def s2_def using empty(1) by (intro request_runs [OF S wired at c(1,2) route _ q]) simp
  have s2: "proxy_of s2 = ?p" "wired n s2" using wired fd by (auto simp: s2_def wired_def)
  have "\<exists>S' s'. (server_move answers)\<^sup>*\<^sup>* S2 S' \<and> history S' = history S2 @ [(i, c, reply)] \<and>
    shard_stores S' = (shard_stores S2)(int j + 1 := d) \<and> sessions S' = (sessions S2)[i := s'] \<and>
    outq (wires s' (clientfd (proxy_of s2))) = outq (wires s2 (clientfd (proxy_of s2))) @ packet_chunks reply"
    using S j empty fd plan answer up c(1,2)
    by (intro answer_runs [where k = k, OF _ _ _ s2(2)]) (simp_all add: S2_def s2_def)
  then obtain S' s' where "(server_move answers)\<^sup>*\<^sup>* S2 S'" "history S' = history S2 @ [(i, c, reply)]"
    "shard_stores S' = (shard_stores S2)(int j + 1 := d)" "sessions S' = (sessions S2)[i := s']"
    "outq (wires s' ?cfd) = outq (wires s2 ?cfd) @ packet_chunks reply" using s2(1) by auto
  then show ?thesis
    using m fd by (intro exI [of _ S'] exI [of _ s']) (auto simp: S2_def s2_def)
qed

lemma example_exchange:
  "\<exists>S S' m. (cluster_move (kv_answers mem_db) 2)\<^sup>*\<^sup>* (cluster_new example_shards) S \<and>
     (server_move (kv_answers mem_db) ^^ m) S S' \<and> map submitted (sessions S) = [[Get [95, 51]], []] \<and>
     history S' = [(0, Get [95, 51], encode_response (RGet Status_Ok [118]))] \<and>
     outq (wires (sessions S' ! 0) 4) = packet_chunks (encode_response (RGet Status_Ok [118]))"
proof -
  let ?c = "Get [95, 51]" and ?r = "encode_response (RGet Status_Ok [118])"
  obtain S where S: "(cluster_move (kv_answers mem_db) 2)\<^sup>*\<^sup>* (cluster_new example_shards) S"
    "shard_stores S = example_shards" "history S = []" "fallen S = {}" "proxy_end S = None"
    "sessions S = [client_sends ?c (session_new 4 [5, 6]), session_new 7 [8, 9]]"
    using example_request by blast
  let ?s = "client_sends ?c (session_new 4 [5, 6])"
  have s: "wired 2 ?s" "point ?s = Awaiting" "wplan (wires ?s (clientfd (proxy_of ?s))) = []"
    using cluster_goodD(3) [OF reachable_good [OF S(1)], of 0] S(6)
    by (auto simp: client_sends_def session_new_def deliver_def)
  have "\<exists>S' s'. (server_move (kv_answers mem_db))\<^sup>*\<^sup>* S S' \<and> history S' = history S @ [(0, ?c, ?r)] \<and>
    shard_stores S' = (shard_stores S)(int 0 + 1 := [([95, 51], [118])]) \<and> sessions S' = (sessions S)[0 := s'] \<and>
    outq (wires s' (clientfd (proxy_of ?s))) = outq (wires ?s (clientfd (proxy_of ?s))) @ packet_chunks ?r"
    by (rule exchange_runs [OF _ _ _ s(1,2,3), where q = "[]" and k = "[95, 51]"])
      (use S(2,4-6) example_answer in \<open>simp_all add: wf_command_def example_owner client_sends_def session_new_def
        deliver_def ShardingProxyWorker_new_def idle_def example_shards_def\<close>)
  then obtain S' s' where S': "(server_move (kv_answers mem_db))\<^sup>*\<^sup>* S S'" "history S' = [(0, ?c, ?r)]"
    "sessions S' = (sessions S)[0 := s']" "outq (wires s' 4) = packet_chunks ?r"
    using S(3) by (auto simp: client_sends_def session_new_def ShardingProxyWorker_new_def deliver_def)
  obtain m where "(server_move (kv_answers mem_db) ^^ m) S S'" using S'(1) by (metis rtranclp_power)
  moreover have "map submitted (sessions S) = [[?c], []]" using S(6) by (simp add: client_sends_def session_new_def)
  moreover have "outq (wires (sessions S' ! 0) 4) = packet_chunks ?r" using S' S(6) by simp
  ultimately show ?thesis using S(1) S'(2) by (intro exI [of _ S] exI [of _ S'] exI [of _ m] conjI)
qed

lemma moves_reach:
  "(cluster_move answers n)\<^sup>*\<^sup>* S0 S \<Longrightarrow> (server_move answers ^^ m) S S' \<Longrightarrow> (cluster_move answers n)\<^sup>*\<^sup>* S0 S'"
  by (induction m arbitrary: S') (auto intro: cluster_moveI rtranclp.rtrancl_into_rtrancl)



text \<open>Without the clients, threads and shards come to rest.\<close>

lemma comes_to_rest:
  assumes "cluster_good n S"
  shows "\<exists>T. (server_move answers)\<^sup>*\<^sup>* S T \<and> (\<nexists>U. server_move answers T U)"
  using assms
proof (induction "work_left S" arbitrary: S rule: less_induct)
  case less
  show ?case
  proof (cases "\<exists>U. server_move answers S U")
    case True
    then obtain U where U: "server_move answers S U" by blast
    then have "cluster_good n U" "work_left U < work_left S" using server_move_good less.prems by blast+
    from less.hyps [OF this(2,1)] U show ?thesis by (meson converse_rtranclp_into_rtranclp)
  qed blast
qed


end
