(* ===== verification/Sqpkv_Server.thy ===== *)
theory Sqpkv_Server
  imports Sqpkv_Proxy
begin

text \<open>
  The TCP server (\<^verbatim>\<open>src/server/server.cc\<close>), with the interface of the factories that make
  its workers (\<^verbatim>\<open>worker.h\<close>, \<^verbatim>\<open>worker_factory.h\<close>) and the two factories
  that implement it (\<^verbatim>\<open>kv_worker_factory.cc\<close>,
  \<^verbatim>\<open>sharding_proxy_worker_factory.cc\<close>).
\<close>

section \<open>Workers and factories\<close>

text \<open>The two classes that derive from \<^verbatim>\<open>Worker\<close>, with whether their thread can be
  joined.\<close>

datatype worker = KvWorker int bool | ProxyWorker proxy bool

definition KvWorker_Stop :: "bool \<Rightarrow> int \<Rightarrow> bool \<Rightarrow> net \<Rightarrow> (int \<times> bool \<times> net) result" where
  "KvWorker_Stop ends fd joinable net =
     (let net = (if fd \<noteq> -1 then net(fd := sys_close (net fd)) else net) in
      bindR (thread_join joinable ends) (\<lambda>joinable. Inr (-1, joinable, net)))"

text \<open>\<open>ends\<close> says of which connections the thread returns from its function.\<close>

fun Worker_Stop :: "(int \<Rightarrow> bool) \<Rightarrow> worker \<Rightarrow> net \<Rightarrow> (worker \<times> net) result" where
  "Worker_Stop ends (KvWorker fd joinable) net =
     bindR (KvWorker_Stop (ends fd) fd joinable net) (\<lambda>(fd, joinable, net). Inr (KvWorker fd joinable, net))"
| "Worker_Stop ends (ProxyWorker p joinable) net =
     bindR (ShardingProxyWorker_Stop (ends (clientfd p)) p joinable net) (\<lambda>(p, joinable, net).
     Inr (ProxyWorker p joinable, net))"

text \<open>The virtual destructor: that of \<^verbatim>\<open>KvWorker\<close> is implicit, and destroys a thread.\<close>

fun Worker_delete :: "(int \<Rightarrow> bool) \<Rightarrow> worker \<Rightarrow> net \<Rightarrow> net result" where
  "Worker_delete ends (KvWorker fd joinable) net = (if joinable then Inl Terminated else Inr net)"
| "Worker_delete ends (ProxyWorker p joinable) net = ShardingProxyWorker_delete (ends (clientfd p)) p joinable net"

definition KvWorkerFactory_CreateWorker :: "int \<Rightarrow> net \<Rightarrow> worker status_or \<times> net" where
  "KvWorkerFactory_CreateWorker client_fd net = (StatusOr_ptr (Some (KvWorker client_fd True)), net)"

text \<open>The answers to the connection attempts may differ from client to client.\<close>

definition ShardingProxyWorkerFactory_CreateWorker ::
  "(int \<Rightarrow> nat \<Rightarrow> bytes \<Rightarrow> int \<Rightarrow> dial) \<Rightarrow> bytes \<Rightarrow> bytes list \<Rightarrow> int \<Rightarrow> int \<Rightarrow> net
     \<Rightarrow> worker status_or \<times> net" where
  "ShardingProxyWorkerFactory_CreateWorker dials errno hostnames port client_fd net =
     (let (proxy, net) = CreateProxy (dials client_fd) errno hostnames port client_fd net in
      if \<not> ok (so_status proxy) then (StatusOr_status (so_status proxy), net)
      else (StatusOr_ptr (map_option (\<lambda>p. ProxyWorker p True) (so_obj proxy)), net))"

text \<open>The law of a factory: it returns an object exactly when it returns ok.\<close>

locale worker_factory =
  fixes create :: "int \<Rightarrow> net \<Rightarrow> worker status_or \<times> net"
  assumes object_iff_ok: "create fd net = (r, net') \<Longrightarrow> ok (so_status r) \<longleftrightarrow> so_obj r \<noteq> None"

section \<open>The server\<close>

text \<open>\<^verbatim>\<open>workers_\<close> is a vector of owning pointers, which may be null.\<close>

record server =
  port_ :: int
  sock_fd :: int
  workers :: "worker option list"

definition Server_new :: "int \<Rightarrow> server" where
  "Server_new port = \<lparr>port_ = port, sock_fd = -1, workers = []\<rparr>"

text \<open>The singleton: the static instance and what the call returns.\<close>

definition Server_GetInstance :: "int \<Rightarrow> server option \<Rightarrow> server option" where
  "Server_GetInstance port inst =
     (if 0 < port \<and> inst = None then Some (Server_new port) else inst)"

text \<open>\<open>client_fd\<close> is what \<^verbatim>\<open>accept\<close> returns.\<close>

definition Server_Accept ::
  "(int \<Rightarrow> net \<Rightarrow> worker status_or \<times> net) \<Rightarrow> int \<Rightarrow> server \<Rightarrow> net \<Rightarrow> bool \<times> server \<times> net" where
  "Server_Accept create client_fd sv net =
     (if client_fd < 0 then (False, sv, net)
      else
        let (worker, net) = create client_fd net in
        if \<not> ok (so_status worker) then (False, sv, net)
        else (True, sv\<lparr>workers := workers sv @ [fst (so_take worker)]\<rparr>, net))"

text \<open>\<^verbatim>\<open>while (Accept());\<close> on what the successive calls of \<^verbatim>\<open>accept\<close> return.\<close>

fun accept_loop ::
  "(int \<Rightarrow> net \<Rightarrow> worker status_or \<times> net) \<Rightarrow> int list \<Rightarrow> server \<Rightarrow> net \<Rightarrow> (server \<times> net) result" where
  "accept_loop create [] sv net = Inl Blocked"
| "accept_loop create (client_fd # fds) sv net =
     (let (more, sv, net) = Server_Accept create client_fd sv net in
      if more then accept_loop create fds sv net else Inr (sv, net))"

definition Server_Start ::
  "(int \<Rightarrow> net \<Rightarrow> worker status_or \<times> net) \<Rightarrow> int \<Rightarrow> int \<Rightarrow> int list \<Rightarrow> server \<Rightarrow> net
     \<Rightarrow> (server \<times> net) result" where
  "Server_Start create socket_rc bind_rc accepts sv net =
     (let sv = sv\<lparr>sock_fd := socket_rc\<rparr> in
      if sock_fd sv < 0 then Inr (sv, net)
      else if bind_rc < 0 then Inr (sv, net)
      else accept_loop create accepts sv net)"

fun stop_workers :: "(int \<Rightarrow> bool) \<Rightarrow> worker option list \<Rightarrow> net \<Rightarrow> (worker option list \<times> net) result" where
  "stop_workers ends [] net = Inr ([], net)"
| "stop_workers ends (None # ws) net = Inl NullDeref"
| "stop_workers ends (Some w # ws) net =
     bindR (Worker_Stop ends w net) (\<lambda>(w, net).
     bindR (stop_workers ends ws net) (\<lambda>(ws, net). Inr (Some w # ws, net)))"

definition Server_Stop :: "(int \<Rightarrow> bool) \<Rightarrow> server \<Rightarrow> net \<Rightarrow> (server \<times> net) result" where
  "Server_Stop ends sv net =
     (let net = (if sock_fd sv \<noteq> -1 then net(sock_fd sv := sys_close (net (sock_fd sv))) else net);
          sv = sv\<lparr>sock_fd := -1\<rparr> in
      bindR (stop_workers ends (workers sv) net) (\<lambda>(ws, net). Inr (sv\<lparr>workers := ws\<rparr>, net)))"

text \<open>The destructor stops the server and then destroys the workers.\<close>

fun delete_workers :: "(int \<Rightarrow> bool) \<Rightarrow> worker option list \<Rightarrow> net \<Rightarrow> net result" where
  "delete_workers ends [] net = Inr net"
| "delete_workers ends (None # ws) net = delete_workers ends ws net"
| "delete_workers ends (Some w # ws) net = bindR (Worker_delete ends w net) (delete_workers ends ws)"

definition Server_delete :: "(int \<Rightarrow> bool) \<Rightarrow> server \<Rightarrow> net \<Rightarrow> net result" where
  "Server_delete ends sv net =
     bindR (Server_Stop ends sv net) (\<lambda>(sv, net). delete_workers ends (workers sv) net)"

text \<open>The invariant of a server: every worker it holds is an object.\<close>

definition server_good :: "server \<Rightarrow> bool" where
  "server_good sv \<longleftrightarrow> None \<notin> set (workers sv)"

lemma Worker_Stop_not_null: "Worker_Stop ends w net \<noteq> Inl NullDeref"
  by (cases w) (simp_all add: KvWorker_Stop_def ShardingProxyWorker_Stop_def thread_join_def Let_def)

lemma stop_workers_not_null: "None \<notin> set ws \<Longrightarrow> stop_workers ends ws net \<noteq> Inl NullDeref"
  by (induction ends ws net rule: stop_workers.induct)
    (auto simp: result_simps Worker_Stop_not_null)

context worker_factory
begin

lemma Accept_good: "server_good sv \<Longrightarrow> Server_Accept create fd sv net = (b, sv', net') \<Longrightarrow> server_good sv'"
  by (auto simp: Server_Accept_def server_good_def so_take_def dest: object_iff_ok
      split: if_splits prod.splits)

lemma accept_loop_good:
  "server_good sv \<Longrightarrow> accept_loop create fds sv net = Inr (sv', net') \<Longrightarrow> server_good sv'"
  by (induction fds arbitrary: sv net)
    (auto simp: Let_def split: prod.splits if_splits dest: Accept_good)

lemma Start_good:
  "server_good sv \<Longrightarrow> Server_Start create s b fds sv net = Inr (sv', net') \<Longrightarrow> server_good sv'"
  using accept_loop_good [of "sv\<lparr>sock_fd := s\<rparr>" fds net sv' net']
  by (auto simp: Server_Start_def Let_def server_good_def split: if_splits)

text \<open>Stopping a server that was started meets no null pointer among its workers.\<close>

lemma Start_Stop:
  assumes "Server_Start create s b fds (Server_new port) net = Inr (sv, net')"
  shows "Server_Stop ends sv net' \<noteq> Inl NullDeref"
proof -
  have "server_good sv"
    using Start_good [OF _ assms] by (simp add: server_good_def Server_new_def)
  then show ?thesis
    by (auto simp: Server_Stop_def Let_def server_good_def result_simps stop_workers_not_null)
qed

end

interpretation kv_factory: worker_factory KvWorkerFactory_CreateWorker
  by unfold_locales (auto simp: KvWorkerFactory_CreateWorker_def ok_def Status_Ok_def)

lemma CreateProxy_object:
  "CreateProxy dials errno hosts port cfd net = (r, net') \<Longrightarrow> ok (so_status r) \<longleftrightarrow> so_obj r \<noteq> None"
  by (auto simp: CreateProxy_def Let_def ok_def Status_Ok_def Status_Err0_def split: prod.splits if_splits)

interpretation proxy_factory: worker_factory
  "ShardingProxyWorkerFactory_CreateWorker dials errno hosts port"
  for dials errno hosts port
proof unfold_locales
  fix fd net r net'
  assume "ShardingProxyWorkerFactory_CreateWorker dials errno hosts port fd net = (r, net')"
  then show "ok (so_status r) \<longleftrightarrow> so_obj r \<noteq> None"
    using CreateProxy_object [of "dials fd" errno hosts port fd net]
    by (auto simp: ShardingProxyWorkerFactory_CreateWorker_def Let_def ok_def Status_Ok_def
        split: prod.splits if_splits)
qed

section \<open>What the two servers do with their clients\<close>

lemma accept_loop_kv:
  assumes "\<forall>fd \<in> set fds. 0 \<le> fd" and "bad < 0"
  shows "accept_loop KvWorkerFactory_CreateWorker (fds @ bad # rest) sv net =
    Inr (sv\<lparr>workers := workers sv @ map (\<lambda>fd. Some (KvWorker fd True)) fds\<rparr>, net)"
  using assms
  by (induction fds arbitrary: sv)
    (simp_all add: Server_Accept_def KvWorkerFactory_CreateWorker_def so_take_def ok_def Status_Ok_def)

lemma stop_workers_kv:
  "\<forall>fd \<in> set fds. 0 \<le> fd \<Longrightarrow> stop_workers ends (map (\<lambda>fd. Some (KvWorker fd True)) fds) net =
     (if \<forall>fd \<in> set fds. ends fd
      then Inr (replicate (length fds) (Some (KvWorker (-1) False)), close_all fds net) else Inl Blocked)"
  by (induction fds arbitrary: net) (simp_all add: KvWorker_Stop_def close_all_def thread_join_def)

lemma close_all_apply: "close_all fds net fd = (if fd \<in> set fds then sys_close (net fd) else net fd)"
proof (induction fds arbitrary: net)
  case (Cons f fds)
  have "close_all (f # fds) net = close_all fds (net(f := sys_close (net f)))"
    by (simp add: close_all_def)
  then show ?case using Cons by (simp add: sys_close_def)
qed (simp add: close_all_def)

text \<open>C32: The life of a shard's server: it makes one worker for every connection it accepts, in
  order, until accepting fails. Stopping it returns exactly when the threads of all workers
  return from their function; then the listening socket and the socket of every worker are
  closed, and no other, each worker has forgotten its descriptor, and its thread is joined. A
  second request for the instance returns the first one.\<close>

theorem KvServer_lifecycle:
  assumes "0 < port" and "0 \<le> lfd" and "0 \<le> brc" and "\<forall>fd \<in> set fds. 0 \<le> fd" and "bad < 0"
  shows "\<exists>inst sv net2. Server_GetInstance port None = Some inst \<and>
     Server_GetInstance other (Some inst) = Some inst \<and>
     Server_Start KvWorkerFactory_CreateWorker lfd brc (fds @ bad # rest) inst net = Inr (sv, net) \<and>
     workers sv = map (\<lambda>fd. Some (KvWorker fd True)) fds \<and>
     Server_Stop ends sv net =
       (if set fds \<subseteq> Collect ends
        then Inr (\<lparr>port_ = port, sock_fd = -1, workers = replicate (length fds) (Some (KvWorker (-1) False))\<rparr>, net2)
        else Inl Blocked) \<and>
     (\<forall>fd. is_open (net2 fd) \<longleftrightarrow> is_open (net fd) \<and> fd \<noteq> lfd \<and> fd \<notin> set fds)"
proof -
  let ?net2 = "close_all fds (net(lfd := sys_close (net lfd)))"
  have "Server_Start KvWorkerFactory_CreateWorker lfd brc (fds @ bad # rest) (Server_new port) net =
      Inr (\<lparr>port_ = port, sock_fd = lfd, workers = map (\<lambda>fd. Some (KvWorker fd True)) fds\<rparr>, net)"
    (is "_ = Inr (?sv, net)")
    using assms by (simp add: Server_new_def Server_Start_def accept_loop_kv)
  moreover have "Server_Stop ends ?sv net = (if set fds \<subseteq> Collect ends
        then Inr (\<lparr>port_ = port, sock_fd = -1, workers = replicate (length fds) (Some (KvWorker (-1) False))\<rparr>, ?net2)
        else Inl Blocked)"
    using assms by (auto simp: Server_Stop_def stop_workers_kv)
  moreover have "\<forall>fd. is_open (?net2 fd) \<longleftrightarrow> is_open (net fd) \<and> fd \<noteq> lfd \<and> fd \<notin> set fds"
    by (simp add: close_all_apply sys_close_def)
  ultimately show ?thesis
    using assms(1) by (intro exI [of _ "Server_new port"] exI [of _ ?sv] exI [of _ ?net2])
      (simp add: Server_GetInstance_def)
qed

lemma KvServer_lifecycle_witness:
  "\<exists>sv. Server_Start KvWorkerFactory_CreateWorker 3 0 [4, 5, -1] (Server_new 4242)
       (\<lambda>_. fresh_socket) = Inr (sv, \<lambda>_. fresh_socket) \<and>
     workers sv = [Some (KvWorker 4 True), Some (KvWorker 5 True)] \<and>
     Server_Stop (\<lambda>fd. fd = 4) sv (\<lambda>_. fresh_socket) = Inl Blocked"
  using KvServer_lifecycle [of 4242 3 0 "[4, 5]" "-1" 1 "[]" "\<lambda>_. fresh_socket" "\<lambda>fd. fd = 4"]
  by (auto simp: Server_GetInstance_def)

text \<open>A worker whose thread is joined cannot be stopped again.\<close>

lemma Worker_Stop_twice:
  "Worker_Stop ends w net = Inr (w', net') \<Longrightarrow> Worker_Stop ends2 w' net2 = Inl Terminated"
  by (cases w)
    (auto simp: KvWorker_Stop_def ShardingProxyWorker_Stop_def thread_join_def Let_def result_simps split: if_splits)

lemma stop_workers_joined:
  "stop_workers ends ws net = Inr (ws', net') \<Longrightarrow> length ws' = length ws \<and>
     (\<forall>v \<in> set ws'. \<exists>x. v = Some x \<and> (\<forall>n. Worker_Stop ends2 x n = Inl Terminated))"
  by (induction ends ws net arbitrary: ws' net' rule: stop_workers.induct)
    (fastforce simp: result_simps dest: Worker_Stop_twice)+

lemma Server_Stop_twice:
  assumes "Server_Stop ends sv net = Inr (sv2, net2)" and "workers sv \<noteq> []"
  shows "Server_Stop ends2 sv2 net2 = Inl Terminated"
proof -
  from assms(1) obtain n ws n2 where ws: "stop_workers ends (workers sv) n = Inr (ws, n2)" "workers sv2 = ws"
    by (auto simp: Server_Stop_def result_simps Let_def)
  then obtain x ws' where "ws = Some x # ws'" "\<forall>n. Worker_Stop ends2 x n = Inl Terminated"
    using stop_workers_joined [OF ws(1), of ends2] assms(2) by (cases ws) auto
  then show ?thesis using ws(2) by (simp add: Server_Stop_def)
qed

lemma stopped_proxies:
  "stop_workers ends ws net = Inr (ws', net') \<Longrightarrow> Some (ProxyWorker p j) \<in> set ws \<Longrightarrow>
     \<exists>q. Some (ProxyWorker q False) \<in> set ws'"
  by (induction ends ws net arbitrary: ws' net' rule: stop_workers.induct)
    (fastforce simp: result_simps ShardingProxyWorker_Stop_def thread_join_def Let_def split: if_splits)+

lemma delete_joined_proxy: "Some (ProxyWorker q False) \<in> set ws \<Longrightarrow> \<exists>h. delete_workers ends ws net = Inl h"
proof (induction ends ws net rule: delete_workers.induct)
  case (3 ends w ws net)
  then show ?case
    by (cases "Worker_delete ends w net")
      (auto simp: ShardingProxyWorker_delete_def ShardingProxyWorker_Stop_def thread_join_def Let_def)
qed simp_all

text \<open>C33: A server is stopped by \<^verbatim>\<open>Stop\<close>, by its destructor, and every proxy worker once more by its
  own destructor, but a thread can be joined only once: a server with any worker that has been
  stopped cannot be destroyed, and a server with a proxy worker cannot be destroyed at all. The
  destructor then ends the process, unless it waits for a thread for ever.\<close>

theorem Server_delete_fails:
  assumes "workers sv \<noteq> []"
  shows "(Server_Stop ends sv net = Inr (sv2, net2) \<longrightarrow> Server_delete ends2 sv2 net2 = Inl Terminated) \<and>
    (Some (ProxyWorker p j) \<in> set (workers sv) \<longrightarrow> (\<exists>h. Server_delete ends sv net = Inl h))"
proof (intro conjI impI)
  assume "Server_Stop ends sv net = Inr (sv2, net2)"
  from Server_Stop_twice [OF this assms] show "Server_delete ends2 sv2 net2 = Inl Terminated"
    by (simp add: Server_delete_def)
next
  assume p: "Some (ProxyWorker p j) \<in> set (workers sv)"
  show "\<exists>h. Server_delete ends sv net = Inl h"
  proof (cases "Server_Stop ends sv net")
    case (Inr x)
    then obtain sv3 net3 n where "x = (sv3, net3)" "stop_workers ends (workers sv) n = Inr (workers sv3, net3)"
      by (auto simp: Server_Stop_def result_simps Let_def)
    with stopped_proxies [OF this(2) p] delete_joined_proxy show ?thesis
      using Inr by (auto simp: Server_delete_def)
  qed (simp add: Server_delete_def)
qed

lemma Server_delete_fails_witness:
  "\<exists>h. Server_delete (\<lambda>_. True) ((Server_new 4242)\<lparr>workers := [Some (ProxyWorker (ShardingProxyWorker_new 4 [5]) True)]\<rparr>)
     (\<lambda>_. fresh_socket) = Inl h"
  using Server_delete_fails [of "(Server_new 4242)\<lparr>workers := [Some (ProxyWorker (ShardingProxyWorker_new 4 [5]) True)]\<rparr>"
      "\<lambda>_. True" "\<lambda>_. fresh_socket" "Server_new 0" "\<lambda>_. fresh_socket" "\<lambda>_. True" "ShardingProxyWorker_new 4 [5]" True]
  by auto

text \<open>The first client that connects to the proxy ends the proxy server: as the shard server it
  tries first is reached, on a positive descriptor, the factory takes the connection for a
  failure, \<^verbatim>\<open>Accept\<close> gives up, and with it the loop that accepts clients, whatever other
  clients wait. There is no worker, and neither the client's nor the shard's connection is
  closed or answered.\<close>

lemma ProxyServer_first_client:
  assumes "0 \<le> lfd" and "0 \<le> brc" and "0 \<le> fd" and "hosts \<noteq> []"
    and "0 < SockConnectTo (dials fd 0 (hd hosts) port)"
  shows "Server_Start (ShardingProxyWorkerFactory_CreateWorker dials errno hosts port) lfd brc
      (fd # fds) (Server_new lport) net = Inr ((Server_new lport)\<lparr>sock_fd := lfd\<rparr>, net)"
proof -
  have "CreateProxy (dials fd) errno hosts port fd net = (StatusOr_status (Status_Err0 errno), net)"
    using assms(4,5) by (cases hosts) (simp_all add: CreateProxy_def close_all_def Let_def)
  then show ?thesis
    using assms(1-3)
    by (simp add: Server_Start_def Server_Accept_def ShardingProxyWorkerFactory_CreateWorker_def
        ok_def Status_Err0_def)
qed

lemma ProxyServer_first_client_witness:
  "Server_Start (ShardingProxyWorkerFactory_CreateWorker
      (\<lambda>_ _ _ _. \<lparr>dial_socket = 6, dial_host = Some [1], dial_connect = 0\<rparr>) [] [[104]] 4242) 3 0
      [5, 7] (Server_new 4242) (\<lambda>_. fresh_socket) =
    Inr ((Server_new 4242)\<lparr>sock_fd := 3\<rparr>, \<lambda>_. fresh_socket)"
  by (rule ProxyServer_first_client) (simp_all add: SockConnectTo_def)

end
