(* ===== verification/Sqpkv_Shard.thy ===== *)
theory Sqpkv_Shard
  imports Sqpkv_Server "HOL-Library.Multiset"
begin

text \<open>
  The process of a shard server: the thread that accepts connections (\<^verbatim>\<open>ShardMain\<close> in
  \<^verbatim>\<open>src/server/server_launcher.cc\<close>, \<^verbatim>\<open>Server::Start\<close>) and one thread per
  connection (\<^verbatim>\<open>KvWorker::HandleClient\<close>), which share the database and end together.
  Their steps interleave: reading a packet and sending an answer touch the thread's own socket
  only, and a call of the database takes effect at once, as RocksDB documents for its
  operations and for the snapshot an iterator reads.
\<close>

section \<open>One thread\<close>

text \<open>Where a thread is in the loop: before it reads, after it has read a packet, after the
  database call, or behind the loop.\<close>

datatype kv_thread =
    Reading
  | Executing command_packet
  | Responding command_packet response
  | Returned

fun kv_thread_step ::
  "'d rocksdb \<Rightarrow> kv_thread \<Rightarrow> 'd \<Rightarrow> socket \<Rightarrow> (kv_thread \<times> 'd \<times> socket) result" where
  "kv_thread_step ops Reading d s =
     bindR (ReadFromClient s) (\<lambda>(packet, s).
     if err (so_status packet) then Inr (Returned, d, s)
     else if eof (so_status packet) then Inr (Returned, d, s)
     else bindR (so_deref packet) (\<lambda>p. Inr (Executing p, d, s)))"
| "kv_thread_step ops (Executing p) d s =
     (let (r, d) = kv_execute ops d p in Inr (Responding p r, d, s))"
| "kv_thread_step ops (Responding p r) d s =
     bindR (response_new r None) (\<lambda>(resp, _).
     bindR (SendPacket (response_base resp) s) (\<lambda>(net_status, s).
     Inr (if err net_status then Returned else Reading, d, s)))"
| "kv_thread_step ops Returned d s = Inr (Returned, d, s)"

text \<open>A thread that is left alone goes through its loop like the function it runs.\<close>

lemma kv_thread_alone:
  "kv_thread_step ops Reading d s = Inr (Returned, d', s') \<Longrightarrow>
     KvWorker_HandleClient ops d s = (Finished, d', s')"
  "kv_thread_step ops Reading d s = Inr (Executing p, d1, s1) \<Longrightarrow>
     kv_thread_step ops (Executing p) d1 s1 = Inr (t, d2, s2) \<Longrightarrow>
     KvWorker_HandleClient ops d s = (Halted NullDeref, d2, s2)"
  by (subst KvWorker_HandleClient.simps,
      auto simp: KvWorker_round_def result_simps response_new_null split: if_splits prod.splits)+

section \<open>The process\<close>

datatype process_end = Exited int | Crashed halt

record 'd shard =
  store :: 'd
  listener :: server
  sockets :: net
  threads :: "(int \<times> kv_thread) list"
  accepting :: bool
  down :: "process_end option"

text \<open>After \<^verbatim>\<open>GetInstance\<close>, \<^verbatim>\<open>socket\<close>, \<^verbatim>\<open>bind\<close> and
  \<^verbatim>\<open>listen\<close>.\<close>

definition shard_new :: "int \<Rightarrow> int \<Rightarrow> 'd \<Rightarrow> net \<Rightarrow> 'd shard" where
  "shard_new port lfd d net =
     \<lparr>store = d, listener = (Server_new port)\<lparr>sock_fd := lfd\<rparr>, sockets = net, threads = [], accepting = True, down = None\<rparr>"

text \<open>A step of the process, as long as it runs: bytes, the end or a failure arrive at a socket;
  \<^verbatim>\<open>accept\<close> returns a connection, on a descriptor no thread has, and the factory starts a
  worker; \<^verbatim>\<open>accept\<close> fails, and \<^verbatim>\<open>ShardMain\<close> returns; \<^verbatim>\<open>MPI_Finalize\<close>, which may wait for
  the other processes, returns, if ever, and the process is over while its threads still run; a thread
  makes a step; or a thread does not return from one, which ends the process unless it waits.\<close>

inductive shard_step :: "'d rocksdb \<Rightarrow> 'd shard \<Rightarrow> 'd shard \<Rightarrow> bool" for ops :: "'d rocksdb" where
  arrive: "down P = None \<Longrightarrow>
     shard_step ops P (P\<lparr>sockets := (sockets P)(fd := (sockets P fd)\<lparr>inq := inq (sockets P fd) @ [a]\<rparr>)\<rparr>)"
| accept: "down P = None \<Longrightarrow> accepting P \<Longrightarrow> fd \<notin> fst ` set (threads P) \<Longrightarrow> outq (sockets P fd) = [] \<Longrightarrow>
     Server_Accept KvWorkerFactory_CreateWorker fd (listener P) (sockets P) = (True, sv, net) \<Longrightarrow>
     shard_step ops P (P\<lparr>listener := sv, sockets := net, threads := threads P @ [(fd, Reading)]\<rparr>)"
| give_up: "down P = None \<Longrightarrow> accepting P \<Longrightarrow>
     Server_Accept KvWorkerFactory_CreateWorker fd (listener P) (sockets P) = (False, sv, net) \<Longrightarrow>
     shard_step ops P (P\<lparr>listener := sv, sockets := net, accepting := False\<rparr>)"
| finalize: "down P = None \<Longrightarrow> \<not> accepting P \<Longrightarrow> shard_step ops P (P\<lparr>down := Some (Exited 0)\<rparr>)"
| thread: "down P = None \<Longrightarrow> i < length (threads P) \<Longrightarrow> threads P ! i = (fd, t) \<Longrightarrow>
     kv_thread_step ops t (store P) (sockets P fd) = Inr (t', d, s) \<Longrightarrow>
     shard_step ops P (P\<lparr>store := d, sockets := (sockets P)(fd := s), threads := (threads P)[i := (fd, t')]\<rparr>)"
| crash: "down P = None \<Longrightarrow> i < length (threads P) \<Longrightarrow> threads P ! i = (fd, t) \<Longrightarrow>
     kv_thread_step ops t (store P) (sockets P fd) = Inl h \<Longrightarrow> h \<noteq> Blocked \<Longrightarrow>
     shard_step ops P (P\<lparr>down := Some (Crashed h)\<rparr>)"

section \<open>What the store is worth\<close>

text \<open>The commands that the threads have executed, with the responses they hold.\<close>

definition executed :: "(int \<times> kv_thread) list \<Rightarrow> (command \<times> response) list" where
  "executed ts = concat (map (\<lambda>(fd, t).
     case t of Responding p r \<Rightarrow> [(packet_command p, r)] | _ \<Rightarrow> []) ts)"

lemma executed_simps [simp]:
  "executed [] = []"
  "executed ((fd, Reading) # ts) = executed ts"
  "executed ((fd, Executing p) # ts) = executed ts"
  "executed ((fd, Responding p r) # ts) = (packet_command p, r) # executed ts"
  "executed ((fd, Returned) # ts) = executed ts"
  "executed (ts @ us) = executed ts @ executed us"
  by (simp_all add: executed_def)

lemma mset_executed_update:
  assumes "i < length ts"
  shows "mset (executed (ts[i := x])) + mset (executed [ts ! i]) = mset (executed ts) + mset (executed [x])"
proof -
  have app: "executed (a @ b @ c) = executed a @ executed b @ executed c" for a b c by simp
  have "ts[i := x] = take i ts @ [x] @ drop (Suc i) ts"
    using assms by (simp add: upd_conv_take_nth_drop)
  moreover have "ts = take i ts @ [ts ! i] @ drop (Suc i) ts"
    using id_take_nth_drop [OF assms] by simp
  ultimately have "executed (ts[i := x]) = executed (take i ts) @ executed [x] @ executed (drop (Suc i) ts)"
    "executed ts = executed (take i ts) @ executed [ts ! i] @ executed (drop (Suc i) ts)"
    by (metis app)+
  then show ?thesis by simp
qed

definition shard_good ::
  "('d \<Rightarrow> bool) \<Rightarrow> ('d \<Rightarrow> bytes \<rightharpoonup> bytes) \<Rightarrow> 'd \<Rightarrow> 'd shard \<Rightarrow> bool" where
  "shard_good I M d0 P \<longleftrightarrow> I (store P) \<and> server_good (listener P) \<and>
     workers (listener P) = map (\<lambda>(fd, t). Some (KvWorker fd True)) (threads P) \<and>
     (\<exists>log. kv_run (M d0) log (M (store P)) \<and> mset log = mset (executed (threads P))) \<and>
     (\<forall>fd. outq (sockets P fd) = [])"

lemma ReadFromClient_keeps_outq: "ReadFromClient s = Inr (p, s') \<Longrightarrow> outq s' = outq s"
  using read_loop_conserves
  by (fastforce simp: ReadFromClient_def ReadWholePacket_def result_simps split: if_splits)

lemma kv_thread_step_cases:
  assumes "kv_thread_step ops t d s = Inr (t', d', s')"
  obtains "t = Reading" "d' = d" "outq s' = outq s" "t' = Returned \<or> (\<exists>p. t' = Executing p)"
    | p where "t = Executing p" "kv_execute ops d p = (fst (kv_execute ops d p), d')" "s' = s"
        "t' = Responding p (fst (kv_execute ops d p))"
    | "t = Returned" "t' = Returned" "d' = d" "s' = s"
  using assms
  by (cases t)
    (auto simp: result_simps response_new_null dest: ReadFromClient_keeps_outq split: if_splits prod.splits)

lemma map_update_same: "i < length xs \<Longrightarrow> f y = f (xs ! i) \<Longrightarrow> map f (xs[i := y]) = map f xs"
  by (metis list_update_id map_update nth_map)

lemma thread_step_good:
  assumes "rocksdb_contract ops I M" and good: "shard_good I M d0 P" and i: "i < length (threads P)"
    and at: "threads P ! i = (fd, t)"
    and step: "kv_thread_step ops t (store P) (sockets P fd) = Inr (t', d, s)"
  shows "shard_good I M d0
    (P\<lparr>store := d, sockets := (sockets P)(fd := s), threads := (threads P)[i := (fd, t')]\<rparr>)"
proof -
  have ws: "map (\<lambda>(fd, t). Some (KvWorker fd True)) ((threads P)[i := (fd, t')]) =
      map (\<lambda>(fd, t). Some (KvWorker fd True)) (threads P)"
    using i at by (intro map_update_same) simp_all
  note upd = mset_executed_update [OF i, of "(fd, t')", unfolded at]
  show ?thesis
    using step
  proof (cases rule: kv_thread_step_cases)
    case 1
    then show ?thesis using good ws upd by (auto simp: shard_good_def)
  next
    case (2 p)
    obtain log where log: "kv_run (M d0) log (M (store P))" "mset log = mset (executed (threads P))"
      using good by (auto simp: shard_good_def)
    let ?r = "fst (kv_execute ops (store P) p)"
    have "kv_spec (M (store P)) (packet_command p) ?r (M d) \<and> I d"
      using kv_execute_spec [OF assms(1), of "store P" p] good 2(2)
      by (metis shard_good_def snd_conv)
    moreover from this have "kv_run (M d0) (log @ [(packet_command p, ?r)]) (M d)"
      using kv_run_snoc [OF log(1)] by blast
    moreover have "mset (log @ [(packet_command p, ?r)]) = mset (executed ((threads P)[i := (fd, t')]))"
      using upd log(2) 2 by simp
    ultimately show ?thesis
      using good ws 2 unfolding shard_good_def by auto
  next
    case 3
    then show ?thesis using good ws upd by (auto simp: shard_good_def)
  qed
qed

lemma shard_step_good:
  assumes "rocksdb_contract ops I M" and "shard_step ops P Q" and "shard_good I M d0 P"
  shows "shard_good I M d0 Q"
  using assms(2,3)
proof cases
  case (arrive fd a)
  then show ?thesis using assms(3) by (auto simp: shard_good_def)
next
  case (accept fd sv net)
  then have sv: "sv = (listener P)\<lparr>workers := workers (listener P) @ [Some (KvWorker fd True)]\<rparr>" "net = sockets P"
    by (auto simp: Server_Accept_def KvWorkerFactory_CreateWorker_def so_take_def ok_def Status_Ok_def
        split: if_splits)
  then show ?thesis using accept assms(3) by (auto simp: shard_good_def server_good_def)
next
  case (give_up fd sv net)
  then have "sv = listener P" "net = sockets P"
    by (auto simp: Server_Accept_def KvWorkerFactory_CreateWorker_def ok_def Status_Ok_def
        split: if_splits)
  then show ?thesis using give_up assms(3) by (auto simp: shard_good_def)
next
  case finalize
  then show ?thesis using assms(3) by (auto simp: shard_good_def)
next
  case (thread i fd t t' d s)
  then show ?thesis using thread_step_good [OF assms(1,3) thread(3-5)] by simp
next
  case (crash i fd t h)
  then show ?thesis using assms(3) by (auto simp: shard_good_def)
qed

lemma shard_steps_good:
  assumes "rocksdb_contract ops I M"
  shows "(shard_step ops)\<^sup>*\<^sup>* P Q \<Longrightarrow> shard_good I M d0 P \<Longrightarrow> shard_good I M d0 Q"
  by (induction rule: rtranclp_induct) (use shard_step_good [OF assms] in auto)

lemma shard_new_good:
  "I d \<Longrightarrow> \<forall>fd. outq (net fd) = [] \<Longrightarrow> shard_good I M d (shard_new port lfd d net)"
  by (auto simp: shard_good_def shard_new_def server_good_def Server_new_def intro: run_done)

lemma length_executed: "length (executed ts) \<le> length ts"
  by (induction ts) (auto simp: executed_def split: kv_thread.splits)

text \<open>C8: However the threads of a shard's process interleave, and whatever arrives at its sockets,
  at any time the store is what the commands of the threads that have executed one make of the
  store the process started with, in some order, one command for each of these threads: a
  thread executes at most one. There is a worker for every accepted connection. Nothing is ever
  sent to a client, so no client knows that its command was executed.\<close>

theorem shard_process_invariant:
  assumes "rocksdb_contract ops I M" and "I d" and "\<forall>fd. outq (net fd) = []"
    and "(shard_step ops)\<^sup>*\<^sup>* (shard_new port lfd d net) P"
  shows "I (store P) \<and>
    (\<exists>log. kv_run (M d) log (M (store P)) \<and> mset log = mset (executed (threads P)) \<and>
       M (store P) = fold effect log (M d) \<and> length log \<le> length (threads P)) \<and>
    workers (listener P) = map (\<lambda>(fd, t). Some (KvWorker fd True)) (threads P) \<and>
    (\<forall>fd. outq (sockets P fd) = [])"
proof -
  have good: "shard_good I M d P"
    using shard_steps_good [OF assms(1,4) shard_new_good] assms(2,3) by blast
  then obtain log where log: "kv_run (M d) log (M (store P))" "mset log = mset (executed (threads P))"
    by (auto simp: shard_good_def)
  have "length log \<le> length (threads P)"
    using mset_eq_length [OF log(2)] length_executed [of "threads P"] by simp
  then show ?thesis using good log kv_run_effects [OF log(1)] unfolding shard_good_def by blast
qed

section \<open>The process ends with its first answer\<close>

lemma Responding_crashes: "kv_thread_step ops (Responding p r) d s = Inl NullDeref"
  by (simp add: response_new_null)

lemma shard_serves:
  assumes "rocksdb_contract ops I M" and "I (store P)" and "down P = None" and "i < length (threads P)"
    and "threads P ! i = (fd, Reading)" and "wf_command c" and "is_open (sockets P fd)"
    and "inq (sockets P fd) = map Segment (packet_chunks (encode_command c)) @ q"
  shows "\<exists>Q p r. (shard_step ops)\<^sup>*\<^sup>* P Q \<and> down Q = None \<and>
    threads Q = (threads P)[i := (fd, Responding p r)] \<and> packet_command p = c \<and>
    sockets Q = (sockets P)(fd := (sockets P fd)\<lparr>inq := q\<rparr>) \<and>
    kv_spec (M (store P)) c r (M (store Q)) \<and> I (store Q) \<and> (store Q) = snd (kv_execute ops (store P) p)"
proof -
  let ?p = "command_object (received_packet c) c"
  let ?s = "(sockets P fd)\<lparr>inq := q\<rparr>"
  have "kv_thread_step ops Reading (store P) (sockets P fd) = Inr (Executing ?p, store P, ?s)"
    using ReadFromClient_object [OF assms(6-8)] by simp
  from shard_step.thread [OF assms(3-5) this]
  have step1: "shard_step ops P (P\<lparr>sockets := (sockets P)(fd := ?s), threads := (threads P)[i := (fd, Executing ?p)]\<rparr>)"
    (is "shard_step ops P ?P1") by simp
  obtain r d where run: "kv_execute ops (store P) ?p = (r, d)" "kv_spec (M (store P)) c r (M d)" "I d"
    using kv_spec_run [OF assms(1,2)] by blast
  define Q where "Q = P\<lparr>store := d, sockets := (sockets P)(fd := ?s),
      threads := (threads P)[i := (fd, Responding ?p r)]\<rparr>"
  have "shard_step ops ?P1 (?P1\<lparr>store := d, sockets := (sockets ?P1)(fd := ?s),
      threads := (threads ?P1)[i := (fd, Responding ?p r)]\<rparr>)"
    using assms(3,4) run(1) by (intro shard_step.thread [where t = "Executing ?p"]) simp_all
  then have "shard_step ops ?P1 Q" by (simp add: Q_def)
  with step1 have "(shard_step ops)\<^sup>*\<^sup>* P Q" by (meson r_into_rtranclp rtranclp_trans)
  moreover have "down Q = None" "threads Q = (threads P)[i := (fd, Responding ?p r)]" "store Q = d"
    "sockets Q = (sockets P)(fd := ?s)"
    using assms(3) by (simp_all add: Q_def)
  moreover have "packet_command ?p = c" by simp
  ultimately show ?thesis using run by (metis snd_conv)
qed

text \<open>Two connections, on each of which a command has arrived.\<close>

definition example_net :: "command \<Rightarrow> command \<Rightarrow> net" where
  "example_net c c' = (\<lambda>_. fresh_socket)
     (5 := fresh_socket\<lparr>inq := map Segment (packet_chunks (encode_command c)) @ []\<rparr>,
      6 := fresh_socket\<lparr>inq := map Segment (packet_chunks (encode_command c')) @ []\<rparr>)"

lemma example_shard:
  "\<exists>P. (shard_step mem_db)\<^sup>*\<^sup>* (shard_new 4242 3 [] (example_net (Put [107] [1]) (Put [107] [2]))) P \<and>
     threads P = [(5, Reading), (6, Reading)] \<and> down P = None \<and>
     store P = [] \<and> sockets P = example_net (Put [107] [1]) (Put [107] [2])"
proof -
  let ?net = "example_net (Put [107] [1]) (Put [107] [2])"
  have acc: "Server_Accept KvWorkerFactory_CreateWorker fd sv net =
      (True, sv\<lparr>workers := workers sv @ [Some (KvWorker fd True)]\<rparr>, net)" if "0 \<le> fd" for fd sv net
    using that by (simp add: Server_Accept_def KvWorkerFactory_CreateWorker_def so_take_def ok_def Status_Ok_def)
  let ?P0 = "shard_new 4242 3 ([] :: mem) ?net"
  let ?P1 = "?P0\<lparr>listener := (listener ?P0)\<lparr>workers := workers (listener ?P0) @ [Some (KvWorker 5 True)]\<rparr>,
    sockets := ?net, threads := threads ?P0 @ [(5, Reading)]\<rparr>"
  let ?P2 = "?P1\<lparr>listener := (listener ?P1)\<lparr>workers := workers (listener ?P1) @ [Some (KvWorker 6 True)]\<rparr>,
    sockets := ?net, threads := threads ?P1 @ [(6, Reading)]\<rparr>"
  have "shard_step mem_db ?P0 ?P1"
    by (rule shard_step.accept) (simp_all add: shard_new_def acc example_net_def)
  moreover have "shard_step mem_db ?P1 ?P2"
    by (rule shard_step.accept) (simp_all add: shard_new_def acc example_net_def)
  ultimately have "(shard_step mem_db)\<^sup>*\<^sup>* ?P0 ?P2"
    by (meson r_into_rtranclp rtranclp_trans)
  then show ?thesis by (intro exI [of _ ?P2]) (simp add: shard_new_def)
qed

lemma shard_process_invariant_witness:
  "\<exists>P log. (shard_step mem_db)\<^sup>*\<^sup>* (shard_new 4242 3 [] (example_net (Put [107] [1]) (Put [107] [2]))) P \<and>
     kv_run Map.empty log (map_of (store P)) \<and> map fst log = [Put [107] [2]] \<and>
     length (threads P) = 2"
proof -
  let ?net = "example_net (Put [107] [1]) (Put [107] [2])"
  obtain P where P: "(shard_step mem_db)\<^sup>*\<^sup>* (shard_new 4242 3 [] ?net) P"
    "down P = None" "store P = []" "sockets P = ?net"
    and ts: "threads P = [(5, Reading), (6, Reading)]"
    using example_shard by blast
  have "\<exists>Q p r. (shard_step mem_db)\<^sup>*\<^sup>* P Q \<and> down Q = None \<and>
    threads Q = (threads P)[1 := (6, Responding p r)] \<and> packet_command p = Put [107] [2] \<and>
    sockets Q = (sockets P)(6 := (sockets P 6)\<lparr>inq := []\<rparr>) \<and>
    kv_spec (map_of (store P)) (Put [107] [2]) r (map_of (store Q)) \<and> mem_good (store Q) \<and>
    (store Q) = snd (kv_execute mem_db (store P) p)"
    by (rule shard_serves [OF mem_db_contract, where q = "[]"])
      (use P ts in \<open>simp_all add: example_net_def wf_command_def\<close>)
  then obtain Q p r where Q: "(shard_step mem_db)\<^sup>*\<^sup>* P Q"
    "threads Q = [(5, Reading), (6, Responding p r)]" "packet_command p = Put [107] [2]"
    using ts by auto
  have run: "(shard_step mem_db)\<^sup>*\<^sup>* (shard_new 4242 3 [] ?net) Q" using P(1) Q(1) by simp
  have "\<forall>fd. outq (?net fd) = []" by (simp add: example_net_def)
  from shard_process_invariant [OF mem_db_contract mem_good_Nil this run]
  obtain log where log: "kv_run Map.empty log (map_of (store Q))" "mset log = {#(Put [107] [2], r)#}"
    using Q by auto
  then have "log = [(Put [107] [2], r)]" by simp
  then show ?thesis using run log(1) Q(2) by (intro exI [of _ Q] exI [of _ log]) simp
qed

end
