(* ===== verification/Sqpkv_Launcher.thy ===== *)
theory Sqpkv_Launcher
  imports Sqpkv_Kv Sqpkv_Sharding
begin

text \<open>
  The launcher (\<^verbatim>\<open>src/server/server_launcher.cc\<close>): the processes of a cluster agree over
  MPI on who is the proxy, save their shard ids, and tell the proxy their addresses. The model
  runs all ranks together: a list of launchers in the order of their ranks. As MPI documents, the
  messages from one rank to another arrive in order, a receive waits for the rank it names, and
  a broadcast gives every rank the root's value.
\<close>

section \<open>The shard id of a store\<close>

text \<open>\<^verbatim>\<open>std::stoi\<close>.\<close>

definition stoi :: "bytes \<Rightarrow> int result" where
  "stoi bs =
     (let (neg, ds) = split_sign (dropWhile is_space bs) in
      if ds = [] \<or> \<not> is_digit (hd ds) then Inl InvalidArgument
      else let v = int (digits_value 0 ds); i = (if neg then - v else v) in
        if i < -2147483648 \<or> 2147483647 < i then Inl OutOfRange else Inr i)"

record 'd launcher =
  shard_id :: int
  world_size :: int
  world_rank :: int
  proxy_rank :: int
  db :: "'d option"
  ip_addresses :: "bytes list"
  id_to_rank :: "int \<rightharpoonup> int"
  address_file :: "bytes option"

text \<open>The last field is what the process has written to the file of the flag
  \<^verbatim>\<open>proxy_hostname\<close>. The launcher after \<^verbatim>\<open>MPI_Init\<close> and \<^verbatim>\<open>OpenDb\<close>.\<close>

definition ServerLauncher_new :: "int \<Rightarrow> int \<Rightarrow> 'd option \<Rightarrow> 'd launcher" where
  "ServerLauncher_new num rank opened =
     \<lparr>shard_id = -1, world_size = num, world_rank = rank, proxy_rank = -1, db = opened,
      ip_addresses = [], id_to_rank = Map.empty, address_file = None\<rparr>"

definition shard_id_key :: bytes where
  "shard_id_key = bytes_of ''shard_id''"

definition ServerLauncher_GetShardId :: "'d rocksdb \<Rightarrow> 'd launcher \<Rightarrow> 'd launcher result" where
  "ServerLauncher_GetShardId ops l =
     (case db l of
        None \<Rightarrow> Inr (l\<lparr>shard_id := -1\<rparr>)
      | Some d \<Rightarrow>
          let (s, shard_id_value) = db_get ops d shard_id_key in
          if \<not> rs_ok s then
            (if rs_not_found s then Inr (l\<lparr>shard_id := world_rank l\<rparr>)
             else Inr (l\<lparr>shard_id := -1\<rparr>))
          else bindR (stoi shard_id_value) (\<lambda>i. Inr (l\<lparr>shard_id := i\<rparr>)))"

section \<open>The handshake\<close>

text \<open>Rank 0 receives the ids of the other ranks in order.\<close>

fun collect_ids :: "int \<Rightarrow> int list \<Rightarrow> int \<Rightarrow> (int \<rightharpoonup> int) \<Rightarrow> int \<times> (int \<rightharpoonup> int)" where
  "collect_ids rank [] proxy m = (proxy, m)"
| "collect_ids rank (comm_shard_id # ids) proxy m =
     (let proxy =
        (if comm_shard_id = -1 then -1
         else if proxy \<noteq> -1 \<and> comm_shard_id = 0 then rank else proxy) in
      collect_ids (rank + 1) ids proxy (m(comm_shard_id \<mapsto> rank)))"

text \<open>\<^verbatim>\<open>id_to_rank[shard_id]\<close> inserts zero for an id that is not there.\<close>

definition rank_of :: "(int \<rightharpoonup> int) \<Rightarrow> int \<Rightarrow> int \<times> (int \<rightharpoonup> int)" where
  "rank_of m sid = (case m sid of None \<Rightarrow> (0, m(sid \<mapsto> 0)) | Some rank \<Rightarrow> (rank, m))"

text \<open>\<open>mb\<close> holds what each rank has sent to the receiver.\<close>

definition MPI_Recv :: "int \<Rightarrow> (int \<Rightarrow> 'm list) \<Rightarrow> ('m \<times> (int \<Rightarrow> 'm list)) result" where
  "MPI_Recv rank mb =
     (case mb rank of [] \<Rightarrow> Inl Blocked | msg # msgs \<Rightarrow> Inr (msg, mb(rank := msgs)))"

fun collect_saves ::
  "int list \<Rightarrow> (int \<rightharpoonup> int) \<Rightarrow> (int \<Rightarrow> bool list) \<Rightarrow> bool \<Rightarrow> (bool \<times> (int \<rightharpoonup> int)) result" where
  "collect_saves [] m mb save_success = Inr (save_success, m)"
| "collect_saves (sid # sids) m mb save_success =
     (let (rank, m) = rank_of m sid in
      bindR (MPI_Recv rank mb) (\<lambda>(comm_save_success, mb).
      collect_saves sids m mb (comm_save_success \<and> save_success)))"

text \<open>Every rank saves its id; the value is its rank.\<close>

definition save_id :: "'d rocksdb \<Rightarrow> 'd launcher \<Rightarrow> (bool \<times> 'd launcher) result" where
  "save_id ops l =
     (case db l of
        None \<Rightarrow> Inl NullDeref
      | Some d \<Rightarrow>
          let (s, d) = db_put ops d shard_id_key (to_string (nat (world_rank l))) in
          Inr (rs_ok s, l\<lparr>db := Some d\<rparr>))"

fun save_ids :: "'d rocksdb \<Rightarrow> 'd launcher list \<Rightarrow> (bool list \<times> 'd launcher list) result" where
  "save_ids ops [] = Inr ([], [])"
| "save_ids ops (l # ls) =
     bindR (save_id ops l) (\<lambda>(save_success, l).
     bindR (save_ids ops ls) (\<lambda>(oks, ls). Inr (save_success # oks, l # ls)))"

text \<open>What the other ranks have sent to the proxy.\<close>

definition mailbox :: "int \<Rightarrow> ('d launcher \<Rightarrow> nat \<Rightarrow> 'm list) \<Rightarrow> 'd launcher list \<Rightarrow> int \<Rightarrow> 'm list" where
  "mailbox proxy sent ls rank =
     (if 0 \<le> rank \<and> rank < int (length ls) \<and> rank \<noteq> proxy then sent (ls ! nat rank) (nat rank) else [])"

definition ShakeHands :: "'d rocksdb \<Rightarrow> 'd launcher list \<Rightarrow> 'd launcher list result" where
  "ShakeHands ops ls =
     (let id0 = shard_id (hd ls);
          (proxy, m) = collect_ids 1 (map shard_id (tl ls)) (if id0 = -1 then -1 else 0) [id0 \<mapsto> 0];
          ls = map (\<lambda>l. l\<lparr>proxy_rank := proxy\<rparr>) ls;
          ls = ls[0 := (ls ! 0)\<lparr>id_to_rank := m\<rparr>] in
      if proxy = -1 then Inr ls
      else
        bindR (save_ids ops ls) (\<lambda>(oks, ls).
        bindR (collect_saves (map int [1..<length ls]) (id_to_rank (ls ! nat proxy))
                 (mailbox proxy (\<lambda>l i. [oks ! i]) ls) (oks ! nat proxy)) (\<lambda>(save_success, m).
        let ls = ls[nat proxy := (ls ! nat proxy)\<lparr>id_to_rank := m\<rparr>] in
        Inr (map (\<lambda>l. l\<lparr>proxy_rank := if save_success then proxy else -1\<rparr>) ls))))"

section \<open>Addresses\<close>

text \<open>One entry of \<^verbatim>\<open>getifaddrs\<close>: its name, the family of its address if it has one, and
  the numeric host that \<^verbatim>\<open>getnameinfo\<close> gives for it, if it succeeds.\<close>

record interface =
  ifa_name :: bytes
  ifa_family :: "int option"
  ifa_host :: "bytes option"

definition AF_INET :: int where
  "AF_INET = 2"

text \<open>\<^verbatim>\<open>GetInfinibandIp\<close>: its result, and what it leaves in the caller's array, the last host
  found, if any.\<close>

fun infiniband_loop :: "interface list \<Rightarrow> bytes option \<Rightarrow> bool \<Rightarrow> int \<times> bytes option" where
  "infiniband_loop [] host ip_found = (if ip_found then 0 else -1, host)"
| "infiniband_loop (ifa # ifas) host ip_found =
     (case ifa_family ifa of
        None \<Rightarrow> infiniband_loop ifas host ip_found
      | Some family \<Rightarrow>
          if take 3 (ifa_name ifa) = bytes_of ''ib0'' \<and> family = AF_INET then
            (case ifa_host ifa of None \<Rightarrow> (-1, host) | Some h \<Rightarrow> infiniband_loop ifas (Some h) True)
          else infiniband_loop ifas host ip_found)"

definition GetInfinibandIp :: "interface list option \<Rightarrow> int \<times> bytes option" where
  "GetInfinibandIp ifaddr = (case ifaddr of None \<Rightarrow> (-1, None) | Some ifas \<Rightarrow> infiniband_loop ifas None False)"

text \<open>The address that the caller has when it looks at the result.\<close>

definition found :: "int \<times> bytes option \<Rightarrow> bytes option" where
  "found lookup = (if fst lookup = -1 then None else snd lookup)"

lemma infiniband_loop_found:
  "(ip_found \<longrightarrow> host \<noteq> None) \<Longrightarrow> infiniband_loop ifas host ip_found = (rc, h) \<Longrightarrow>
     rc = -1 \<or> rc = 0 \<and> h \<noteq> None"
  by (induction ifas host ip_found rule: infiniband_loop.induct) (auto split: option.splits if_splits)

text \<open>When the lookup succeeds there is an address.\<close>

lemma GetInfinibandIp_found: "fst (GetInfinibandIp ifaddr) \<noteq> -1 \<Longrightarrow> \<exists>h. GetInfinibandIp ifaddr = (0, Some h)"
  using infiniband_loop_found [of False None]
  by (cases "GetInfinibandIp ifaddr") (auto simp: GetInfinibandIp_def split: option.splits)

text \<open>A rank sends the size of its address, zero byte included, or -1, and then the address.\<close>

datatype address_msg = AddressSize int | AddressChars bytes

definition address_msgs :: "bytes option \<Rightarrow> address_msg list" where
  "address_msgs host =
     (case host of
        None \<Rightarrow> [AddressSize (-1)]
      | Some h \<Rightarrow> [AddressSize (int (length h) + 1), AddressChars (h @ [0])])"

text \<open>A message of the other type is an error of the program.\<close>

definition recv_size :: "int \<Rightarrow> (int \<Rightarrow> address_msg list) \<Rightarrow> (int \<times> (int \<Rightarrow> address_msg list)) result" where
  "recv_size rank mb =
     bindR (MPI_Recv rank mb) (\<lambda>(msg, mb).
     case msg of AddressSize n \<Rightarrow> Inr (n, mb) | AddressChars cs \<Rightarrow> Inl TypeConfusion)"

definition recv_chars :: "int \<Rightarrow> (int \<Rightarrow> address_msg list) \<Rightarrow> (bytes \<times> (int \<Rightarrow> address_msg list)) result" where
  "recv_chars rank mb =
     bindR (MPI_Recv rank mb) (\<lambda>(msg, mb).
     case msg of AddressChars cs \<Rightarrow> Inr (cs, mb) | AddressSize n \<Rightarrow> Inl TypeConfusion)"

fun collect_addresses ::
  "int list \<Rightarrow> (int \<rightharpoonup> int) \<Rightarrow> (int \<Rightarrow> address_msg list) \<Rightarrow> bytes list \<Rightarrow> bool \<Rightarrow> (bytes list \<times> bool) result" where
  "collect_addresses [] m mb ips success = Inr (ips, success)"
| "collect_addresses (sid # sids) m mb ips success =
     (let (rank, m) = rank_of m sid in
      bindR (recv_size rank mb) (\<lambda>(ip_address_size, mb).
      if ip_address_size = -1 then collect_addresses sids m mb ips False
      else
        bindR (recv_chars rank mb) (\<lambda>(ip_address, mb).
        collect_addresses sids m mb (ips @ [takeWhile (\<lambda>b. b \<noteq> 0) ip_address]) success)))"

text \<open>\<^verbatim>\<open>proxy_ip_address_file << ip_address << std::endl\<close>: the characters of the array up to its
  zero byte, if it was ever written.\<close>

definition write_address :: "bytes option \<Rightarrow> bytes result" where
  "write_address ip_address =
     (case ip_address of None \<Rightarrow> Inl Indeterminate | Some h \<Rightarrow> Inr (takeWhile (\<lambda>b. b \<noteq> 0) h @ [10]))"

text \<open>\<open>lookups\<close> is what \<^verbatim>\<open>GetInfinibandIp\<close> gives on each rank. The proxy does not look at its
  result: its own address only goes to a file. Whether the addresses of the others were found, and
  the launchers.\<close>

definition ResolveIpAddresses ::
  "(int \<times> bytes option) list \<Rightarrow> 'd launcher list \<Rightarrow> (bool \<times> 'd launcher list) result" where
  "ResolveIpAddresses lookups ls =
     (let proxy = proxy_rank (hd ls) in
      bindR (write_address (snd (lookups ! nat proxy))) (\<lambda>line.
      bindR (collect_addresses (map int [1..<length ls]) (id_to_rank (ls ! nat proxy))
               (mailbox proxy (\<lambda>l i. address_msgs (found (lookups ! i))) ls)
               (ip_addresses (ls ! nat proxy)) True) (\<lambda>(ips, success).
      Inr (success, ls[nat proxy := (ls ! nat proxy)\<lparr>ip_addresses := ips, address_file := Some line\<rparr>]))))"

section \<open>The whole launch\<close>

text \<open>Either every process exits with a failure, or they all go on.\<close>

datatype 'd launch = ExitFailure | Launched "'d launcher list"

fun get_shard_ids :: "'d rocksdb \<Rightarrow> 'd launcher list \<Rightarrow> 'd launcher list result" where
  "get_shard_ids ops [] = Inr []"
| "get_shard_ids ops (l # ls) =
     bindR (ServerLauncher_GetShardId ops l) (\<lambda>l.
     bindR (get_shard_ids ops ls) (\<lambda>ls. Inr (l # ls)))"

definition InitShardingConfig ::
  "'d rocksdb \<Rightarrow> (int \<times> bytes option) list \<Rightarrow> 'd launcher list \<Rightarrow> 'd launch result" where
  "InitShardingConfig ops lookups ls =
     bindR (get_shard_ids ops ls) (\<lambda>ls.
     bindR (ShakeHands ops ls) (\<lambda>ls.
     if proxy_rank (hd ls) = -1 then Inr ExitFailure
     else
       bindR (ResolveIpAddresses lookups ls) (\<lambda>(success, ls).
       if \<not> success then Inr ExitFailure else Inr (Launched ls))))"

text \<open>\<^verbatim>\<open>Run\<close>: which server a process becomes, a proxy of the addresses it got or the server
  of a shard.\<close>

datatype role = ProxyMain "bytes list" | ShardMain

definition ServerLauncher_Run :: "'d launcher \<Rightarrow> role" where
  "ServerLauncher_Run l = (if shard_id l = 0 then ProxyMain (ip_addresses l) else ShardMain)"

section \<open>The handshake succeeds\<close>

lemma collect_ids_keeps:
  assumes "distinct ids" and "0 \<notin> set ids" and "-1 \<notin> set ids" and "set ids \<inter> dom m = {}"
  shows "fst (collect_ids rank ids proxy m) = proxy \<and>
    (\<forall>k < length ids. snd (collect_ids rank ids proxy m) (ids ! k) = Some (rank + int k)) \<and>
    (\<forall>x. x \<notin> set ids \<longrightarrow> snd (collect_ids rank ids proxy m) x = m x)"
  using assms
proof (induction ids arbitrary: rank m)
  case (Cons i ids)
  let ?m = "m(i \<mapsto> rank)"
  have IH: "fst (collect_ids (rank + 1) ids proxy ?m) = proxy \<and>
      (\<forall>k < length ids. snd (collect_ids (rank + 1) ids proxy ?m) (ids ! k) = Some (rank + 1 + int k)) \<and>
      (\<forall>x. x \<notin> set ids \<longrightarrow> snd (collect_ids (rank + 1) ids proxy ?m) x = ?m x)"
    using Cons.prems by (intro Cons.IH) (auto split: if_splits)
  have step: "collect_ids rank (i # ids) proxy m = collect_ids (rank + 1) ids proxy ?m"
    using Cons.prems by auto
  show ?case
    unfolding step using IH Cons.prems by (auto simp: nth_Cons' algebra_simps of_nat_diff)
qed simp

lemma other_mailboxes:
  assumes "\<forall>sid \<in> set sids. \<exists>r. m sid = Some r \<and> mb r = msgs r" and "Some r \<notin> m ` set sids"
  shows "\<forall>sid \<in> set sids. \<exists>r'. m sid = Some r' \<and> (mb(r := xs)) r' = msgs r'"
proof
  fix sid
  assume sid: "sid \<in> set sids"
  then obtain r' where r': "m sid = Some r'" "mb r' = msgs r'" using assms(1) by blast
  then have "r' \<noteq> r" using assms(2) sid by (metis imageI)
  then show "\<exists>r'. m sid = Some r' \<and> (mb(r := xs)) r' = msgs r'" using r' by simp
qed

lemma collect_saves_all:
  assumes "\<forall>sid \<in> set sids. \<exists>r. m sid = Some r \<and> mb r = [v r]"
    and "distinct (map m sids)"
  shows "collect_saves sids m mb acc = Inr (acc \<and> (\<forall>sid \<in> set sids. v (the (m sid))), m)"
  using assms
proof (induction sids arbitrary: mb acc)
  case (Cons sid sids)
  then obtain r where r: "m sid = Some r" "mb r = [v r]" by auto
  have "collect_saves sids m (mb(r := [])) (v r \<and> acc) =
      Inr ((v r \<and> acc) \<and> (\<forall>sid \<in> set sids. v (the (m sid))), m)"
    using Cons.prems r by (intro Cons.IH other_mailboxes) auto
  then show ?case using r by (auto simp: rank_of_def MPI_Recv_def)
qed simp

lemma collect_addresses_all:
  assumes "\<forall>sid \<in> set sids. \<exists>r. m sid = Some r \<and> mb r = address_msgs (h r)"
    and "distinct (map m sids)"
    and "\<forall>sid \<in> set sids. \<forall>x. h (the (m sid)) = Some x \<longrightarrow> 0 \<notin> set x"
  shows "collect_addresses sids m mb ips success = Inr
    (ips @ map the (filter (\<lambda>x. x \<noteq> None) (map (\<lambda>sid. h (the (m sid))) sids)),
     success \<and> (\<forall>sid \<in> set sids. h (the (m sid)) \<noteq> None))"
  using assms
proof (induction sids arbitrary: mb ips success)
  case (Cons sid sids)
  then obtain r where r: "m sid = Some r" "mb r = address_msgs (h r)" by auto
  have IH: "collect_addresses sids m (mb(r := xs)) ips' success2 = Inr
      (ips' @ map the (filter (\<lambda>x. x \<noteq> None) (map (\<lambda>sid. h (the (m sid))) sids)),
       success2 \<and> (\<forall>sid \<in> set sids. h (the (m sid)) \<noteq> None))" for xs ips' success2
    using Cons.prems r by (intro Cons.IH other_mailboxes) auto
  show ?case
  proof (cases "h r")
    case None
    then show ?thesis
      using r IH by (simp add: rank_of_def recv_size_def MPI_Recv_def address_msgs_def)
  next
    case (Some x)
    then have "takeWhile (\<lambda>b. b \<noteq> 0) (x @ [0]) = x"
      using Cons.prems(3) r by (auto simp: takeWhile_append)
    then show ?thesis
      using r IH Some by (simp add: rank_of_def recv_size_def recv_chars_def MPI_Recv_def address_msgs_def)
  qed
qed simp

lemma collect_addresses_found:
  assumes "\<forall>sid \<in> set sids. \<exists>r. m sid = Some r \<and> mb r = address_msgs (Some (a r))"
    and "distinct (map m sids)" and "\<forall>sid \<in> set sids. 0 \<notin> set (a (the (m sid)))"
  shows "collect_addresses sids m mb ips True = Inr (ips @ map (\<lambda>sid. a (the (m sid))) sids, True)"
  using collect_addresses_all [of sids m mb "\<lambda>r. Some (a r)" ips True] assms by (simp add: comp_def)

text \<open>The launchers once they have their ids: the ranks are the positions, every store is open, and
  the ids are those of the ranks, in any order, so that \<open>rank_at\<close> is the inverse of the ids.\<close>

definition numbered :: "'d launcher list \<Rightarrow> bool" where
  "numbered ls \<longleftrightarrow> ls \<noteq> [] \<and> distinct (map shard_id ls) \<and>
     set (map shard_id ls) = int ` {..<length ls} \<and>
     (\<forall>k < length ls. world_rank (ls ! k) = int k \<and> db (ls ! k) \<noteq> None)"

definition saved_ok :: "'d rocksdb \<Rightarrow> 'd launcher \<Rightarrow> bool" where
  "saved_ok ops l = rs_ok (fst (db_put ops (the (db l)) shard_id_key (to_string (nat (world_rank l)))))"

definition saved :: "'d rocksdb \<Rightarrow> 'd launcher \<Rightarrow> 'd launcher" where
  "saved ops l =
     l\<lparr>db := Some (snd (db_put ops (the (db l)) shard_id_key (to_string (nat (world_rank l)))))\<rparr>"

lemma save_ids_eq:
  "\<forall>l \<in> set ls. db l \<noteq> None \<Longrightarrow> save_ids ops ls = Inr (map (saved_ok ops) ls, map (saved ops) ls)"
proof (induction ls)
  case (Cons l ls)
  then have "save_id ops l = Inr (saved_ok ops l, saved ops l)"
    by (auto simp: save_id_def saved_ok_def saved_def split: prod.splits)
  then show ?case using Cons by simp
qed simp

lemma saved_fields [simp]:
  "saved_ok ops (l\<lparr>proxy_rank := p, id_to_rank := m\<rparr>) = saved_ok ops l"
  "saved_ok ops (l\<lparr>proxy_rank := p\<rparr>) = saved_ok ops l"
  "shard_id (saved ops l) = shard_id l" "world_rank (saved ops l) = world_rank l"
  "id_to_rank (saved ops l) = id_to_rank l" "ip_addresses (saved ops l) = ip_addresses l"
  "proxy_rank (saved ops l) = proxy_rank l"
  by (simp_all add: saved_ok_def saved_def)

lemma numbered_tail:
  assumes "numbered ls" and "shard_id (hd ls) = 0"
  shows "distinct (map shard_id (tl ls))" and "0 \<notin> set (map shard_id (tl ls))"
    and "-1 \<notin> set (map shard_id (tl ls))"
proof -
  obtain l rest where ls: "ls = l # rest" using assms(1) by (cases ls) (auto simp: numbered_def)
  have "0 \<notin> shard_id ` set rest" "distinct (map shard_id rest)"
    using assms ls by (auto simp: numbered_def)
  moreover have "-1 \<notin> shard_id ` set rest"
  proof
    assume "-1 \<in> shard_id ` set rest"
    then have "(-1 :: int) \<in> int ` {..<length ls}" using assms(1) ls by (auto simp: numbered_def)
    then show False by auto
  qed
  ultimately show "distinct (map shard_id (tl ls))" "0 \<notin> set (map shard_id (tl ls))"
      "-1 \<notin> set (map shard_id (tl ls))"
    using ls by simp_all
qed

text \<open>The table that rank 0 builds is the inverse of the ids.\<close>

lemma collected_table:
  assumes "numbered ls" and "shard_id (hd ls) = 0"
  shows "\<exists>m. collect_ids 1 (map shard_id (tl ls)) 0 [0 \<mapsto> 0] = (0, m) \<and>
    (\<forall>k < length ls. m (shard_id (ls ! k)) = Some (int k))"
proof -
  obtain l rest where ls: "ls = l # rest" using assms(1) by (cases ls) (auto simp: numbered_def)
  note keeps = collect_ids_keeps [OF numbered_tail [OF assms], of "[0 \<mapsto> 0]" 1 0]
  obtain p m where c: "collect_ids 1 (map shard_id (tl ls)) 0 [0 \<mapsto> 0] = (p, m)" by fastforce
  have "m (shard_id (ls ! k)) = Some (int k)" if "k < length ls" for k
    using keeps numbered_tail(2) [OF assms] that assms(2) c ls by (cases k) auto
  then show ?thesis using keeps numbered_tail(2) [OF assms] c by auto
qed

lemma table_inverse:
  assumes "numbered ls" and "shard_id (hd ls) = 0"
    and table: "\<forall>k < length ls. m (shard_id (ls ! k)) = Some (int k)"
  shows "\<forall>sid \<in> set (map int [1..<length ls]).
      \<exists>k. m sid = Some (int k) \<and> 0 < k \<and> k < length ls \<and> shard_id (ls ! k) = sid"
    and "distinct (map m (map int [1..<length ls]))"
proof -
  have each: "\<exists>k. m sid = Some (int k) \<and> 0 < k \<and> k < length ls \<and> shard_id (ls ! k) = sid"
    if "sid \<in> set (map int [1..<length ls])" for sid
  proof -
    from that have sid: "sid \<in> int ` {..<length ls}" "sid \<noteq> 0" by auto
    then have "sid \<in> set (map shard_id ls)" using assms(1) by (simp add: numbered_def)
    then obtain k where k: "k < length ls" "shard_id (ls ! k) = sid" by (auto simp: in_set_conv_nth)
    moreover have "k \<noteq> 0" using k sid(2) assms(2) by (cases ls; cases k) auto
    ultimately show ?thesis using table by auto
  qed
  then show "\<forall>sid \<in> set (map int [1..<length ls]).
      \<exists>k. m sid = Some (int k) \<and> 0 < k \<and> k < length ls \<and> shard_id (ls ! k) = sid" by blast
  have "inj_on m (set (map int [1..<length ls]))"
  proof (rule inj_onI)
    fix x y assume "x \<in> set (map int [1..<length ls])" "y \<in> set (map int [1..<length ls])" "m x = m y"
    then show "x = y" using each [of x] each [of y] by auto
  qed
  then show "distinct (map m (map int [1..<length ls]))"
    by (simp add: distinct_map inj_on_def)
qed

text \<open>Every rank but 0 holds a shard between 1 and the number of shards, and the table finds it.\<close>

lemma shard_of_rank:
  assumes "numbered ls" and "shard_id (hd ls) = 0"
    and table: "\<forall>k < length ls. m (shard_id (ls ! k)) = Some (int k)" and k: "0 < k" "k < length ls"
  obtains j where "shard_id (ls ! k) = int j" and "0 < j" and "j < length ls" and "m (int j) = Some (int k)"
proof -
  have "shard_id (ls ! 0) = 0" using assms(2) k by (cases ls) auto
  then have "m 0 = Some 0" using table k by force
  moreover have "m (shard_id (ls ! k)) = Some (int k)" using table k by simp
  ultimately have "shard_id (ls ! k) \<noteq> 0" using k by auto
  moreover have "shard_id (ls ! k) \<in> int ` {..<length ls}"
    using assms(1) nth_mem [OF k(2)] unfolding numbered_def by (metis image_eqI set_map)
  ultimately show thesis using that table k by auto
qed

lemma every_rank:
  assumes "numbered ls" and "shard_id (hd ls) = 0"
    and table: "\<forall>k < length ls. m (shard_id (ls ! k)) = Some (int k)"
  shows "P 0 \<and> (\<forall>sid \<in> set (map int [1..<length ls]). P (nat (the (m sid)))) \<longleftrightarrow> (\<forall>k < length ls. P k)"
    (is "?lhs \<longleftrightarrow> _")
proof
  assume lhs: ?lhs
  have "P k" if k: "k < length ls" for k
  proof (cases "k = 0")
    case False
    from shard_of_rank [OF assms _ k] False obtain j where "0 < j" "j < length ls" "m (int j) = Some (int k)"
      by blast
    moreover from this have "int j \<in> set (map int [1..<length ls])" by simp
    ultimately show ?thesis using lhs by (metis nat_int option.sel)
  qed (use lhs in simp)
  then show "\<forall>k < length ls. P k" by blast
next
  assume "\<forall>k < length ls. P k"
  then show ?lhs using table_inverse(1) [OF assms] assms(1) by (fastforce simp: numbered_def)
qed

text \<open>The launchers after a handshake in which rank 0 has id 0.\<close>

definition shaken :: "'d rocksdb \<Rightarrow> (int \<rightharpoonup> int) \<Rightarrow> 'd launcher list \<Rightarrow> 'd launcher list" where
  "shaken ops m ls =
     (let all_saved = (\<forall>l \<in> set ls. saved_ok ops l) in
      map (\<lambda>l. (saved ops l)\<lparr>proxy_rank := if all_saved then 0 else -1\<rparr>)
        (ls[0 := (ls ! 0)\<lparr>id_to_rank := m\<rparr>]))"

lemma saved_commutes:
  "(saved ops (l\<lparr>proxy_rank := p\<rparr>))\<lparr>proxy_rank := q\<rparr> = (saved ops l)\<lparr>proxy_rank := q\<rparr>"
  "(saved ops (l\<lparr>proxy_rank := p, id_to_rank := m\<rparr>))\<lparr>proxy_rank := q\<rparr> =
   (saved ops (l\<lparr>id_to_rank := m\<rparr>))\<lparr>proxy_rank := q\<rparr>"
  by (simp_all add: saved_def)

lemma ShakeHands_shaken:
  assumes num: "numbered ls" and zero: "shard_id (hd ls) = 0"
  shows "\<exists>m. (\<forall>k < length ls. m (shard_id (ls ! k)) = Some (int k)) \<and>
    ShakeHands ops ls = Inr (shaken ops m ls)"
proof -
  obtain m where m: "collect_ids 1 (map shard_id (tl ls)) 0 [0 \<mapsto> 0] = (0, m)"
      and table: "\<forall>k < length ls. m (shard_id (ls ! k)) = Some (int k)"
    using collected_table [OF assms] by blast
  obtain l rest where ls: "ls = l # rest" using num by (cases ls) (auto simp: numbered_def)
  let ?ls = "map (\<lambda>l. l\<lparr>proxy_rank := 0\<rparr>) ls" and ?sids = "map int [1..<length ls]"
  let ?ls1 = "?ls[0 := (?ls ! 0)\<lparr>id_to_rank := m\<rparr>]" and ?oks = "map (saved_ok ops) ls"
  let ?mb = "mailbox 0 (\<lambda>l i. [?oks ! i]) (map (saved ops) ?ls1)"
  have "\<forall>x \<in> set ls. db x \<noteq> None" using num by (auto simp: numbered_def in_set_conv_nth)
  then have "\<forall>x \<in> set ?ls1. db x \<noteq> None" by (auto simp: ls)
  then have saves: "save_ids ops ?ls1 = Inr (?oks, map (saved ops) ?ls1)"
    by (subst save_ids_eq) (simp_all add: ls)
  note inv = table_inverse [OF assms table]
  have "\<forall>sid \<in> set ?sids. \<exists>r. m sid = Some r \<and> ?mb r = [?oks ! nat r]"
    using inv(1) by (fastforce simp: mailbox_def)
  then have "collect_saves ?sids m ?mb (?oks ! 0) =
      Inr (?oks ! 0 \<and> (\<forall>sid \<in> set ?sids. ?oks ! nat (the (m sid))), m)"
    using inv(2) by (rule collect_saves_all)
  moreover have "(\<forall>k < length ls. ?oks ! k) \<longleftrightarrow> (\<forall>x \<in> set ls. saved_ok ops x)"
    by (simp add: all_set_conv_all_nth)
  ultimately have "collect_saves ?sids m ?mb (?oks ! 0) = Inr (\<forall>x \<in> set ls. saved_ok ops x, m)"
    using every_rank [OF assms table, of "(!) ?oks"] by simp
  then have "ShakeHands ops ls = Inr (map (\<lambda>l. l\<lparr>proxy_rank := if \<forall>x \<in> set ls. saved_ok ops x then 0 else -1\<rparr>)
      (map (saved ops) ?ls1))"
    using m zero saves by (simp add: ShakeHands_def ls saved_def)
  also have "\<dots> = Inr (shaken ops m ls)"
    by (simp add: shaken_def ls saved_commutes)
  finally show ?thesis using table by blast
qed

lemma length_shaken [simp]: "length (shaken ops m ls) = length ls"
  by (simp add: shaken_def Let_def)

lemma shaken_nth:
  assumes "k < length ls" and "\<forall>l \<in> set ls. saved_ok ops l"
  shows "shaken ops m ls ! k =
    (saved ops (if k = 0 then (ls ! 0)\<lparr>id_to_rank := m\<rparr> else ls ! k))\<lparr>proxy_rank := 0\<rparr>"
  using assms by (cases "k = 0") (simp_all add: shaken_def nth_list_update)

text \<open>The lookup that finds an address.\<close>

definition infiniband_at :: "bytes \<Rightarrow> int \<times> bytes option" where
  "infiniband_at a = (0, Some a)"

lemma found_at [simp]: "found (infiniband_at a) = Some a"
  by (simp add: found_def infiniband_at_def)

lemma ResolveIpAddresses_shaken:
  assumes num: "numbered ls" and zero: "shard_id (hd ls) = 0"
    and table: "\<forall>k < length ls. m (shard_id (ls ! k)) = Some (int k)"
    and ok: "\<forall>l \<in> set ls. saved_ok ops l" and ips: "ip_addresses (hd ls) = []"
    and addrs: "length addrs = length ls" "\<forall>a \<in> set addrs. 0 \<notin> set a"
  shows "ResolveIpAddresses (map infiniband_at addrs) (shaken ops m ls) = Inr (True, (shaken ops m ls)
    [0 := (shaken ops m ls ! 0)
       \<lparr>ip_addresses := map (\<lambda>sid. addrs ! nat (the (m sid))) (map int [1..<length ls]),
        address_file := Some (addrs ! 0 @ [10])\<rparr>])"
proof -
  note inv = table_inverse [OF num zero table]
  have ne: "ls \<noteq> []" using num by (simp add: numbered_def)
  let ?sh = "shaken ops m ls" and ?sids = "map int [1..<length ls]" and ?lookups = "map infiniband_at addrs"
  let ?mb = "mailbox 0 (\<lambda>l i. address_msgs (found (?lookups ! i))) ?sh"
  have first: "?sh ! 0 = (saved ops ((ls ! 0)\<lparr>id_to_rank := m\<rparr>))\<lparr>proxy_rank := 0\<rparr>"
    using shaken_nth [of 0 ls ops m] ok ne by simp
  have hd_sh: "hd ?sh = ?sh ! 0" using ne by (intro hd_conv_nth) (metis length_shaken length_0_conv)
  have "\<forall>sid \<in> set ?sids. \<exists>r. m sid = Some r \<and> ?mb r = address_msgs (Some (addrs ! nat r))"
    using inv(1) addrs(1) by (fastforce simp: mailbox_def)
  moreover have "\<forall>sid \<in> set ?sids. 0 \<notin> set (addrs ! nat (the (m sid)))"
    using inv(1) addrs by fastforce
  ultimately have "collect_addresses ?sids m ?mb [] True = Inr (map (\<lambda>sid. addrs ! nat (the (m sid))) ?sids, True)"
    using collect_addresses_found [OF _ inv(2), of ?mb "\<lambda>r. addrs ! nat r" "[]"] by simp
  moreover have "write_address (snd (?lookups ! 0)) = Inr (addrs ! 0 @ [10])"
    using addrs ne by (cases addrs) (auto simp: write_address_def infiniband_at_def takeWhile_eq_all_conv)
  moreover have "ip_addresses (?sh ! 0) = []" using first ips ne by (simp add: hd_conv_nth)
  ultimately show ?thesis
    using first by (simp add: ResolveIpAddresses_def hd_sh)
qed

lemma launch_roles:
  assumes "get_shard_ids ops ls0 = Inr ls" and "numbered ls" and "shard_id (hd ls) = 0"
    and "\<forall>l \<in> set ls. saved_ok ops l" and "ip_addresses (hd ls) = []"
    and "length addrs = length ls" and "\<forall>a \<in> set addrs. 0 \<notin> set a"
  shows "\<exists>ls2 ips. InitShardingConfig ops (map infiniband_at addrs) ls0 = Inr (Launched ls2) \<and> length ls2 = length ls \<and>
    ServerLauncher_Run (ls2 ! 0) = ProxyMain ips \<and> length ips = length ls - 1 \<and>
    address_file (ls2 ! 0) = Some (addrs ! 0 @ [10]) \<and>
    (\<forall>k < length ls. db (ls2 ! k) = db (saved ops (ls ! k))) \<and>
    (\<forall>k. 0 < k \<and> k < length ls \<longrightarrow> ServerLauncher_Run (ls2 ! k) = ShardMain \<and>
       ips ! nat (shard_id (ls ! k) - 1) = addrs ! k)"
proof -
  obtain m where table: "\<forall>k < length ls. m (shard_id (ls ! k)) = Some (int k)"
      and shake: "ShakeHands ops ls = Inr (shaken ops m ls)"
    using ShakeHands_shaken [OF assms(2,3), of ops] by blast
  have ne: "ls \<noteq> []" using assms(2) by (simp add: numbered_def)
  let ?sh = "shaken ops m ls"
  let ?ips = "map (\<lambda>sid. addrs ! nat (the (m sid))) (map int [1..<length ls])"
  let ?ls2 = "?sh[0 := (?sh ! 0)\<lparr>ip_addresses := ?ips, address_file := Some (addrs ! 0 @ [10])\<rparr>]"
  have nth: "?sh ! k = (saved ops (if k = 0 then (ls ! 0)\<lparr>id_to_rank := m\<rparr> else ls ! k))\<lparr>proxy_rank := 0\<rparr>"
    if "k < length ls" for k using shaken_nth [OF that assms(4)] .
  have "hd ?sh = ?sh ! 0" using ne by (intro hd_conv_nth) (metis length_shaken length_0_conv)
  then have "proxy_rank (hd ?sh) = 0" using nth [of 0] ne by simp
  then have run: "InitShardingConfig ops (map infiniband_at addrs) ls0 = Inr (Launched ?ls2)"
    using assms(1) shake ResolveIpAddresses_shaken [OF assms(2,3) table assms(4-7)]
    by (simp add: InitShardingConfig_def)
  have zero: "shard_id (ls ! 0) = 0" using assms(3) ne by (simp add: hd_conv_nth)
  have "ServerLauncher_Run (?ls2 ! 0) = ProxyMain ?ips \<and> address_file (?ls2 ! 0) = Some (addrs ! 0 @ [10])"
    using nth [of 0] ne zero by (simp add: ServerLauncher_Run_def)
  moreover have "ServerLauncher_Run (?ls2 ! k) = ShardMain \<and> ?ips ! nat (shard_id (ls ! k) - 1) = addrs ! k"
    if k: "0 < k" "k < length ls" for k
  proof -
    from shard_of_rank [OF assms(2,3) table k] obtain j where
      j: "shard_id (ls ! k) = int j" "0 < j" "j < length ls" "m (int j) = Some (int k)" .
    then show ?thesis
      using nth [OF k(2)] k by (simp add: ServerLauncher_Run_def nat_diff_distrib)
  qed
  moreover have "db (?ls2 ! k) = db (saved ops (ls ! k))" if "k < length ls" for k
    using nth [OF that] ne by (cases "k = 0") (simp_all add: saved_def)
  ultimately show ?thesis
    by (intro exI [of _ ?ls2] exI [of _ ?ips]) (simp add: run)
qed

text \<open>C14: The launch of a cluster, when rank 0 holds shard 0 and the ids are those of the ranks in
  any order, and every save and address lookup succeeds: rank 0 becomes the proxy, every other
  rank a shard server, and the proxy gets the addresses in the order of the shard ids, whatever
  ranks hold them. Its own address is the line in the file that tells the clients.\<close>

theorem launch_makes_proxy:
  assumes "get_shard_ids ops ls0 = Inr ls" and "numbered ls" and "shard_id (hd ls) = 0"
    and "\<forall>l \<in> set ls. saved_ok ops l" and "ip_addresses (hd ls) = []"
    and "length addrs = length ls" and "\<forall>a \<in> set addrs. 0 \<notin> set a"
  shows "\<exists>ls2 ips. InitShardingConfig ops (map infiniband_at addrs) ls0 = Inr (Launched ls2) \<and> length ls2 = length ls \<and>
    ServerLauncher_Run (ls2 ! 0) = ProxyMain ips \<and> length ips = length ls - 1 \<and>
    address_file (ls2 ! 0) = Some (addrs ! 0 @ [10]) \<and>
    (\<forall>k. 0 < k \<and> k < length ls \<longrightarrow> ServerLauncher_Run (ls2 ! k) = ShardMain \<and>
       ips ! nat (shard_id (ls ! k) - 1) = addrs ! k)"
  using launch_roles [OF assms] by blast

text \<open>Whatever the other ranks find, a proxy without an InfiniBand interface prints an array that
  nothing was written to.\<close>

lemma ResolveIpAddresses_no_address:
  "snd (lookups ! nat (proxy_rank (hd ls))) = None \<Longrightarrow> ResolveIpAddresses lookups ls = Inl Indeterminate"
  by (simp add: ResolveIpAddresses_def write_address_def)

text \<open>Three processes on fresh stores.\<close>

definition fresh_launchers :: "mem launcher list" where
  "fresh_launchers = map (\<lambda>r. ServerLauncher_new 3 r (Some [])) [0, 1, 2]"

lemma fresh_shard_ids:
  "get_shard_ids mem_db fresh_launchers =
     Inr (map (\<lambda>r. (ServerLauncher_new 3 r (Some []))\<lparr>shard_id := r\<rparr>) [0, 1, 2])"
  by (simp add: fresh_launchers_def ServerLauncher_GetShardId_def ServerLauncher_new_def mem_db_def
      mem_get_def rocks_not_found_def)

lemma launch_makes_proxy_witness:
  "\<exists>ls2 ips. InitShardingConfig mem_db (map infiniband_at [[49], [50], [51]]) fresh_launchers = Inr (Launched ls2) \<and>
     ServerLauncher_Run (ls2 ! 0) = ProxyMain ips \<and> ips ! 1 = [51] \<and> address_file (ls2 ! 0) = Some [49, 10]"
proof -
  let ?ls = "map (\<lambda>r. (ServerLauncher_new 3 r (Some ([] :: mem)))\<lparr>shard_id := r\<rparr>) [0, 1, 2]"
  have three: "{..<3} = {0, 1, 2 :: nat}" by auto
  have num: "numbered ?ls"
    unfolding numbered_def by (auto simp: three ServerLauncher_new_def less_Suc_eq numeral_3_eq_3)
  have facts: "shard_id (hd ?ls) = 0" "\<forall>l \<in> set ?ls. saved_ok mem_db l" "ip_addresses (hd ?ls) = []"
      "length [[49], [50], [51 :: byte]] = length ?ls" "\<forall>a \<in> set [[49], [50], [51 :: byte]]. 0 \<notin> set a"
    by (simp_all add: saved_ok_def mem_db_def mem_put_def rocks_ok_def ServerLauncher_new_def)
  from launch_makes_proxy [OF fresh_shard_ids num facts] obtain ls2 ips where
    r: "InitShardingConfig mem_db (map infiniband_at [[49], [50], [51]]) fresh_launchers = Inr (Launched ls2)"
      "ServerLauncher_Run (ls2 ! 0) = ProxyMain ips" "address_file (ls2 ! 0) = Some ([[49], [50], [51]] ! 0 @ [10])"
      "\<forall>k. 0 < k \<and> k < length ?ls \<longrightarrow> ServerLauncher_Run (ls2 ! k) = ShardMain \<and>
         ips ! nat (shard_id (?ls ! k) - 1) = [[49], [50], [51]] ! k"
    by blast
  from r(4) [rule_format, of 2] r(1-3) show ?thesis by (auto simp: ServerLauncher_new_def)
qed

section \<open>A proxy on another rank\<close>

lemma collect_ids_no_zero:
  "0 \<notin> set ids \<Longrightarrow> -1 \<notin> set ids \<Longrightarrow> fst (collect_ids rank ids proxy m) = proxy"
  by (induction ids arbitrary: rank m) auto

lemma collect_ids_zero:
  "0 \<notin> set a \<Longrightarrow> 0 \<notin> set b \<Longrightarrow> -1 \<notin> set (a @ b) \<Longrightarrow> proxy \<noteq> -1 \<Longrightarrow>
     fst (collect_ids rank (a @ 0 # b) proxy m) = rank + int (length a)"
  by (induction a arbitrary: rank m) (auto simp: collect_ids_no_zero)

text \<open>C36: Only rank 0 learns which rank has which shard, but the proxy uses the table. When the ids
  saved in the stores put shard 0 on another rank, and there are at least three processes, the
  proxy asks rank 0 for every shard's result: the handshake never ends, whatever the stores
  answer.\<close>

theorem launch_moved_proxy_blocks:
  assumes "numbered ls" and "0 < p" and "p < length ls" and "shard_id (ls ! p) = 0"
    and "3 \<le> length ls" and "\<forall>l \<in> set ls. id_to_rank l = Map.empty"
  shows "ShakeHands ops ls = Inl Blocked"
proof -
  obtain l rest where ls: "ls = l # rest" using assms(3) by (cases ls) auto
  define ids where "ids = map shard_id rest"
  have "ids ! (p - 1) = 0" "p - 1 < length ids" using assms(2-4) by (auto simp: ids_def ls nth_Cons')
  then obtain a b where ab: "ids = a @ 0 # b" "length a = p - 1"
    by (metis id_take_nth_drop length_take min.absorb4)
  have dist: "distinct (shard_id l # ids)" "set (shard_id l # ids) = int ` {..<length ls}"
    using assms(1) by (simp_all add: numbered_def ls ids_def)
  then have neg: "-1 \<notin> set (shard_id l # ids)" by auto
  then have "fst (collect_ids 1 ids 0 m) = int p" for m
    using dist(1) ab assms(2) by (auto simp: collect_ids_zero)
  then obtain m where c: "collect_ids 1 ids 0 [shard_id l \<mapsto> 0] = (int p, m)"
    by (metis prod.collapse)
  let ?ls = "map (\<lambda>l. l\<lparr>proxy_rank := int p\<rparr>) ls"
  let ?ls1 = "?ls[0 := (?ls ! 0)\<lparr>id_to_rank := m\<rparr>]"
  have "\<forall>x \<in> set ls. db x \<noteq> None" using assms(1) by (auto simp: numbered_def in_set_conv_nth)
  then have saves: "save_ids ops ?ls1 = Inr (map (saved_ok ops) ?ls1, map (saved ops) ?ls1)"
    by (intro save_ids_eq) (auto simp: ls)
  have sids: "map int [1..<length ls] = 1 # 2 # map int [3..<length ls]"
    using assms(5) by (simp add: upt_conv_Cons numeral_2_eq_2 numeral_3_eq_3)
  have empty: "id_to_rank (map (saved ops) ?ls1 ! p) = Map.empty"
    using assms(2,3,6) by (simp add: ls)
  let ?mb = "mailbox (int p) (\<lambda>l i. [map (saved_ok ops) ?ls1 ! i]) (map (saved ops) ?ls1)"
  have "?mb 0 = [map (saved_ok ops) ?ls1 ! 0]" using assms(2) by (simp add: mailbox_def ls)
  then have "collect_saves (map int [1..<length ls]) Map.empty ?mb ok0 = Inl Blocked" for ok0
    unfolding sids by (simp add: rank_of_def MPI_Recv_def)
  then show ?thesis
    using c saves empty neg assms(2) by (simp add: ShakeHands_def ls ids_def)
qed

lemma launch_moved_proxy_blocks_witness:
  "ShakeHands mem_db [(ServerLauncher_new 3 0 (Some []))\<lparr>shard_id := 1\<rparr>,
     (ServerLauncher_new 3 1 (Some []))\<lparr>shard_id := 0\<rparr>,
     (ServerLauncher_new 3 2 (Some []))\<lparr>shard_id := 2\<rparr>] = Inl Blocked"
proof (rule launch_moved_proxy_blocks [where p = 1])
  have "{..<3} = {0, 1, 2 :: nat}" by auto
  then show "numbered [(ServerLauncher_new 3 0 (Some ([] :: mem)))\<lparr>shard_id := 1\<rparr>,
      (ServerLauncher_new 3 1 (Some []))\<lparr>shard_id := 0\<rparr>,
      (ServerLauncher_new 3 2 (Some []))\<lparr>shard_id := 2\<rparr>]"
    unfolding numbered_def by (auto simp: ServerLauncher_new_def less_Suc_eq numeral_3_eq_3)
qed (simp_all add: ServerLauncher_new_def)

section \<open>What is saved\<close>

lemma stoi_to_string:
  assumes "n < 2147483648"
  shows "stoi (to_string n) = Inr (int n)"
proof -
  obtain b bs where b: "to_string n = b # bs" "is_digit b" using to_string_head by blast
  then have "split_sign (dropWhile is_space (to_string n)) = (False, to_string n)"
    using digit_no_space [OF b(2)] by (simp add: split_sign_def)
  then show ?thesis
    using assms b digits_value_to_string [of n "[]"] by (simp add: stoi_def)
qed

text \<open>The id that survives a launch is the rank, not the shard: when a process has saved, the next
  launch on its store, at any rank, reads the rank it had as its shard id, or fails to read.
  So a shard whose process has moved to another rank changes its id on the launch after.\<close>

lemma saved_id_is_rank:
  assumes "rocksdb_contract ops I M" and "I d" and "db l = Some d"
    and "0 \<le> world_rank l" and "world_rank l < 2147483648"
    and "save_id ops l = Inr (True, l2)" and "db l3 = db l2"
    and "ServerLauncher_GetShardId ops l3 = Inr l4"
  shows "shard_id l4 = world_rank l \<or> shard_id l4 = -1"
proof -
  let ?v = "to_string (nat (world_rank l))"
  let ?d2 = "snd (db_put ops d shard_id_key ?v)"
  have put: "rs_ok (fst (db_put ops d shard_id_key ?v))" "db l3 = Some ?d2"
    using assms(3,6,7) by (auto simp: save_id_def split: prod.splits)
  note p = contract_put [OF assms(1,2), of shard_id_key ?v]
  have M: "M ?d2 shard_id_key = Some ?v" using p(2) put(1) by simp
  note get = contract_get [OF assms(1) p(1), of shard_id_key]
  have "stoi ?v = Inr (world_rank l)" using stoi_to_string [of "nat (world_rank l)"] assms(4,5) by simp
  then show ?thesis
    using assms(8) put(2) get M
    by (cases "db_get ops ?d2 shard_id_key")
      (auto simp: ServerLauncher_GetShardId_def split: if_splits)
qed

lemma saved_id_is_rank_witness:
  "\<exists>l2 l4. save_id mem_db ((ServerLauncher_new 3 2 (Some []))\<lparr>shard_id := 1\<rparr>) = Inr (True, l2) \<and>
     ServerLauncher_GetShardId mem_db l2 = Inr l4 \<and> (shard_id l4 = 2 \<or> shard_id l4 = -1)"
proof -
  let ?l = "(ServerLauncher_new 3 2 (Some ([] :: mem)))\<lparr>shard_id := 1\<rparr>"
  have save: "save_id mem_db ?l = Inr (True, ?l\<lparr>db := Some [(shard_id_key, to_string 2)]\<rparr>)" (is "_ = Inr (True, ?l2)")
    by (simp add: save_id_def ServerLauncher_new_def mem_db_def mem_put_def rocks_ok_def)
  have get: "ServerLauncher_GetShardId mem_db ?l2 = Inr (?l2\<lparr>shard_id := 2\<rparr>)"
    using stoi_to_string [of 2]
    by (simp add: ServerLauncher_GetShardId_def mem_db_def mem_get_def rocks_ok_def)
  from saved_id_is_rank [OF mem_db_contract mem_good_Nil _ _ _ save refl get] save get
  show ?thesis by (auto simp: ServerLauncher_new_def)
qed

end
