(* ===== verification/Sqpkv_Main.thy ===== *)
theory Sqpkv_Main
  imports Sqpkv_Shard Sqpkv_Launcher Sqpkv_Prefix
begin

text \<open>
  The server program (\<^verbatim>\<open>src/server/main.cc\<close>) on all ranks of a cluster: the processes
  open their stores, agree on their roles, and become the proxy or the server of a shard
  (\<^verbatim>\<open>OpenDb\<close>, \<^verbatim>\<open>ProxyMain\<close>, \<^verbatim>\<open>ShardMain\<close> and \<^verbatim>\<open>Run\<close>
  of \<^verbatim>\<open>src/server/server_launcher.cc\<close>); and how a process ends.
\<close>

section \<open>Opening the stores\<close>

text \<open>The flags, as they are unless the command line sets them.\<close>

definition FLAGS_kv_path :: bytes where
  "FLAGS_kv_path = bytes_of ''/tmp/sqpkv''"

definition FLAGS_port :: int where
  "FLAGS_port = 4242"

text \<open>The name of the file with the proxy's address, whose contents are a field of the launcher.\<close>

definition FLAGS_proxy_hostname :: bytes where
  "FLAGS_proxy_hostname = bytes_of ''/tmp/sqp_proxy''"

text \<open>\<open>flag\<close> is the flag \<^verbatim>\<open>kv_path\<close>.\<close>

definition kv_path :: "bytes \<Rightarrow> int \<Rightarrow> bytes" where
  "kv_path flag rank = flag @ to_string (nat rank)"

text \<open>The options the stores are opened with, but for those that tune RocksDB.\<close>

record db_options =
  create_if_missing :: bool
  extractor :: "slice_transform option"

definition OpenDb_options :: db_options where
  "OpenDb_options = \<lparr>create_if_missing = True, extractor = Some NewTablePrefixTransform\<rparr>"

text \<open>\<open>open_db\<close> is what \<^verbatim>\<open>rocksdb::DB::Open\<close> finds with some options under a path; when it fails it
  leaves a null pointer, as documented.\<close>

definition OpenDb :: "(db_options \<Rightarrow> bytes \<Rightarrow> 'd option) \<Rightarrow> bytes \<Rightarrow> 'd launcher \<Rightarrow> 'd launcher" where
  "OpenDb open_db flag l = l\<lparr>db := open_db OpenDb_options (kv_path flag (world_rank l))\<rparr>"

text \<open>\<^verbatim>\<open>InitShardingConfig\<close> of \<open>n\<close> processes from its first line on; every rank has
  its own file system.\<close>

definition cluster_init ::
  "'d rocksdb \<Rightarrow> (nat \<Rightarrow> db_options \<Rightarrow> bytes \<Rightarrow> 'd option) \<Rightarrow> bytes \<Rightarrow> (int \<times> bytes option) list \<Rightarrow> nat \<Rightarrow> 'd launch result" where
  "cluster_init ops opens flag lookups n =
     InitShardingConfig ops lookups
       (map (\<lambda>r. OpenDb (opens r) flag (ServerLauncher_new (int n) (int r) None)) [0..<n])"

lemma to_string_inject: "to_string m = to_string n \<Longrightarrow> m = n"
  using digits_value_to_string [of m "[]"] digits_value_to_string [of n "[]"] by simp

text \<open>Ranks on one host do not share a store.\<close>

lemma kv_path_inject: "0 \<le> r \<Longrightarrow> 0 \<le> r' \<Longrightarrow> kv_path flag r = kv_path flag r' \<longleftrightarrow> r = r'"
  by (auto simp: kv_path_def dest: to_string_inject)

text \<open>With the default flags no store is where the file of the proxy is.\<close>

lemma kv_path_not_proxy_hostname: "kv_path FLAGS_kv_path r \<noteq> FLAGS_proxy_hostname"
proof
  assume "kv_path FLAGS_kv_path r = FLAGS_proxy_hostname"
  then have "(FLAGS_kv_path @ to_string (nat r)) ! 8 = FLAGS_proxy_hostname ! 8" by (simp add: kv_path_def)
  then show False by (simp add: FLAGS_kv_path_def FLAGS_proxy_hostname_def bytes_of_def nth_append)
qed

section \<open>The roles last\<close>

text \<open>A store that does not fail, and a store that holds no id or the rank of its process.\<close>

definition reliable :: "'d rocksdb \<Rightarrow> ('d \<Rightarrow> bool) \<Rightarrow> ('d \<Rightarrow> bytes \<rightharpoonup> bytes) \<Rightarrow> bool" where
  "reliable ops I M \<longleftrightarrow> (\<forall>d k v. I d \<longrightarrow> rs_ok (fst (db_put ops d k v)) \<and>
     (rs_ok (fst (db_get ops d k)) \<longleftrightarrow> M d k \<noteq> None) \<and>
     (rs_not_found (fst (db_get ops d k)) \<longleftrightarrow> M d k = None))"

definition own_id :: "('d \<Rightarrow> bool) \<Rightarrow> ('d \<Rightarrow> bytes \<rightharpoonup> bytes) \<Rightarrow> nat \<Rightarrow> 'd \<Rightarrow> bool" where
  "own_id I M r d \<longleftrightarrow> I d \<and> M d shard_id_key \<in> {None, Some (to_string r)}"

lemma reliable_mem_db: "reliable mem_db mem_good map_of"
  by (auto simp: reliable_def mem_db_def mem_put_def mem_get_def rocks_ok_def rocks_not_found_def
      split: option.splits)

lemma GetShardId_own:
  assumes "rocksdb_contract ops I M" and "reliable ops I M" and "own_id I M r d" and "r < 2147483648"
    and "db l = Some d" and "world_rank l = int r"
  shows "ServerLauncher_GetShardId ops l = Inr (l\<lparr>shard_id := int r\<rparr>)"
proof -
  have I: "I d" using assms(3) by (simp add: own_id_def)
  have rel: "rs_ok (fst (db_get ops d shard_id_key)) \<longleftrightarrow> M d shard_id_key \<noteq> None"
    "rs_not_found (fst (db_get ops d shard_id_key)) \<longleftrightarrow> M d shard_id_key = None"
    using assms(2) I by (auto simp: reliable_def)
  obtain s v where g: "db_get ops d shard_id_key = (s, v)" by fastforce
  show ?thesis
  proof (cases "M d shard_id_key")
    case None
    then show ?thesis
      using rel assms(5,6) by (simp add: ServerLauncher_GetShardId_def g)
  next
    case (Some w)
    then have "w = to_string r" using assms(3) by (auto simp: own_id_def)
    moreover have "v = w" using contract_get(1) [OF assms(1) I, of shard_id_key] rel(1) Some g by simp
    ultimately show ?thesis
      using rel Some assms(5,6) stoi_to_string [OF assms(4)] by (simp add: ServerLauncher_GetShardId_def g)
  qed
qed

lemma get_shard_ids_map:
  "\<forall>l \<in> set ls. ServerLauncher_GetShardId ops l = Inr (f l) \<Longrightarrow> get_shard_ids ops ls = Inr (map f ls)"
  by (induction ls) simp_all

lemma roles_list:
  assumes "length ls = n" and "0 < n" and "f (ls ! 0) = a" and "\<forall>r. 0 < r \<and> r < n \<longrightarrow> f (ls ! r) = b"
  shows "map f ls = a # replicate (n - 1) b"
  using assms by (intro nth_equalityI) (auto simp: nth_Cons')

text \<open>The launchers of the cluster once they have read their ids.\<close>

definition with_ids :: "nat \<Rightarrow> (nat \<Rightarrow> 'd) \<Rightarrow> 'd launcher list" where
  "with_ids n d = map (\<lambda>r. (ServerLauncher_new (int n) (int r) (Some (d r)))\<lparr>shard_id := int r\<rparr>) [0..<n]"

lemma with_ids_nth [simp]:
  "length (with_ids n d) = n"
  "r < n \<Longrightarrow> with_ids n d ! r = (ServerLauncher_new (int n) (int r) (Some (d r)))\<lparr>shard_id := int r\<rparr>"
  by (simp_all add: with_ids_def)

lemma numbered_with_ids: "0 < n \<Longrightarrow> numbered (with_ids n d)"
  by (auto simp: with_ids_def numbered_def ServerLauncher_new_def distinct_map inj_on_def comp_def lessThan_atLeast0)

lemma hd_with_ids: "0 < n \<Longrightarrow> shard_id (hd (with_ids n d)) = 0 \<and> ip_addresses (hd (with_ids n d)) = []"
  by (simp add: with_ids_def hd_map ServerLauncher_new_def)

lemma cluster_ids:
  assumes "rocksdb_contract ops I M" and "reliable ops I M" and "n < 2147483648"
    and opens: "\<forall>r < n. opens r OpenDb_options (kv_path flag (int r)) = Some (d r) \<and> own_id I M r (d r)"
  shows "get_shard_ids ops (map (\<lambda>r. OpenDb (opens r) flag (ServerLauncher_new (int n) (int r) None)) [0..<n]) =
    Inr (with_ids n d)"
proof -
  let ?l = "\<lambda>r. ServerLauncher_new (int n) (int r) (Some (d r))"
  have opened: "map (\<lambda>r. OpenDb (opens r) flag (ServerLauncher_new (int n) (int r) None)) [0..<n] = map ?l [0..<n]"
    using opens by (intro map_cong refl) (simp add: OpenDb_def, simp add: ServerLauncher_new_def)
  have "\<forall>l \<in> set (map ?l [0..<n]). ServerLauncher_GetShardId ops l = Inr (l\<lparr>shard_id := world_rank l\<rparr>)"
    using opens assms(3) GetShardId_own [OF assms(1,2)] by (auto simp: ServerLauncher_new_def)
  from get_shard_ids_map [OF this] show ?thesis
    unfolding opened by (simp add: with_ids_def ServerLauncher_new_def comp_def)
qed

lemma cluster_roles:
  assumes "rocksdb_contract ops I M" and "reliable ops I M" and "0 < n" and "n < 2147483648"
    and opens: "\<forall>r < n. opens r OpenDb_options (kv_path flag (int r)) = Some (d r) \<and> own_id I M r (d r)"
    and addrs: "length addrs = n" "\<forall>a \<in> set addrs. 0 \<notin> set a"
  shows "\<exists>ls. cluster_init ops opens flag (map infiniband_at addrs) n = Inr (Launched ls) \<and> length ls = n \<and>
    ServerLauncher_Run (ls ! 0) = ProxyMain (tl addrs) \<and>
    (\<forall>r. 0 < r \<and> r < n \<longrightarrow> ServerLauncher_Run (ls ! r) = ShardMain) \<and>
    address_file (ls ! 0) = Some (hd addrs @ [10]) \<and>
    (\<forall>r < n. \<exists>e. db (ls ! r) = Some e \<and> own_id I M r e \<and>
       M e = (M (d r))(shard_id_key \<mapsto> to_string r))"
proof -
  let ?ls = "with_ids n d"
  have I: "I (d r)" if "r < n" for r using opens that by (auto simp: own_id_def)
  have ok: "\<forall>l \<in> set ?ls. saved_ok ops l"
    using I assms(2) by (auto simp: with_ids_def saved_ok_def reliable_def ServerLauncher_new_def)
  have len: "length addrs = length ?ls" using addrs(1) by simp
  note ids = cluster_ids [where opens = opens, OF assms(1,2,4) opens]
  note hd_ids = hd_with_ids [OF assms(3), of d]
  from launch_roles [OF ids numbered_with_ids [OF assms(3)] hd_ids [THEN conjunct1] ok
      hd_ids [THEN conjunct2] len addrs(2)] obtain ls ips where
    run: "InitShardingConfig ops (map infiniband_at addrs) (map (\<lambda>r. OpenDb (opens r) flag
        (ServerLauncher_new (int n) (int r) None)) [0..<n]) = Inr (Launched ls)" "length ls = length ?ls"
      and proxy: "ServerLauncher_Run (ls ! 0) = ProxyMain ips" "length ips = length ?ls - 1"
        "address_file (ls ! 0) = Some (addrs ! 0 @ [10])"
      and dbs: "\<forall>k < length ?ls. db (ls ! k) = db (saved ops (?ls ! k))"
      and shards: "\<forall>k. 0 < k \<and> k < length ?ls \<longrightarrow> ServerLauncher_Run (ls ! k) = ShardMain \<and>
         ips ! nat (shard_id (?ls ! k) - 1) = addrs ! k"
    by (elim exE conjE) (rule that)
  have ips: "ips = tl addrs"
  proof (rule nth_equalityI)
    fix k assume "k < length ips"
    then have "Suc k < n" using proxy(2) by simp
    then show "ips ! k = tl addrs ! k" using shards [rule_format, of "Suc k"] addrs(1) by (simp add: nth_tl)
  qed (use proxy(2) addrs(1) in simp)
  have "\<exists>e. db (ls ! k) = Some e \<and> own_id I M k e \<and> M e = (M (d k))(shard_id_key \<mapsto> to_string k)"
    if k: "k < n" for k
  proof -
    let ?e = "snd (db_put ops (d k) shard_id_key (to_string k))"
    have "db (ls ! k) = Some ?e" using dbs k by (simp add: saved_def ServerLauncher_new_def)
    moreover have "I ?e" "M ?e = (M (d k))(shard_id_key \<mapsto> to_string k)"
      using contract_put [OF assms(1) I [OF k], of shard_id_key "to_string k"] I [OF k] assms(2)
      by (auto simp: reliable_def)
    ultimately show ?thesis by (simp add: own_id_def)
  qed
  moreover have "addrs ! 0 = hd addrs" using addrs(1) assms(3) by (cases addrs) simp_all
  ultimately show ?thesis using run proxy shards ips by (intro exI [of _ ls]) (simp add: cluster_init_def)
qed

text \<open>C13: Who is the proxy survives restarts. When the processes are launched on stores that are new
  or were last used by the same ranks, and nothing fails, rank 0 becomes the proxy of the other
  ranks' addresses, in the order of the ranks, and all others are shards. Each store has changed
  in nothing but its shard id, which is now the rank; and launching again on the stores that are
  left gives every rank the same role and leaves the stores as they are. Each time the file for the
  clients has the proxy's address.\<close>

theorem cluster_roles_last:
  assumes "rocksdb_contract ops I M" and "reliable ops I M" and "0 < n" and "n < 2147483648"
    and "\<forall>r < n. opens r OpenDb_options (kv_path flag (int r)) = Some (d r) \<and> own_id I M r (d r)"
    and "length addrs = n" and "\<forall>a \<in> set addrs. 0 \<notin> set a"
  shows "\<exists>ls. cluster_init ops opens flag (map infiniband_at addrs) n = Inr (Launched ls) \<and>
    map ServerLauncher_Run ls = ProxyMain (tl addrs) # replicate (n - 1) ShardMain \<and>
    address_file (ls ! 0) = Some (hd addrs @ [10]) \<and>
    (\<forall>r < n. \<exists>e. db (ls ! r) = Some e \<and> M e = (M (d r))(shard_id_key \<mapsto> to_string r)) \<and>
    (\<forall>opens2. (\<forall>r < n. opens2 r OpenDb_options (kv_path flag (int r)) = db (ls ! r)) \<longrightarrow>
      (\<exists>ls2. cluster_init ops opens2 flag (map infiniband_at addrs) n = Inr (Launched ls2) \<and>
        map ServerLauncher_Run ls2 = map ServerLauncher_Run ls \<and>
        address_file (ls2 ! 0) = address_file (ls ! 0) \<and>
        (\<forall>r < n. \<exists>e e2. db (ls ! r) = Some e \<and> db (ls2 ! r) = Some e2 \<and> M e2 = M e)))"
proof -
  note launch = cluster_roles [OF assms(1-4) _ assms(6,7)]
  from launch [where d = d and opens = opens, OF assms(5)] obtain ls where
    ls: "cluster_init ops opens flag (map infiniband_at addrs) n = Inr (Launched ls)" "length ls = n"
      "ServerLauncher_Run (ls ! 0) = ProxyMain (tl addrs)"
      "\<forall>r. 0 < r \<and> r < n \<longrightarrow> ServerLauncher_Run (ls ! r) = ShardMain"
      "address_file (ls ! 0) = Some (hd addrs @ [10])"
      "\<forall>r < n. \<exists>e. db (ls ! r) = Some e \<and> own_id I M r e \<and> M e = (M (d r))(shard_id_key \<mapsto> to_string r)"
    by (elim exE conjE) (rule that)
  note roles = roles_list [where f = ServerLauncher_Run, OF ls(2) assms(3) ls(3,4)]
  have again: "\<exists>ls2. cluster_init ops opens2 flag (map infiniband_at addrs) n = Inr (Launched ls2) \<and>
        map ServerLauncher_Run ls2 = map ServerLauncher_Run ls \<and>
        address_file (ls2 ! 0) = address_file (ls ! 0) \<and>
        (\<forall>r < n. \<exists>e e2. db (ls ! r) = Some e \<and> db (ls2 ! r) = Some e2 \<and> M e2 = M e)"
    if opens2: "\<forall>r < n. opens2 r OpenDb_options (kv_path flag (int r)) = db (ls ! r)" for opens2
  proof -
    let ?d = "\<lambda>r. the (db (ls ! r))"
    have "\<forall>r < n. opens2 r OpenDb_options (kv_path flag (int r)) = Some (?d r) \<and> own_id I M r (?d r)"
      using opens2 ls(6) by auto
    from launch [where d = ?d and opens = opens2, OF this] obtain ls2 where
      ls2: "cluster_init ops opens2 flag (map infiniband_at addrs) n = Inr (Launched ls2)" "length ls2 = n"
        "ServerLauncher_Run (ls2 ! 0) = ProxyMain (tl addrs)"
        "\<forall>r. 0 < r \<and> r < n \<longrightarrow> ServerLauncher_Run (ls2 ! r) = ShardMain"
        "address_file (ls2 ! 0) = Some (hd addrs @ [10])"
        "\<forall>r < n. \<exists>e. db (ls2 ! r) = Some e \<and> own_id I M r e \<and> M e = (M (?d r))(shard_id_key \<mapsto> to_string r)"
      by (elim exE conjE) (rule that)
    have "\<exists>e e2. db (ls ! r) = Some e \<and> db (ls2 ! r) = Some e2 \<and> M e2 = M e" if "r < n" for r
      using ls(6) ls2(6) that by (metis fun_upd_same fun_upd_triv fun_upd_upd option.sel)
    then show ?thesis
      using ls2(1,5) ls(5) roles roles_list [where f = ServerLauncher_Run, OF ls2(2) assms(3) ls2(3,4)]
      by (intro exI [of _ ls2]) auto
  qed
  show ?thesis using ls(1,5,6) roles again by (intro exI [of _ ls]) blast
qed

lemma cluster_roles_last_witness:
  "\<exists>ls. cluster_init mem_db (\<lambda>_ _ _. Some []) FLAGS_kv_path (map infiniband_at [[49], [50], [51]]) 3 =
      Inr (Launched ls) \<and>
     map ServerLauncher_Run ls = [ProxyMain [[50], [51]], ShardMain, ShardMain]"
proof -
  have own: "own_id mem_good map_of r []" for r by (simp add: own_id_def)
  have two: "replicate 2 x = [x, x]" for x :: role by (simp add: numeral_2_eq_2)
  show ?thesis
    using own cluster_roles_last [OF mem_db_contract reliable_mem_db, of 3 "\<lambda>_ _ _. Some []"
        FLAGS_kv_path "\<lambda>_. []" "[[49], [50], [51]]"]
    by (auto simp: two)
qed

section \<open>Running a server\<close>

text \<open>What a process meets after the launch: the results of \<^verbatim>\<open>socket\<close>, \<^verbatim>\<open>bind\<close> and
  the calls of \<^verbatim>\<open>accept\<close>, its sockets, and how a proxy's connections to the shards go,
  by client.\<close>

record surroundings =
  socket_rc :: int
  bind_rc :: int
  accepted :: "int list"
  open_sockets :: net
  dials_of :: "int \<Rightarrow> nat \<Rightarrow> bytes \<Rightarrow> int \<Rightarrow> dial"
  dial_errno :: bytes

text \<open>The return value of the main function, with the server and the sockets.\<close>

definition serve ::
  "(int \<Rightarrow> net \<Rightarrow> worker status_or \<times> net) \<Rightarrow> int \<Rightarrow> surroundings \<Rightarrow> (int \<times> server \<times> net) result" where
  "serve create port e =
     (case Server_GetInstance port None of
        None \<Rightarrow> Inl NullDeref
      | Some server \<Rightarrow>
          bindR (Server_Start create (socket_rc e) (bind_rc e) (accepted e) server (open_sockets e))
            (\<lambda>(server, net). Inr (0, server, net)))"

definition ServerLauncher_ProxyMain :: "int \<Rightarrow> surroundings \<Rightarrow> bytes list \<Rightarrow> (int \<times> server \<times> net) result" where
  "ServerLauncher_ProxyMain port e ips =
     serve (ShardingProxyWorkerFactory_CreateWorker (dials_of e) (dial_errno e) ips port) port e"

definition ServerLauncher_ShardMain :: "int \<Rightarrow> surroundings \<Rightarrow> (int \<times> server \<times> net) result" where
  "ServerLauncher_ShardMain port e = serve KvWorkerFactory_CreateWorker port e"

text \<open>\<open>finalized\<close> says whether \<^verbatim>\<open>MPI_Finalize\<close> returns: it is collective, and may wait until
  the other processes of the launch have called it.\<close>

definition MPI_Finalize :: "bool \<Rightarrow> unit result" where
  "MPI_Finalize finalized = (if finalized then Inr () else Inl Blocked)"

definition ServerLauncher_serve ::
  "int \<Rightarrow> surroundings \<Rightarrow> bool \<Rightarrow> 'd launcher \<Rightarrow> (int \<times> server \<times> net) result" where
  "ServerLauncher_serve port e finalized l =
     bindR (case ServerLauncher_Run l of
        ProxyMain ips \<Rightarrow> ServerLauncher_ProxyMain port e ips
      | ShardMain \<Rightarrow> ServerLauncher_ShardMain port e) (\<lambda>(ret_val, server, net).
     bindR (MPI_Finalize finalized) (\<lambda>_. Inr (ret_val, server, net)))"

text \<open>The handler of \<^verbatim>\<open>SIGSEGV\<close> exits; a null dereference raises that signal.\<close>

definition EXIT_FAILURE :: int where
  "EXIT_FAILURE = 1"

definition CrashHandler :: process_end where
  "CrashHandler = Exited EXIT_FAILURE"

definition InstallSignalHandler :: "bool \<Rightarrow> process_end option" where
  "InstallSignalHandler installed = (if \<not> installed then Some (Exited EXIT_FAILURE) else None)"

definition process_outcome :: "process_end result \<Rightarrow> process_end option" where
  "process_outcome res =
     (case res of
        Inr e \<Rightarrow> Some e
      | Inl h \<Rightarrow> if h = Blocked then None else if h = NullDeref then Some CrashHandler else Some (Crashed h))"

text \<open>\<^verbatim>\<open>main\<close> of the process with the given rank: how it ends, or \<open>None\<close> as long as it
  waits. The launch is that of all ranks: MPI ends the others when one of them crashes in it.\<close>

definition server_main ::
  "bool \<Rightarrow> 'd launch result \<Rightarrow> int \<Rightarrow> surroundings \<Rightarrow> bool \<Rightarrow> nat \<Rightarrow> process_end option" where
  "server_main installed launch port e finalized rank =
     (case InstallSignalHandler installed of
        Some fin \<Rightarrow> Some fin
      | None \<Rightarrow>
          process_outcome (bindR launch (\<lambda>launch.
            case launch of
              ExitFailure \<Rightarrow> Inr (Exited EXIT_FAILURE)
            | Launched ls \<Rightarrow>
                bindR (ServerLauncher_serve port e finalized (ls ! rank)) (\<lambda>(ret_val, server, net). Inr (Exited ret_val)))))"

lemma accept_loop_kv_waits:
  "\<forall>fd \<in> set fds. 0 \<le> fd \<Longrightarrow> accept_loop KvWorkerFactory_CreateWorker fds sv net = Inl Blocked"
  by (induction fds arbitrary: sv)
    (simp_all add: Server_Accept_def KvWorkerFactory_CreateWorker_def so_take_def ok_def Status_Ok_def)

lemma shard_serves_on:
  assumes "0 < port" and "0 \<le> socket_rc e" and "0 \<le> bind_rc e" and "\<forall>fd \<in> set (accepted e). 0 \<le> fd"
  shows "ServerLauncher_ShardMain port e = Inl Blocked"
  using assms accept_loop_kv_waits
  by (simp add: ServerLauncher_ShardMain_def serve_def Server_GetInstance_def Server_Start_def)



section \<open>The end of a shard's process\<close>

text \<open>C35: The first command of a client ends the whole process of a shard: wherever the process is,
  when a whole command has come in on a connection whose thread waits for one, there are steps
  after which the command has taken effect in the store as the specification says, and the
  process is gone, through the handler of its segmentation fault, with the exit code of a
  failure. No client has been sent anything in these steps, and nothing happens after them,
  whatever other connections the process served.\<close>

theorem shard_first_command_exits:
  assumes "rocksdb_contract ops I M" and "I (store P)" and "down P = None" and "i < length (threads P)"
    and "threads P ! i = (fd, Reading)" and "wf_command c" and "is_open (sockets P fd)"
    and "inq (sockets P fd) = map Segment (packet_chunks (encode_command c)) @ q"
  shows "\<exists>Q r h. (shard_step ops)\<^sup>*\<^sup>* P Q \<and> down Q = Some (Crashed h) \<and>
    process_outcome (Inl h) = Some (Exited EXIT_FAILURE) \<and>
    kv_spec (M (store P)) c r (M (store Q)) \<and> I (store Q) \<and>
    (\<forall>fd2. outq (sockets Q fd2) = outq (sockets P fd2)) \<and> (\<forall>R. \<not> shard_step ops Q R)"
proof -
  from shard_serves [OF assms] obtain Q p r where Q: "(shard_step ops)\<^sup>*\<^sup>* P Q" "down Q = None"
    "threads Q = (threads P)[i := (fd, Responding p r)]"
    "sockets Q = (sockets P)(fd := (sockets P fd)\<lparr>inq := q\<rparr>)"
    "kv_spec (M (store P)) c r (M (store Q))" "I (store Q)"
    by blast
  let ?R = "Q\<lparr>down := Some (Crashed NullDeref)\<rparr>"
  have "shard_step ops Q ?R"
    using Q(2,3) assms(4) Responding_crashes by (intro shard_step.crash [where t = "Responding p r"]) auto
  with Q(1) have "(shard_step ops)\<^sup>*\<^sup>* P ?R" by (rule rtranclp.rtrancl_into_rtrancl)
  moreover have "\<not> shard_step ops ?R S" for S by (auto elim: shard_step.cases)
  ultimately show ?thesis
    using Q(4-6) by (intro exI [of _ ?R] exI [of _ r] exI [of _ NullDeref])
      (simp add: process_outcome_def CrashHandler_def)
qed

lemma shard_first_command_exits_witness:
  "\<exists>P Q r. (shard_step mem_db)\<^sup>*\<^sup>* P Q \<and> threads P = [(5, Reading), (6, Reading)] \<and>
     down Q = Some (Crashed NullDeref) \<and> kv_spec Map.empty (Put [107] [1]) r (map_of (store Q))"
proof -
  obtain P :: "mem shard" where P: "threads P = [(5, Reading), (6, Reading)]" "down P = None" "store P = []"
    "sockets P = example_net (Put [107] [1]) (Put [107] [2])"
    using example_shard by blast
  have "\<exists>Q r h. (shard_step mem_db)\<^sup>*\<^sup>* P Q \<and> down Q = Some (Crashed h) \<and>
    process_outcome (Inl h) = Some (Exited EXIT_FAILURE) \<and>
    kv_spec (map_of (store P)) (Put [107] [1]) r (map_of (store Q)) \<and> mem_good (store Q) \<and>
    (\<forall>fd2. outq (sockets Q fd2) = outq (sockets P fd2)) \<and> (\<forall>R. \<not> shard_step mem_db Q R)"
    by (rule shard_first_command_exits [OF mem_db_contract, where i = 0 and fd = 5 and q = "[]"])
      (use P in \<open>simp_all add: example_net_def wf_command_def\<close>)
  then obtain Q r h where Q: "(shard_step mem_db)\<^sup>*\<^sup>* P Q" "down Q = Some (Crashed h)"
    "process_outcome (Inl h) = Some (Exited EXIT_FAILURE)"
    "kv_spec (map_of (store P)) (Put [107] [1]) r (map_of (store Q))"
    by blast
  have "h = NullDeref" using Q(3) by (simp add: process_outcome_def split: if_splits)
  then show ?thesis using Q P(1,3) by (intro exI [of _ P] exI [of _ Q] exI [of _ r]) simp
qed

end
