(* ===== verification/Sqpkv_Rdma.thy ===== *)
theory Sqpkv_Rdma
  imports Sqpkv_Kv
begin

text \<open>
  The RDMA transport (\<^verbatim>\<open>src/rdma\<close>): the interface of the request handlers and the two
  handlers that implement it, the completions and events of a connection
  (\<^verbatim>\<open>rdma_connection.cc\<close>), and the client and the server built on it. The verbs and the
  connection manager are not part of the repository: what their calls return is an argument.
\<close>

section \<open>Request handlers\<close>

text \<open>The handler of the proxy (\<^verbatim>\<open>src/server/sharding_proxy_request_handler.cc\<close>): it
  writes the packet in the input buffer to the client, with a single \<^verbatim>\<open>write\<close>, and
  reports its length as the length of an answer.\<close>

definition ShardingProxyRequestHandler_HandleReadCompletion ::
  "bytes \<Rightarrow> bytes \<Rightarrow> socket \<Rightarrow> (nat status_or \<times> bytes \<times> socket) result" where
  "ShardingProxyRequestHandler_HandleReadCompletion in_buffer out_buffer s =
     bindR (ReadValue in_buffer 0 4) (\<lambda>(rep, _).
     bindR (read_bytes in_buffer 0 (unat (bytes_u32 rep) + 4)) (\<lambda>data.
     let (rc, s) = sys_write data s in
     if rc = 0 then Inr (StatusOr_status (Status_Err0 (errno_text s)), out_buffer, s)
     else if rc < 0 then Inr (StatusOr_status (Status_Err0 (errno_text s)), out_buffer, s)
     else Inr (StatusOr_ptr (Some (nat rc)), out_buffer, s)))"

text \<open>\<^verbatim>\<open>RequestHandler\<close>: a handler keeps the size of the output buffer. The connection
  needs more than that of it, namely a size, and not only a status; only one of the two
  handlers always gives it.\<close>

locale request_handler =
  fixes handle :: "bytes \<Rightarrow> bytes \<Rightarrow> 's \<Rightarrow> (nat status_or \<times> bytes \<times> 's) result"
  assumes keeps_buffer: "handle i out s = Inr (r, out', s') \<Longrightarrow> length out' = length out"

locale answering_handler = request_handler +
  assumes answers: "handle i out s = Inr (r, out', s') \<Longrightarrow> \<not> eof (so_status r) \<and> so_obj r \<noteq> None"

section \<open>Connections\<close>

text \<open>What the library calls made for one event or completion return; pointers as whether they
  are not null, freshly allocated buffers and the memory region descriptor as their bytes.\<close>

record verbs =
  alloc_pd :: bool
  create_comp_channel :: bool
  create_cq :: bool
  req_notify_cq :: int
  create_qp :: bool
  new_local :: bytes
  new_remote :: bytes
  reg_local :: "bytes option"
  reg_remote :: "bytes option"
  post_recv :: int
  post_send :: int
  resolve_route :: int
  cm_connect :: int
  cm_accept :: int
  errno :: bytes

text \<open>\<^verbatim>\<open>Context\<close>, as far as the code reads it back, and what it has handed to the
  queue pair.\<close>

record rdma_context =
  connected :: bool
  local_buffer :: bytes
  rdma_local_mr :: "bytes option"
  remote_buffer :: bytes
  rdma_remote_mr :: "bytes option"
  peer_mr :: bytes
  receives :: nat
  disconnected :: bool
  poller_joinable :: bool

text \<open>\<open>contexts\<close> is \<^verbatim>\<open>id->context\<close> by id.\<close>

record rdma =
  mr_sent :: bool
  mr_received :: bool
  terminate :: bool
  contexts :: "int \<Rightarrow> rdma_context option"

definition rdma_new :: rdma where
  "rdma_new = \<lparr>mr_sent = False, mr_received = False, terminate = False, contexts = Map.empty\<rparr>"

definition deref :: "'a option \<Rightarrow> 'a result" where
  "deref p = (case p of None \<Rightarrow> Inl NullDeref | Some x \<Rightarrow> Inr x)"

lemma deref_simps [simp]: "deref (Some x) = Inr x" "deref None = Inl NullDeref"
  by (simp_all add: deref_def)

text \<open>The macros of \<^verbatim>\<open>rdma_connection.h\<close> on whether their argument is not zero, with the
  text of \<^verbatim>\<open>errno\<close>: \<open>ret\<close> makes the result of the function they are used in, and
  \<open>rest\<close> is what follows them.\<close>

definition ERROR_IF_NON_ZERO :: "bool \<Rightarrow> bytes \<Rightarrow> (status \<Rightarrow> 'r) \<Rightarrow> 'r \<Rightarrow> 'r" where
  "ERROR_IF_NON_ZERO x etext ret rest = (if x then ret (Status_Err0 etext) else rest)"

definition ERROR_IF_ZERO :: "bool \<Rightarrow> bytes \<Rightarrow> (status \<Rightarrow> 'r) \<Rightarrow> 'r \<Rightarrow> 'r" where
  "ERROR_IF_ZERO x etext ret rest = (if \<not> x then ret (Status_Err0 etext) else rest)"

definition RETURN_IF_NON_ZERO :: "bool \<Rightarrow> 'r \<Rightarrow> 'r \<Rightarrow> 'r" where
  "RETURN_IF_NON_ZERO x ret rest = (if x then ret else rest)"

declare ERROR_IF_NON_ZERO_def [simp] ERROR_IF_ZERO_def [simp] RETURN_IF_NON_ZERO_def [simp]

definition PostReceive :: "verbs \<Rightarrow> rdma_context \<Rightarrow> (status \<times> rdma_context) result" where
  "PostReceive v ctx =
     bindR (deref (rdma_local_mr ctx)) (\<lambda>_.
     ERROR_IF_NON_ZERO (post_recv v \<noteq> 0) (errno v) (\<lambda>st. Inr (st, ctx))
     (Inr (Status_Ok, ctx\<lparr>receives := receives ctx + 1\<rparr>)))"

text \<open>The loop \<^verbatim>\<open>while (!context->connected);\<close> does not end by itself. After a successful
  post the function ends without returning a status.\<close>

definition PostSend :: "verbs \<Rightarrow> nat \<Rightarrow> rdma_context \<Rightarrow> (status \<times> rdma_context) result" where
  "PostSend v size_written ctx =
     bindR (deref (rdma_remote_mr ctx)) (\<lambda>_.
     if \<not> connected ctx then Inl Blocked
     else ERROR_IF_NON_ZERO (post_send v \<noteq> 0) (errno v) (\<lambda>st. Inr (st, ctx))
     (Inl MissingReturn))"

definition SendMr :: "verbs \<Rightarrow> rdma_context option \<Rightarrow> (status \<times> rdma_context) result" where
  "SendMr v context_void =
     bindR (deref context_void) (\<lambda>ctx.
     bindR (deref (rdma_remote_mr ctx)) (\<lambda>mr.
     bindR (write_bytes (remote_buffer ctx) 0 mr) (\<lambda>out.
     PostSend v (length mr) (ctx\<lparr>remote_buffer := out\<rparr>))))"

text \<open>A completion: its status and whether its operation code has the receive bit.\<close>

record completion =
  success :: bool
  is_recv :: bool

text \<open>\<open>mr_size\<close> is the size of \<^verbatim>\<open>struct ibv_mr\<close>.\<close>

definition OnWorkCompletion ::
  "(bytes \<Rightarrow> bytes \<Rightarrow> 's \<Rightarrow> (nat status_or \<times> bytes \<times> 's) result) \<Rightarrow> nat \<Rightarrow> verbs \<Rightarrow> completion
     \<Rightarrow> rdma \<Rightarrow> rdma_context \<Rightarrow> 's \<Rightarrow> (rdma \<times> rdma_context \<times> 's) result" where
  "OnWorkCompletion handle mr_size v wc conn ctx s =
     (if \<not> success wc then Inr (conn, ctx, s)
      else if is_recv wc then
        bindR (if \<not> mr_received conn
               then bindR (read_bytes (local_buffer ctx) 0 mr_size) (\<lambda>mr.
                      Inr (conn\<lparr>mr_received := True\<rparr>, ctx\<lparr>peer_mr := mr\<rparr>))
               else Inr (conn, ctx)) (\<lambda>(conn, ctx).
        bindR (handle (local_buffer ctx) (remote_buffer ctx) s) (\<lambda>(status_or, out, s).
        let ctx = ctx\<lparr>remote_buffer := out\<rparr> in
        if eof (so_status status_or) then Inr (conn, ctx\<lparr>disconnected := True\<rparr>, s)
        else
          bindR (so_deref status_or) (\<lambda>size_written.
          bindR (if 0 < size_written
                 then bindR (PostSend v size_written ctx) (\<lambda>(_, ctx). Inr ctx)
                 else Inr ctx) (\<lambda>ctx.
          bindR (PostReceive v ctx) (\<lambda>(_, ctx). Inr (conn, ctx, s))))))
      else
        bindR (PostReceive v ctx) (\<lambda>(_, ctx).
        Inr (if \<not> mr_sent conn then conn\<lparr>mr_sent := True\<rparr> else conn, ctx, s)))"

text \<open>The completions of one wake-up, each with the bytes that the network has written to the start of
  the local buffer before it, and the wake-ups: the results of
  \<^verbatim>\<open>ibv_get_cq_event\<close> and \<^verbatim>\<open>ibv_req_notify_cq\<close>, and what polling
  yields.\<close>

fun poll_completions where
  "poll_completions handle mr_size [] conn ctx s = Inr (conn, ctx, s)"
| "poll_completions handle mr_size ((v, wc, data) # wcs) conn ctx s =
     bindR (OnWorkCompletion handle mr_size v wc conn (ctx\<lparr>local_buffer := fill (local_buffer ctx) data\<rparr>) s)
       (\<lambda>(conn, ctx, s).
     poll_completions handle mr_size wcs conn ctx s)"

fun PollCompletionQueue where
  "PollCompletionQueue handle mr_size [] conn ctx s = Inl Blocked"
| "PollCompletionQueue handle mr_size ((get_rc, notify_rc, wcs) # wakeups) conn ctx s =
     RETURN_IF_NON_ZERO (get_rc \<noteq> (0 :: int)) (Inr (conn, ctx, s))
     (RETURN_IF_NON_ZERO (notify_rc \<noteq> (0 :: int)) (Inr (conn, ctx, s))
     (bindR (poll_completions handle mr_size wcs conn ctx s) (\<lambda>(conn, ctx, s).
        PollCompletionQueue handle mr_size wakeups conn ctx s)))"

section \<open>Building a connection\<close>

text \<open>\<^verbatim>\<open>ERROR_IF_NON_ZERO\<close> is applied to the pointer that the registration returns; on the
  path past both checks the function ends without returning a status.\<close>

definition RegisterMemoryRegion :: "verbs \<Rightarrow> rdma_context \<Rightarrow> (status \<times> rdma_context) result" where
  "RegisterMemoryRegion v ctx =
     (let ctx = ctx\<lparr>local_buffer := new_local v, remote_buffer := new_remote v\<rparr>;
          ctx = ctx\<lparr>rdma_local_mr := reg_local v\<rparr> in
      ERROR_IF_NON_ZERO (rdma_local_mr ctx \<noteq> None) (errno v) (\<lambda>st. Inr (st, ctx))
      (let ctx = ctx\<lparr>rdma_remote_mr := reg_remote v\<rparr> in
       ERROR_IF_NON_ZERO (rdma_remote_mr ctx \<noteq> None) (errno v) (\<lambda>st. Inr (st, ctx))
       (Inl MissingReturn)))"

definition context_new :: rdma_context where
  "context_new = \<lparr>connected = False, local_buffer = [], rdma_local_mr = None, remote_buffer = [],
     rdma_remote_mr = None, peer_mr = [], receives = 0, disconnected = False, poller_joinable = False\<rparr>"

text \<open>The attributes of a queue pair: the fields the code sets, the others being zero. The handles
  and the constants of the verbs library are arguments.\<close>

record verbs_constants =
  ibv_qpt_rc :: int
  ibv_init_attr_pd :: u32
  ibv_init_attr_create_flags :: u32
  ibv_create_atomic_be_reply :: u32

record 'h queue_pair_attr =
  attr_pd :: 'h
  send_cq :: 'h
  recv_cq :: 'h
  qp_type :: int
  max_send_wr :: u32
  max_recv_wr :: u32
  max_send_sge :: u32
  max_recv_sge :: u32
  comp_mask :: u32
  max_atomic_arg :: u32
  exp_create_flags :: u32

definition BuildQueuePairAttr :: "verbs_constants \<Rightarrow> 'h \<Rightarrow> 'h \<Rightarrow> 'h queue_pair_attr" where
  "BuildQueuePairAttr k protection_domain completion_queue =
     \<lparr>attr_pd = protection_domain, send_cq = completion_queue, recv_cq = completion_queue,
      qp_type = ibv_qpt_rc k, max_send_wr = of_nat kMaxBufferSize, max_recv_wr = of_nat kMaxBufferSize,
      max_send_sge = 4, max_recv_sge = 4,
      comp_mask = ibv_init_attr_pd k OR ibv_init_attr_create_flags k,
      max_atomic_arg = 8, exp_create_flags = ibv_create_atomic_be_reply k\<rparr>"

record conn_param =
  responder_resources :: byte
  initiator_depth :: byte
  rnr_retry_count :: byte

definition BuildParams :: conn_param where
  "BuildParams = \<lparr>responder_resources = 7, initiator_depth = 7, rnr_retry_count = 7\<rparr>"

text \<open>The buffer size does not wrap as the capacity of the queues.\<close>

lemma queue_capacity:
  "unat (max_send_wr (BuildQueuePairAttr k pd cq)) = kMaxBufferSize"
  "unat (max_recv_wr (BuildQueuePairAttr k pd cq)) = kMaxBufferSize"
  by (simp_all add: BuildQueuePairAttr_def kMaxBufferSize_eq)

text \<open>The destructor of a context destroys its polling thread, which ends the program unless the
  thread was joined; nothing joins it.\<close>

definition destroy_context :: "rdma_context \<Rightarrow> unit result" where
  "destroy_context ctx = (if poller_joinable ctx then Inl Terminated else Inr ())"

text \<open>The owning pointer destroys the context on every error return. From the start of the
  polling thread on, the id refers to the context.\<close>

definition BuildContext ::
  "verbs \<Rightarrow> int \<Rightarrow> 'r rdma_scheme \<Rightarrow> (rdma_context status_or \<times> 'r rdma_scheme) result" where
  "BuildContext v cm_id conn =
     (let ctx = context_new;
          fail = (\<lambda>ctx conn st. bindR (destroy_context ctx) (\<lambda>_. Inr (StatusOr_status st, conn))) in
      ERROR_IF_ZERO (alloc_pd v) (errno v) (fail ctx conn)
      (ERROR_IF_ZERO (create_comp_channel v) (errno v) (fail ctx conn)
      (ERROR_IF_ZERO (create_cq v) (errno v) (fail ctx conn)
      (ERROR_IF_NON_ZERO (req_notify_cq v \<noteq> 0) (errno v) (fail ctx conn)
      (ERROR_IF_ZERO (create_qp v) (errno v) (fail ctx conn)
      (let ctx = ctx\<lparr>poller_joinable := True\<rparr>;
           conn = conn\<lparr>contexts := (contexts conn)(cm_id := Some ctx)\<rparr> in
       bindR (RegisterMemoryRegion v ctx) (\<lambda>(st, ctx).
       let conn = conn\<lparr>contexts := (contexts conn)(cm_id := Some ctx)\<rparr> in
       RETURN_IF_ERROR st (fail ctx conn)
       (bindR (PostReceive v ctx) (\<lambda>(st, ctx).
        let conn = conn\<lparr>contexts := (contexts conn)(cm_id := Some ctx)\<rparr> in
        RETURN_IF_ERROR st (fail ctx conn)
        (Inr (StatusOr_ptr (Some ctx), conn)))))))))))"

section \<open>Events\<close>

datatype cm_event_type =
  AddrResolved | RouteResolved | ConnectRequest | Established | Disconnected | OtherEvent

definition OnConnection :: "verbs \<Rightarrow> int \<Rightarrow> 'r rdma_scheme \<Rightarrow> (status \<times> 'r rdma_scheme) result" where
  "OnConnection v cm_id conn =
     bindR (deref (contexts conn cm_id)) (\<lambda>ctx.
     bindR (SendMr v (Some (ctx\<lparr>connected := True\<rparr>))) (\<lambda>(st, ctx).
     Inr (st, conn\<lparr>contexts := (contexts conn)(cm_id := Some ctx)\<rparr>)))"

definition DestroyConnection :: "rdma_context option \<Rightarrow> unit result" where
  "DestroyConnection context_void = bindR (deref context_void) destroy_context"

definition OnDisconnect :: "int \<Rightarrow> 'r rdma_scheme \<Rightarrow> (status \<times> 'r rdma_scheme) result" where
  "OnDisconnect cm_id conn =
     bindR (DestroyConnection (contexts conn cm_id)) (\<lambda>_.
     Inr (Status_Ok, conn\<lparr>contexts := (contexts conn)(cm_id := None), terminate := True\<rparr>))"

text \<open>The three handlers that the subclasses override are arguments.\<close>

definition OnEvent where
  "OnEvent addr_resolved route_resolved connect_request v ev cm_id conn =
     (case ev of
        AddrResolved \<Rightarrow> addr_resolved v cm_id conn
      | RouteResolved \<Rightarrow> route_resolved v cm_id conn
      | ConnectRequest \<Rightarrow> connect_request v cm_id conn
      | Established \<Rightarrow> OnConnection v cm_id conn
      | Disconnected \<Rightarrow> OnDisconnect cm_id conn
      | OtherEvent \<Rightarrow> Inr (Status_Err0 (errno v), conn))"

subsection \<open>The client\<close>

text \<open>\<^verbatim>\<open>RDMAClient\<close> (\<^verbatim>\<open>rdma_client.h\<close>, \<^verbatim>\<open>rdma_client.cc\<close>) extends
  the connection; the event channel as whether it is not null.\<close>

record rdma_client = rdma +
  port_client :: int
  hostname :: bytes
  context_ptr :: "rdma_context option"
  client_cm_id :: "int option"
  channel_client :: bool

definition RDMAClient_new :: "int \<Rightarrow> bytes \<Rightarrow> rdma_client" where
  "RDMAClient_new port host = rdma.extend rdma_new
     \<lparr>port_client = port, hostname = host, context_ptr = None, client_cm_id = None, channel_client = False\<rparr>"

definition RDMAClient_OnAddressResolved :: "verbs \<Rightarrow> int \<Rightarrow> rdma_client \<Rightarrow> (status \<times> rdma_client) result" where
  "RDMAClient_OnAddressResolved v cm_id conn =
     bindR (BuildContext v cm_id conn) (\<lambda>(status_or, conn).
     if \<not> ok (so_status status_or) then Inr (so_status status_or, conn)
     else
       let conn = conn\<lparr>context_ptr := fst (so_take status_or)\<rparr> in
       ERROR_IF_NON_ZERO (resolve_route v \<noteq> 0) (errno v) (\<lambda>st. Inr (st, conn))
       (Inr (Status_Ok, conn)))"

definition RDMAClient_OnRouteResolved :: "verbs \<Rightarrow> int \<Rightarrow> rdma_client \<Rightarrow> (status \<times> rdma_client) result" where
  "RDMAClient_OnRouteResolved v cm_id conn =
     ERROR_IF_NON_ZERO (cm_connect v \<noteq> 0) (errno v) (\<lambda>st. Inr (st, conn)) (Inr (Status_Ok, conn))"

definition RDMAClient_OnConnectRequest :: "verbs \<Rightarrow> int \<Rightarrow> rdma_client \<Rightarrow> (status \<times> rdma_client) result" where
  "RDMAClient_OnConnectRequest v cm_id conn = Inr (Status_Ok, conn)"

text \<open>The loop of \<^verbatim>\<open>Connect\<close>: an event is \<open>None\<close> where
  \<^verbatim>\<open>rdma_get_cm_event\<close> fails, which ends the function without a status.\<close>

fun connect_loop ::
  "(verbs \<times> (cm_event_type \<times> int) option) list \<Rightarrow> rdma_client \<Rightarrow> (status \<times> rdma_client) result" where
  "connect_loop [] conn = Inl Blocked"
| "connect_loop ((v, None) # evs) conn = Inl MissingReturn"
| "connect_loop ((v, Some (ev, cm_id)) # evs) conn =
     bindR (OnEvent RDMAClient_OnAddressResolved RDMAClient_OnRouteResolved
              RDMAClient_OnConnectRequest v ev cm_id conn) (\<lambda>(st, conn).
     RETURN_IF_ERROR st (\<lambda>st. Inr (st, conn))
     (if ev = Established then Inr (Status_Ok, conn)
      else connect_loop evs conn))"

text \<open>What the calls that set the client up return comes first: \<^verbatim>\<open>getaddrinfo\<close> for a host and
  the decimal text of a port, whether there is a channel, the id that \<^verbatim>\<open>rdma_create_id\<close>
  makes unless it fails, and the result of \<^verbatim>\<open>rdma_resolve_addr\<close>.\<close>

definition RDMAClient_Connect ::
  "(bytes \<Rightarrow> int \<Rightarrow> int) \<Rightarrow> bool \<Rightarrow> int option \<Rightarrow> int \<Rightarrow> bytes \<Rightarrow> (verbs \<times> (cm_event_type \<times> int) option) list
     \<Rightarrow> rdma_client \<Rightarrow> (status \<times> rdma_client) result" where
  "RDMAClient_Connect getaddrinfo channel create_id resolve_addr_rc etext evs conn =
     ERROR_IF_NON_ZERO (getaddrinfo (hostname conn) (port_client conn) \<noteq> 0) etext (\<lambda>st. Inr (st, conn))
     (let conn = conn\<lparr>channel_client := channel\<rparr> in
      ERROR_IF_ZERO (channel_client conn) etext (\<lambda>st. Inr (st, conn))
      (ERROR_IF_NON_ZERO (create_id = None) etext (\<lambda>st. Inr (st, conn))
       (let conn = conn\<lparr>client_cm_id := create_id\<rparr> in
        ERROR_IF_NON_ZERO (resolve_addr_rc \<noteq> 0) etext (\<lambda>st. Inr (st, conn))
        (connect_loop evs conn))))"

text \<open>The connection manager dereferences the id it is handed.\<close>

definition RDMAClient_Disconnect :: "int \<Rightarrow> rdma_client \<Rightarrow> rdma_client result" where
  "RDMAClient_Disconnect get_event_rc conn =
     bindR (deref (client_cm_id conn)) (\<lambda>cm_id.
     if get_event_rc \<noteq> 0 then Inr conn
     else bindR (OnDisconnect cm_id conn) (\<lambda>(_, conn). Inr conn))"

subsection \<open>The server\<close>

text \<open>\<^verbatim>\<open>RDMAServer\<close> (\<^verbatim>\<open>rdma_server.h\<close>, \<^verbatim>\<open>rdma_server.cc\<close>).\<close>

record rdma_server = rdma +
  port_server :: int
  channel_server :: bool

definition RDMAServer_new :: rdma_server where
  "RDMAServer_new = rdma.extend rdma_new \<lparr>port_server = -1, channel_server = False\<rparr>"

definition RDMAServer_port :: "rdma_server \<Rightarrow> int" where
  "RDMAServer_port conn = port_server conn"

text \<open>The bytes of a 16-bit value change places on a machine that stores the lower one first.\<close>

definition ntohs :: "16 word \<Rightarrow> 16 word" where
  "ntohs w = push_bit 8 w OR drop_bit 8 w"

definition RDMAServer_Initialize ::
  "bool \<Rightarrow> int \<Rightarrow> int \<Rightarrow> int \<Rightarrow> 16 word \<Rightarrow> bytes \<Rightarrow> rdma_server \<Rightarrow> status \<times> rdma_server" where
  "RDMAServer_Initialize channel create_id_rc bind_rc listen_rc src_port etext conn =
     (let conn = conn\<lparr>channel_server := channel\<rparr> in
      ERROR_IF_ZERO (channel_server conn) etext (\<lambda>st. (st, conn))
      (ERROR_IF_NON_ZERO (create_id_rc \<noteq> 0) etext (\<lambda>st. (st, conn))
      (ERROR_IF_NON_ZERO (bind_rc \<noteq> 0) etext (\<lambda>st. (st, conn))
      (ERROR_IF_NON_ZERO (listen_rc \<noteq> 0) etext (\<lambda>st. (st, conn))
      (Status_Ok, conn\<lparr>port_server := uint (ntohs src_port)\<rparr>)))))"

definition RDMAServer_OnAddressResolved :: "verbs \<Rightarrow> int \<Rightarrow> rdma_server \<Rightarrow> (status \<times> rdma_server) result" where
  "RDMAServer_OnAddressResolved v cm_id conn = Inr (Status_Ok, conn)"

definition RDMAServer_OnRouteResolved :: "verbs \<Rightarrow> int \<Rightarrow> rdma_server \<Rightarrow> (status \<times> rdma_server) result" where
  "RDMAServer_OnRouteResolved v cm_id conn = Inr (Status_Ok, conn)"

definition RDMAServer_OnConnectRequest :: "verbs \<Rightarrow> int \<Rightarrow> rdma_server \<Rightarrow> (status \<times> rdma_server) result" where
  "RDMAServer_OnConnectRequest v cm_id conn =
     bindR (BuildContext v cm_id conn) (\<lambda>(status_or, conn).
     if \<not> ok (so_status status_or) then Inr (so_status status_or, conn)
     else ERROR_IF_NON_ZERO (cm_accept v \<noteq> 0) (errno v) (\<lambda>st. Inr (st, conn)) (Inr (Status_Ok, conn)))"

text \<open>Getting an event dereferences the channel.\<close>

fun RDMAServer_Run ::
  "(verbs \<times> (cm_event_type \<times> int) option) list \<Rightarrow> rdma_server \<Rightarrow> rdma_server result" where
  "RDMAServer_Run [] conn =
     (if terminate conn then Inr conn else if \<not> channel_server conn then Inl NullDeref else Inl Blocked)"
| "RDMAServer_Run ((v, ev) # evs) conn =
     (if terminate conn then Inr conn
      else if \<not> channel_server conn then Inl NullDeref
      else case ev of
        None \<Rightarrow> Inr conn
      | Some (ev, cm_id) \<Rightarrow>
          bindR (OnEvent RDMAServer_OnAddressResolved RDMAServer_OnRouteResolved
                   RDMAServer_OnConnectRequest v ev cm_id conn) (\<lambda>(_, conn).
          RDMAServer_Run evs conn))"

text \<open>A port that was bound is a port: the server reports it, below \<open>2\<^sup>1\<^sup>6\<close>, and before it is
  initialized it reports -1.\<close>

lemma RDMAServer_port_range:
  "RDMAServer_port RDMAServer_new = -1"
  "RDMAServer_Initialize channel c b l src etext RDMAServer_new = (st, conn) \<Longrightarrow> ok st \<Longrightarrow>
     0 \<le> RDMAServer_port conn \<and> RDMAServer_port conn < 65536 \<and> contexts conn = Map.empty \<and> channel_server conn"
  using uint_bounded [of "ntohs src"]
  by (auto simp: RDMAServer_Initialize_def RDMAServer_new_def RDMAServer_port_def rdma.defs rdma_new_def Let_def
      split: if_splits)

section \<open>The handlers implement the interface\<close>

text \<open>Operations on a buffer keep its size.\<close>

definition keeps :: "bytes \<Rightarrow> ('a \<times> bytes) result \<Rightarrow> bool" where
  "keeps m r \<longleftrightarrow> (\<forall>x m'. r = Inr (x, m') \<longrightarrow> length m' = length m)"

lemma keeps_bind:
  "keeps m r \<Longrightarrow> (\<And>x m'. keeps m' (f (x, m'))) \<Longrightarrow> keeps m (bindR r f)"
  by (cases r) (auto simp: keeps_def)

lemma keeps_reads:
  "(\<And>x. keeps m (f x)) \<Longrightarrow> keeps m (bindR (ReadValue m' p n) f)"
  "(\<And>y. keeps m (g y)) \<Longrightarrow> keeps m (bindR (ReadSlices m' p n) g)"
  by (cases "ReadValue m' p n"; cases "ReadSlices m' p n"; auto simp: keeps_def)+

lemma keeps_write:
  "(\<And>m'. keeps m' (f m')) \<Longrightarrow> keeps m (bindR (write_bytes m p bs) f)"
  by (cases "write_bytes m p bs") (auto simp: keeps_def dest: length_write_bytes)

lemma keeps_Inr: "keeps m (Inr (x, m))"
  by (simp add: keeps_def)

lemma keeps_AddValue: "keeps m (AddValue m p rep)"
  unfolding AddValue_def by (intro keeps_write keeps_Inr)

lemma keeps_AddString: "keeps m (AddString m p bs)"
  unfolding AddString_def by (auto intro!: keeps_bind [OF keeps_AddValue] keeps_write keeps_Inr)

lemma keeps_AddStrings: "keeps m (AddStrings m p ks)"
  by (induction ks arbitrary: m p) (auto intro!: keeps_bind [OF keeps_AddString] keeps_Inr)

lemma keeps_response_new: "keeps m (response_new r (Some m))"
proof -
  have base: "keeps m (ResponsePacket_new ps op st (Some m))" for ps op st
    by (auto simp: keeps_def ResponsePacket_new_eq fill_def split: if_splits)
  show ?thesis
    by (cases r)
      (auto simp: GetResponsePacket_new_def PutResponsePacket_new_def DeleteResponsePacket_new_def
        GetAllResponsePacket_new_def
        intro!: keeps_bind [OF base] keeps_bind [OF keeps_AddString] keeps_bind [OF keeps_AddValue]
          keeps_bind [OF keeps_AddStrings] keeps_reads keeps_Inr)
qed

lemma kv_handler_result:
  assumes "KvRequestHandler_HandleReadCompletion ops d i out = Inr (r, out', d')"
  shows "(\<exists>n. r = StatusOr_ptr (Some n)) \<and> length out' = length out"
proof -
  from assms obtain packet where "CreateCommandPacket i = Inr (Some packet)"
    by (auto simp: KvRequestHandler_HandleReadCompletion_def result_simps split: option.splits)
  then obtain resp where resp: "response_new (fst (kv_execute ops d packet)) (Some out) = Inr (resp, out')"
      "r = StatusOr_ptr (Some (ToBinary_size (response_base resp)))"
    using assms by (auto simp: KvRequestHandler_HandleReadCompletion_def result_simps case_prod_beta)
  then show ?thesis
    using keeps_response_new [of out "fst (kv_execute ops d packet)"] by (auto simp: keeps_def)
qed

interpretation kv_rdma: answering_handler
  "\<lambda>i out d. KvRequestHandler_HandleReadCompletion ops d i out" for ops
  by unfold_locales (auto dest!: kv_handler_result simp: eof_def Status_Ok_def)

interpretation proxy_rdma: request_handler ShardingProxyRequestHandler_HandleReadCompletion
  by unfold_locales
    (auto simp: ShardingProxyRequestHandler_HandleReadCompletion_def result_simps Let_def case_prod_beta
      split: if_splits)

section \<open>Completions\<close>

lemma PostSend_Inr: "PostSend v k ctx = Inr (st, ctx') \<Longrightarrow> ctx' = ctx \<and> connected ctx \<and> post_send v \<noteq> 0"
  by (auto simp: PostSend_def result_simps split: if_splits)

lemma PostReceive_Inr: "PostReceive v ctx = Inr (st, ctx') \<Longrightarrow> \<exists>k. ctx' = ctx\<lparr>receives := k\<rparr>"
  by (auto simp: PostReceive_def result_simps split: if_splits intro: exI [of _ "receives ctx"])

text \<open>The part of a receive behind the handler.\<close>

definition after_read where
  "after_read v conn ctx = (\<lambda>(status_or, out, s).
     let ctx = ctx\<lparr>remote_buffer := out\<rparr> in
     if eof (so_status status_or) then Inr (conn, ctx\<lparr>disconnected := True\<rparr>, s)
     else
       bindR (so_deref status_or) (\<lambda>size_written.
       bindR (if 0 < size_written
              then bindR (PostSend v size_written ctx) (\<lambda>(_, ctx). Inr ctx)
              else Inr ctx) (\<lambda>ctx.
       bindR (PostReceive v ctx) (\<lambda>(_, ctx). Inr (conn, ctx, s)))))"

lemma OnWorkCompletion_recv:
  assumes "success wc" and "is_recv wc" and "n \<le> length (local_buffer ctx)"
  shows "OnWorkCompletion handle n v wc conn ctx s =
    bindR (handle (local_buffer ctx) (remote_buffer ctx) s)
      (after_read v (conn\<lparr>mr_received := True\<rparr>)
        (if mr_received conn then ctx else ctx\<lparr>peer_mr := take n (local_buffer ctx)\<rparr>))"
proof (cases "mr_received conn")
  case True
  then have same: "conn\<lparr>mr_received := True\<rparr> = conn" by (cases conn) simp
  show ?thesis
    unfolding same using assms True by (simp add: OnWorkCompletion_def after_read_def [abs_def])
next
  case False
  then show ?thesis
    using assms by (simp add: OnWorkCompletion_def after_read_def [abs_def] read_bytes_def)
qed

lemma after_read_Inr:
  assumes "after_read v conn ctx (r, out, s) = Inr (conn', ctx', s')"
  shows "conn' = conn \<and> s' = s \<and> remote_buffer ctx' = out \<and> local_buffer ctx' = local_buffer ctx \<and>
    (eof (so_status r) \<or> (\<exists>k. so_obj r = Some k \<and> (0 < k \<longrightarrow> post_send v \<noteq> 0)))"
  using assms
  by (cases "so_obj r")
    (auto simp: after_read_def so_deref_def result_simps Let_def dest!: PostReceive_Inr PostSend_Inr
      split: if_splits)

context request_handler
begin

lemma recv_keeps_buffers:
  assumes "success wc" and "is_recv wc" and "n \<le> length (local_buffer ctx)"
    and "OnWorkCompletion handle n v wc conn ctx s = Inr (conn', ctx', s')"
  shows "local_buffer ctx' = local_buffer ctx \<and> length (remote_buffer ctx') = length (remote_buffer ctx)"
proof -
  from assms obtain r out s2 where h: "handle (local_buffer ctx) (remote_buffer ctx) s = Inr (r, out, s2)"
      "after_read v (conn\<lparr>mr_received := True\<rparr>)
        (if mr_received conn then ctx else ctx\<lparr>peer_mr := take n (local_buffer ctx)\<rparr>) (r, out, s2) =
        Inr (conn', ctx', s')"
    by (auto simp: OnWorkCompletion_recv result_simps)
  then show ?thesis using after_read_Inr [OF h(2)] keeps_buffer by (auto split: if_splits)
qed

end

context answering_handler
begin

text \<open>An answer that was posted does not come back; so a receive that returns has not answered,
  unless the answer is empty.\<close>

lemma recv_returns:
  assumes "success wc" and "is_recv wc" and "n \<le> length (local_buffer ctx)"
    and "OnWorkCompletion handle n v wc conn ctx s = Inr (conn', ctx', s')"
  shows "\<exists>r out k. handle (local_buffer ctx) (remote_buffer ctx) s = Inr (r, out, s') \<and>
    so_obj r = Some k \<and> (k = 0 \<or> post_send v \<noteq> 0)"
proof -
  from assms obtain r out s2 where h: "handle (local_buffer ctx) (remote_buffer ctx) s = Inr (r, out, s2)"
      "after_read v (conn\<lparr>mr_received := True\<rparr>)
        (if mr_received conn then ctx else ctx\<lparr>peer_mr := take n (local_buffer ctx)\<rparr>) (r, out, s2) =
        Inr (conn', ctx', s')"
    by (auto simp: OnWorkCompletion_recv result_simps)
  then show ?thesis using after_read_Inr [OF h(2)] answers [OF h(1)] by auto
qed

end

text \<open>One command that arrives at the shard.\<close>

lemma kv_completion_step:
  assumes "rocksdb_contract ops I M" and "I d" and "wf_command c"
    and "success wc" and "is_recv wc" and "local_buffer ctx = encode_command c @ rest"
    and "n \<le> length (local_buffer ctx)" and "length (remote_buffer ctx) = kMaxBufferSize"
    and "OnWorkCompletion (\<lambda>i out d. KvRequestHandler_HandleReadCompletion ops d i out) n v wc conn ctx d
      = Inr (conn', ctx', d')"
  shows "\<exists>r. kv_spec (M d) c r (M d') \<and> I d' \<and> post_send v \<noteq> 0"
proof -
  from kv_rdma.recv_returns [OF assms(4,5,7,9)] obtain st out k where
    h: "KvRequestHandler_HandleReadCompletion ops d (encode_command c @ rest) (remote_buffer ctx) =
      Inr (st, out, d')" "so_obj st = Some k" "k = 0 \<or> post_send v \<noteq> 0"
    unfolding assms(6) by blast
  have "length (remote_buffer ctx) + 20 < 4294967296" using assms(8) by (simp add: kMaxBufferSize_eq)
  from kv_handler_step [OF assms(1-3) this h(1)] obtain r where r: "kv_spec (M d) c r (M d')" "I d'"
      "st = StatusOr_ptr (Some (length (response_written r) + (if is_getall r then 2 else 0)))"
    by blast
  have "0 < length (response_written r)"
    by (cases r) (simp_all add: response_written_def length_encode_response)
  then have "k \<noteq> 0" using r(3) h(2) by auto
  then show ?thesis using r h(3) by blast
qed

text \<open>The commands of a run of completions, as they come in.\<close>

definition delivers :: "verbs \<times> completion \<times> bytes \<Rightarrow> command \<Rightarrow> bool" where
  "delivers e c \<longleftrightarrow> success (fst (snd e)) \<and> is_recv (fst (snd e)) \<and> wf_command c \<and>
     snd (snd e) = encode_command c \<and> length (encode_command c) \<le> kMaxBufferSize"

lemma kv_completions_run:
  assumes "rocksdb_contract ops I M" and "n \<le> kMaxBufferSize"
  shows "list_all2 delivers evs cs \<Longrightarrow> I d \<Longrightarrow> length (local_buffer ctx) = kMaxBufferSize \<Longrightarrow>
    length (remote_buffer ctx) = kMaxBufferSize \<Longrightarrow>
    poll_completions (\<lambda>i out d. KvRequestHandler_HandleReadCompletion ops d i out) n evs conn ctx d =
      Inr (conn', ctx', d') \<Longrightarrow>
    (\<exists>rs. length rs = length cs \<and> kv_run (M d) (zip cs rs) (M d')) \<and> I d' \<and>
    (\<forall>e \<in> set evs. post_send (fst e) \<noteq> 0)"
proof (induction arbitrary: d ctx conn rule: list_all2_induct)
  case Nil
  then show ?case by (auto intro: run_done)
next
  case (Cons e evs c cs)
  obtain v wc where e: "e = (v, wc, encode_command c)" "success wc" "is_recv wc" "wf_command c"
      "length (encode_command c) \<le> kMaxBufferSize"
    using Cons.hyps(1) by (cases e) (auto simp: delivers_def)
  let ?ctx = "ctx\<lparr>local_buffer := fill (local_buffer ctx) (encode_command c)\<rparr>"
  let ?h = "\<lambda>i out d. KvRequestHandler_HandleReadCompletion ops d i out"
  obtain conn1 ctx1 d1 where run: "OnWorkCompletion ?h n v wc conn ?ctx d = Inr (conn1, ctx1, d1)"
    "poll_completions ?h n evs conn1 ctx1 d1 = Inr (conn', ctx', d')"
    using Cons.prems(4) by (auto simp: e(1) result_simps)
  have buf: "local_buffer ?ctx = encode_command c @ drop (length (encode_command c)) (local_buffer ctx)"
    by (simp add: fill_def)
  have len: "length (local_buffer ?ctx) = kMaxBufferSize" using Cons.prems(2) e(5) by simp
  then have n: "n \<le> length (local_buffer ?ctx)" using assms(2) by simp
  have remote: "length (remote_buffer ?ctx) = kMaxBufferSize" using Cons.prems(3) by simp
  from kv_completion_step [OF assms(1) Cons.prems(1) e(4,2,3) buf n remote run(1)]
  obtain r where r: "kv_spec (M d) c r (M d1)" "I d1" "post_send v \<noteq> 0" by blast
  have "length (local_buffer ctx1) = kMaxBufferSize" "length (remote_buffer ctx1) = kMaxBufferSize"
    using kv_rdma.recv_keeps_buffers [OF e(2,3) n run(1)] len remote by simp_all
  from Cons.IH [OF r(2) this run(2)] obtain rs where
    rs: "length rs = length cs" "kv_run (M d1) (zip cs rs) (M d')" "I d'" "\<forall>e \<in> set evs. post_send (fst e) \<noteq> 0"
    by blast
  then show ?case
    using r e(1) by (auto intro!: exI [of _ "r # rs"] run_step)
qed

text \<open>C29: Commands that arrive at a shard over RDMA are executed but never answered. The first
  message of a connection, which is meant to be the peer's memory region, is handed to the
  handler like any other. When a run of receives comes back, the database has made a run of the
  specification for the commands in the order in which they came in, and posting each answer
  has failed: a successful post runs off the end of \<^verbatim>\<open>PostSend\<close>.\<close>

theorem kv_completions_never_answer:
  assumes "rocksdb_contract ops I M" and "I d" and "n \<le> kMaxBufferSize"
    and "list_all2 delivers evs cs" and "length (local_buffer ctx) = kMaxBufferSize"
    and "length (remote_buffer ctx) = kMaxBufferSize"
    and "poll_completions (\<lambda>i out d. KvRequestHandler_HandleReadCompletion ops d i out) n evs conn ctx d =
      Inr (conn', ctx', d')"
  shows "(\<exists>rs. length rs = length cs \<and> kv_run (M d) (zip cs rs) (M d')) \<and> I d' \<and>
    (\<forall>e \<in> set evs. post_send (fst e) \<noteq> 0)"
  by (rule kv_completions_run [OF assms(1,3,4,2,5,6,7)])

definition example_verbs :: verbs where
  "example_verbs = \<lparr>alloc_pd = True, create_comp_channel = True, create_cq = True, req_notify_cq = 0,
     create_qp = True, new_local = replicate kMaxBufferSize 0, new_remote = replicate kMaxBufferSize 0,
     reg_local = Some (replicate 48 0), reg_remote = Some (replicate 48 0), post_recv = 0,
     post_send = 12, resolve_route = 0, cm_connect = 0, cm_accept = 0, errno = []\<rparr>"

definition example_context :: "bytes \<Rightarrow> rdma_context" where
  "example_context buf = \<lparr>connected = True, local_buffer = buf, rdma_local_mr = Some (replicate 48 0),
     remote_buffer = replicate kMaxBufferSize 0, rdma_remote_mr = Some (replicate 48 0), peer_mr = [],
     receives = 1, disconnected = False, poller_joinable = True\<rparr>"

lemma kv_completions_never_answer_witness:
  "\<exists>conn' ctx' d' r. poll_completions (\<lambda>i out d. KvRequestHandler_HandleReadCompletion mem_db d i out) 4
       [(example_verbs, \<lparr>success = True, is_recv = True\<rparr>, encode_command (Put [107] [118]))] rdma_new
       (example_context (replicate kMaxBufferSize 0)) [] = Inr (conn', ctx', d') \<and>
     kv_run Map.empty [(Put [107] [118], r)] (map_of d')"
proof -
  let ?c = "Put [107] [118]" and ?b = "replicate kMaxBufferSize (0 :: byte)"
  let ?wc = "\<lparr>success = True, is_recv = True\<rparr>"
  let ?ctx = "(example_context ?b)\<lparr>local_buffer := fill ?b (encode_command ?c)\<rparr>"
  let ?h = "\<lambda>i out d. KvRequestHandler_HandleReadCompletion mem_db d i out"
  have wf: "wf_command ?c" by (simp add: wf_command_def)
  have len: "length (encode_command ?c) = 15" by (simp add: length_encode_command)
  obtain sz out' where h: "KvRequestHandler_HandleReadCompletion mem_db []
      (fill ?b (encode_command ?c)) ?b = Inr (sz, out', [([107], [118])])"
    using kv_handler_eq [OF wf, of ?b mem_db "[]" "drop (length (encode_command ?c)) ?b"]
    by (simp add: fill_def kMaxBufferSize_eq mem_db_def mem_put_def rocks_ok_def
      response_written_def length_encode_response is_getall_def)
  obtain k where "sz = StatusOr_ptr (Some k)" using kv_handler_result [OF h] by blast
  then have "\<exists>conn' ctx'. OnWorkCompletion ?h 4 example_verbs ?wc rdma_new ?ctx [] =
      Inr (conn', ctx', [([107], [118])])"
    using h len by (cases "0 < k") (simp_all add: OnWorkCompletion_recv example_context_def kMaxBufferSize_eq
        after_read_def Let_def rdma_new_def PostSend_def PostReceive_def example_verbs_def eof_def Status_Ok_def)
  then obtain conn' ctx' where "OnWorkCompletion ?h 4 example_verbs ?wc rdma_new ?ctx [] =
      Inr (conn', ctx', [([107], [118])])" by blast
  then have run: "poll_completions ?h 4 [(example_verbs, ?wc, encode_command ?c)] rdma_new (example_context ?b) [] =
      Inr (conn', ctx', [([107], [118])])"
    by (simp add: example_context_def)
  have "list_all2 delivers [(example_verbs, ?wc, encode_command ?c)] [?c]"
    using wf len by (simp add: delivers_def kMaxBufferSize_eq)
  from kv_completions_never_answer [OF mem_db_contract mem_good_Nil _ this _ _ run]
  obtain rs where "length rs = 1" "kv_run Map.empty (zip [?c] rs) (map_of [([107], [118])])"
    by (auto simp: example_context_def kMaxBufferSize_eq)
  then show ?thesis using run by (cases rs) auto
qed

lemma proxy_handler_frame:
  assumes "i = framed args @ rest" and "length args < 4294967296" and "sys_write (framed args) s = (rc, t)"
  shows "ShardingProxyRequestHandler_HandleReadCompletion i out s =
    Inr (if 0 < rc then StatusOr_ptr (Some (nat rc)) else StatusOr_status (Status_Err0 (errno_text t)), out, t)"
proof -
  have "read_bytes i 0 4 = Inr (u32_bytes (of_nat (length args)))"
    using read_bytes_mid [of 0 "[]" 4 "u32_bytes (of_nat (length args))" "args @ rest"]
    by (simp add: assms(1) framed_def)
  moreover have "read_bytes i 0 (length args + 4) = Inr (framed args)"
    using read_bytes_mid [of 0 "[]" "length args + 4" "framed args" rest]
    by (simp add: assms(1) framed_def)
  ultimately show ?thesis
    using assms(2,3) by (simp add: ShardingProxyRequestHandler_HandleReadCompletion_def ReadValue_def)
qed

text \<open>C30: What a completion does on the proxy, whose handler passes a shard's packet on to the
  client with one write. When the write fails, the missing size is dereferenced. When it takes
  some bytes, their number is taken for the size of an answer: the completion comes back only if
  posting that answer fails, and what was to be posted is the output buffer as it was before.\<close>

theorem proxy_completion:
  assumes "success wc" and "is_recv wc" and "n \<le> length (local_buffer ctx)"
    and "local_buffer ctx = framed args @ rest" and "length args < 4294967296"
    and "sys_write (framed args) s = (rc, t)"
  shows "(rc \<le> 0 \<longrightarrow> OnWorkCompletion ShardingProxyRequestHandler_HandleReadCompletion n v wc conn ctx s =
        Inl NullDeref) \<and>
    (0 < rc \<longrightarrow> (\<forall>conn' ctx' s'. OnWorkCompletion ShardingProxyRequestHandler_HandleReadCompletion
          n v wc conn ctx s = Inr (conn', ctx', s') \<longrightarrow>
        s' = t \<and> remote_buffer ctx' = remote_buffer ctx \<and> post_send v \<noteq> 0))"
proof -
  note handle = proxy_handler_frame [OF assms(4-6), of "remote_buffer ctx"]
  note run = OnWorkCompletion_recv [OF assms(1-3), of ShardingProxyRequestHandler_HandleReadCompletion v conn s]
  show ?thesis
  proof (intro conjI impI allI)
    assume "rc \<le> 0"
    then show "OnWorkCompletion ShardingProxyRequestHandler_HandleReadCompletion n v wc conn ctx s = Inl NullDeref"
      by (simp add: run handle after_read_def eof_def Status_Err0_def)
  next
    fix conn' ctx' s'
    assume rc: "0 < rc"
      and "OnWorkCompletion ShardingProxyRequestHandler_HandleReadCompletion n v wc conn ctx s = Inr (conn', ctx', s')"
    then have "after_read v (conn\<lparr>mr_received := True\<rparr>)
        (if mr_received conn then ctx else ctx\<lparr>peer_mr := take n (local_buffer ctx)\<rparr>)
        (StatusOr_ptr (Some (nat rc)), remote_buffer ctx, t) = Inr (conn', ctx', s')"
      by (simp add: run handle)
    from after_read_Inr [OF this] rc
    show "s' = t" "remote_buffer ctx' = remote_buffer ctx" "post_send v \<noteq> 0"
      by (auto simp: eof_def Status_Ok_def)
  qed
qed

lemma proxy_completion_witness:
  "OnWorkCompletion ShardingProxyRequestHandler_HandleReadCompletion 4 example_verbs
     \<lparr>success = True, is_recv = True\<rparr> rdma_new (example_context (framed [7] @ []))
     (fresh_socket\<lparr>wplan := [-1]\<rparr>) = Inl NullDeref"
  using proxy_completion [of "\<lparr>success = True, is_recv = True\<rparr>" 4 "example_context (framed [7] @ [])"
      "[7]" "[]" "fresh_socket\<lparr>wplan := [-1]\<rparr>" "-1" fresh_socket example_verbs rdma_new]
  by (simp add: example_context_def sys_write_def fresh_socket_def framed_def)

section \<open>Connecting\<close>

lemma BuildContext_not_ok:
  "BuildContext v cm_id conn \<noteq> Inr (r, conn') \<or> \<not> ok (so_status r) \<and> conn' = conn"
proof -
  have "RegisterMemoryRegion v ctx \<noteq> Inr (st, ctx') \<or>
      \<not> ok st \<and> poller_joinable ctx' = poller_joinable ctx" for ctx st ctx'
    by (auto simp: RegisterMemoryRegion_def Let_def ok_def Status_Err0_def)
  note reg = this
  show ?thesis
  proof (cases "RegisterMemoryRegion v (context_new\<lparr>poller_joinable := True\<rparr>)")
    case (Inl e)
    then show ?thesis
      by (auto simp: BuildContext_def Let_def destroy_context_def context_new_def ok_def Status_Err0_def
          split: if_splits)
  next
    case (Inr a)
    then obtain st ctx where a: "RegisterMemoryRegion v (context_new\<lparr>poller_joinable := True\<rparr>) = Inr (st, ctx)"
      by (cases a) auto
    then have "\<not> ok st" "poller_joinable ctx"
      using reg [of "context_new\<lparr>poller_joinable := True\<rparr>" st ctx] by auto
    then show ?thesis
      using a by (auto simp: BuildContext_def Let_def destroy_context_def context_new_def ok_def Status_Err0_def
          split: if_splits)
  qed
qed

lemma OnEvent_client_none:
  assumes "contexts conn = Map.empty"
    and "OnEvent RDMAClient_OnAddressResolved RDMAClient_OnRouteResolved RDMAClient_OnConnectRequest
      v ev cm_id conn = Inr (st, conn')"
  shows "\<not> ok st \<or> ev \<noteq> Established \<and> conn' = conn"
  using assms BuildContext_not_ok [of v cm_id conn]
  by (cases ev)
    (auto simp: OnEvent_def OnConnection_def OnDisconnect_def DestroyConnection_def
      RDMAClient_OnAddressResolved_def RDMAClient_OnRouteResolved_def RDMAClient_OnConnectRequest_def
      result_simps split: if_splits)

lemma connect_loop_not_ok:
  "contexts conn = Map.empty \<Longrightarrow> connect_loop evs conn = Inr (st, conn') \<Longrightarrow> \<not> ok st"
proof (induction evs conn rule: connect_loop.induct)
  case (3 v ev cm_id evs conn)
  then show ?case
    using OnEvent_client_none [OF 3(2), of v ev cm_id]
    by (fastforce simp: result_simps split: if_splits)
qed simp_all

lemma OnEvent_server_none:
  assumes "contexts conn = Map.empty"
    and "OnEvent RDMAServer_OnAddressResolved RDMAServer_OnRouteResolved RDMAServer_OnConnectRequest
      v ev cm_id conn = Inr (st, conn')"
  shows "conn' = conn \<and> (ev = ConnectRequest \<longrightarrow> \<not> ok st) \<and> ev \<noteq> Established"
  using assms BuildContext_not_ok [of v cm_id conn]
  by (cases ev)
    (auto simp: OnEvent_def OnConnection_def OnDisconnect_def DestroyConnection_def
      RDMAServer_OnAddressResolved_def RDMAServer_OnRouteResolved_def RDMAServer_OnConnectRequest_def
      result_simps split: if_splits)

lemma RDMAServer_Run_none:
  "contexts conn = Map.empty \<Longrightarrow> \<not> terminate conn \<Longrightarrow> RDMAServer_Run evs conn = Inr conn' \<Longrightarrow> conn' = conn"
proof (induction evs conn rule: RDMAServer_Run.induct)
  case (2 v ev evs conn)
  then show ?case
    using OnEvent_server_none [OF 2(2), of v]
    by (fastforce simp: result_simps split: option.splits if_splits)
qed (simp split: if_splits)

text \<open>C31: No RDMA connection is ever made. Registering the memory region takes the non-null pointer
  of a success for an error, and building the context then destroys it with its polling thread
  running, so that it never returns ok, whatever the verbs library answers. So the client's
  \<^verbatim>\<open>Connect\<close> never returns ok for any sequence of events, and a server that returns from its
  event loop has no connection.\<close>

theorem rdma_never_connects:
  assumes "contexts client = Map.empty" and "contexts server = Map.empty" and "\<not> terminate server"
  shows "(\<forall>r conn'. BuildContext v cm_id (conn :: 'r rdma_scheme) = Inr (r, conn') \<longrightarrow> \<not> ok (so_status r)) \<and>
    (\<forall>st conn'. RDMAClient_Connect gai chan cid raddr etext evs client = Inr (st, conn') \<longrightarrow> \<not> ok st) \<and>
    (\<forall>conn'. RDMAServer_Run evs server = Inr conn' \<longrightarrow> contexts conn' = Map.empty)"
proof -
  have "contexts (client\<lparr>channel_client := chan, client_cm_id := cid\<rparr>) = Map.empty" using assms(1) by simp
  then show ?thesis
    using BuildContext_not_ok [of v cm_id conn] RDMAServer_Run_none [OF assms(2,3), of evs] assms(2)
      connect_loop_not_ok [of "client\<lparr>channel_client := chan, client_cm_id := cid\<rparr>" evs]
    by (auto simp: RDMAClient_Connect_def Let_def split: if_splits)
qed

lemma rdma_never_connects_witness:
  "BuildContext example_verbs 1 rdma_new = Inl Terminated \<and>
   (\<exists>st conn. RDMAClient_Connect (\<lambda>host port. 0) True (Some 1) 0 [] [(example_verbs, Some (RouteResolved, 1)),
       (example_verbs, Some (OtherEvent, 1))] (RDMAClient_new 4242 [49]) = Inr (st, conn) \<and> \<not> ok st)"
proof -
  have terminated: "BuildContext example_verbs 1 rdma_new = Inl Terminated"
    by (simp add: rdma_new_def BuildContext_def RegisterMemoryRegion_def example_verbs_def context_new_def
      destroy_context_def)
  obtain st conn where run: "RDMAClient_Connect (\<lambda>host port. 0) True (Some 1) 0 [] [(example_verbs, Some (RouteResolved, 1)),
       (example_verbs, Some (OtherEvent, 1))] (RDMAClient_new 4242 [49]) = Inr (st, conn)"
    by (simp add: RDMAClient_Connect_def OnEvent_def RDMAClient_OnRouteResolved_def example_verbs_def)
  show ?thesis
    using rdma_never_connects [of "RDMAClient_new 4242 [49]" RDMAServer_new example_verbs 1 rdma_new
      "\<lambda>host port. 0" True "Some 1" 0 "[]"
      "[(example_verbs, Some (RouteResolved, 1)), (example_verbs, Some (OtherEvent, 1))]"]
      run terminated
    by (auto simp: rdma_new_def RDMAClient_new_def RDMAServer_new_def rdma.defs)
qed

end
