(* ===== verification/Spec2Isabelle.thy ===== *)
theory Spec2Isabelle
  imports Sqpkv_Client Sqpkv_Concurrent Sqpkv_Main Sqpkv_Rdma
begin

text \<open>
  SQPKV is a sharded key-value store over RocksDB. Clients talk to a proxy, the proxy to one server
  per shard, all over TCP with a packet format of their own; a transport over RDMA is prepared
  beside it. This development models the C++ code of the repository and proves what its parts do;
  paths below are relative to the repository.

  \<^bold>\<open>How the code is modelled.\<close> A call returns a value of \<^typ>\<open>'a result\<close>: \<open>Inr\<close> what the code
  returns, or \<open>Inl\<close> the way in which it does not return (\<open>halt\<close>, in \<open>Sqpkv_Prelude\<close>: a null
  pointer, an access outside a buffer, the end of a function without its return, an exception
  nobody catches, a call that waits for ever). So undefined behaviour is a value that a theorem can
  speak about. A \<^verbatim>\<open>Status\<close> is a record, a \<^verbatim>\<open>StatusOr\<close> a status with an optional
  object; integers have their width wherever they can wrap; a pointer into a buffer is an offset.
  A socket is the arrivals its reads will see and the results its writes will have, so every
  statement over all sockets is one over all peers and networks. RocksDB is a record of its four
  operations with its documented behaviour as a predicate; a list that satisfies it is the
  reference store of the witnesses. MPI, the verbs library and the resolver enter as the values
  their calls return. What one thread does is a function of its sockets and of the store; where threads
  run at the same time they are step relations: the workers of a shard's process, which share its
  store (\<open>Sqpkv_Shard\<close>), and the workers of the proxy with the shards (\<open>Sqpkv_Sessions\<close>).

  \<^bold>\<open>Theories, in the order of their use.\<close>
  \<^item> \<open>Sqpkv_Prelude\<close>: results, buffers, little-endian words.
  \<^item> \<open>Sqpkv_Status\<close>: \<^verbatim>\<open>include/sqpkv/status.h\<close>, \<^verbatim>\<open>src/protocol/status.cc\<close>, and the
    operation codes.
  \<^item> \<open>Sqpkv_Packet\<close>, \<open>Sqpkv_Command\<close>, \<open>Sqpkv_Response\<close>: \<^verbatim>\<open>src/protocol/packet.cc\<close>. The
    locale \<open>wire_codec\<close> is the contract of a packet format (a constructor that writes an encoding, a
    factory that reads it back); it is interpreted on the commands (\<open>cmd\<close>) and on all responses
    but GetAll's (\<open>resp\<close>), whose declared size is off by two.
  \<^item> \<open>Sqpkv_Protocol\<close>: \<^verbatim>\<open>src/protocol/protocol.cc\<close>, sending, reading and forwarding pieces.
  \<^item> \<open>Sqpkv_Store\<close>: the store, one command on it (\<open>kv_execute\<close>) and the specification \<open>kv_spec\<close>, a
    step relation on maps.
  \<^item> \<open>Sqpkv_Kv\<close>: \<^verbatim>\<open>src/server/kv_request_handler.cc\<close> and \<^verbatim>\<open>src/server/kv_worker.cc\<close>.
  \<^item> \<open>Sqpkv_Prefix\<close>: \<^verbatim>\<open>src/server/table_prefix_transform.cc\<close> and RocksDB's requirements on a
    prefix extractor (locale \<open>prefix_extractor\<close>, interpretation \<open>tables\<close>).
  \<^item> \<open>Sqpkv_Sharding\<close>: \<^verbatim>\<open>src/server/sharding_policy.cc\<close> (locale \<open>sharding_policy\<close>,
    interpretation \<open>round_robin\<close>).
  \<^item> \<open>Sqpkv_Proxy\<close>: \<^verbatim>\<open>src/server/sharding_proxy_worker.cc\<close> and
    \<^verbatim>\<open>src/protocol/net_utils.cc\<close>; the relation \<open>relay\<close> is the specification of a session.
  \<^item> \<open>Sqpkv_Server\<close>: \<^verbatim>\<open>src/server/server.cc\<close> and the worker factories (locale
    \<open>worker_factory\<close>, interpretations \<open>kv_factory\<close> and \<open>proxy_factory\<close>).
  \<^item> \<open>Sqpkv_Cluster\<close>: the proxy composed with the request handlers of its shards
    (\<open>served\<close>), against one map (\<open>union_map\<close>, \<open>cluster_map\<close>); what the proxy relies on is the
    locale \<open>shard_backend\<close>, interpreted on the handlers (\<open>kv_shards\<close>).
  \<^item> \<open>Sqpkv_Relay\<close>: the thread of a proxy worker in small steps, one for each call that can wait
    (\<open>proxy_thread_step\<close>), and their equivalence with \<^verbatim>\<open>HandleClient\<close>.
  \<^item> \<open>Sqpkv_Sessions\<close>: any number of clients, each with its worker, and the shards, interleaved
    (\<open>client_move\<close>, \<open>server_move\<close>), where connections break and shards fall (\<open>fault_move\<close>), with
    the invariant of a session (\<open>session_good\<close>) and the measure \<open>work\<close> of what is left to do.
  \<^item> \<open>Sqpkv_Concurrent\<close>: the invariant of all sessions and shards (\<open>cluster_good\<close>), and what follows for
    the clients.
  \<^item> \<open>Sqpkv_Shard\<close>: the process of a shard, its accepting thread and its workers interleaved
    (\<open>kv_thread_step\<close> for one thread, \<open>shard_step\<close> for the process).
  \<^item> \<open>Sqpkv_Launcher\<close>: \<^verbatim>\<open>src/server/server_launcher.cc\<close>, all ranks of a launch together.
  \<^item> \<open>Sqpkv_Main\<close>: \<^verbatim>\<open>src/server/main.cc\<close> with \<^verbatim>\<open>OpenDb\<close>, \<^verbatim>\<open>ProxyMain\<close> and
    \<^verbatim>\<open>ShardMain\<close>: from the start of the processes to their exit codes.
  \<^item> \<open>Sqpkv_Rdma\<close>: \<^verbatim>\<open>src/rdma\<close> and \<^verbatim>\<open>src/server/sharding_proxy_request_handler.cc\<close>
    (locales \<open>request_handler\<close> and \<open>answering_handler\<close>, interpretations \<open>kv_rdma\<close> and
    \<open>proxy_rdma\<close>).
  \<^item> \<open>Sqpkv_Client\<close>: \<^verbatim>\<open>src/client\<close>, the library and the interactive client.
  \<^item> this theory: the path of a command from a client's packet to the store and back, for one client
    and for many at once.

  \<^bold>\<open>What is proved.\<close> Of the formats: packets read back as what was written, and parsing commands and
  responses is sound for any bytes. Of the streams: sending cuts a packet into pieces from which
  reading and forwarding restore it, forwarding is equivalent to reading whole and sending, and
  reading loses nothing and returns on any stream that ends. Of the store: the request handler
  refines the key-value specification \<open>kv_spec\<close>; a session through the proxy, with its shards
  behind it, is a run of that specification on one map, and so is what any number of clients see
  whose sessions run at the same time, even when connections break and shards fall; the servers
  answer all they are sent in a bounded number of steps, and a shard that falls harms only the
  clients that use it; the store of a shard's process is at any time what the executed commands make of it,
  however its threads interleave. Of the cluster: the
  shard of a key is its id modulo the number of servers; a launch makes rank 0 the proxy of the other
  ranks, tells the clients its address in a file, and launching again on the stores it leaves gives
  the same roles.

  And where the code does not do what it is meant to do, what it does instead: the packets that
  clients, workers and the proxy build without a buffer end the process
  (\<open>Sqpkv_Kv\<close>, \<open>Sqpkv_Shard\<close>, \<open>Sqpkv_Proxy\<close>, \<open>Sqpkv_Client\<close>), so that the
  positive theorems about whole exchanges take packet objects that hold their bytes, and answers
  that come from the request handlers; the framing takes the size of a read for the end of a packet
  (\<open>Sqpkv_Protocol\<close>); a client whose worker has lost a shard waits for ever on a connection that
  nobody closes (\<open>Sqpkv_Concurrent\<close>); the proxy gives up on its first client (\<open>Sqpkv_Server\<close>,
  \<open>Sqpkv_Main\<close>), and a server with a proxy worker cannot be destroyed (\<open>Sqpkv_Server\<close>); no RDMA
  connection is made (\<open>Sqpkv_Rdma\<close>). The sessions of \<open>Sqpkv_Sessions\<close> therefore start from workers
  whose connections are there, and from shards that answer with the bytes of their handlers; that a
  shard's process ends with its first command (\<open>Sqpkv_Main\<close>) is there the case of a shard that falls
  between executing a command and answering it.

  \<^bold>\<open>Loops.\<close> Every loop that reads a socket is a total function, because each round takes bytes off
  the incoming stream (\<^verbatim>\<open>length (stream s)\<close> is the measure); waiting for more is the result
  \<open>Blocked\<close>. A step relation has no fuel either: that the servers come to rest is the bound
  \<open>work_left\<close> on the number of their steps. Loops over buffers have the rest of the buffer as their measure. The loop of the
  interactive client may run for ever and is a \<^theory_text>\<open>partial_function\<close>. No fuel is used.

  \<^bold>\<open>What is not modelled.\<close> Logging (but for the line of \<^verbatim>\<open>LogBinary\<close>) and the parsing of flags
  (their values are arguments), data races between the thread of a worker and \<^verbatim>\<open>Stop\<close> on the
  worker's members and sockets (whether the thread then returns is an argument), partial deliveries
  between the proxy and its peers in \<open>Sqpkv_Sessions\<close> (a packet arrives whole; what a partial
  delivery does is in \<open>Sqpkv_Protocol\<close>), a \<^verbatim>\<open>GetAll\<close> among concurrent sessions (a worker that
  answers one ends the process, \<open>Sqpkv_Proxy\<close>), a shard that comes back or loses one connection and
  keeps others, the work requests that are handed to the verbs, and everything under RocksDB, MPI, gflags and spdlog. Of
  \<^verbatim>\<open>status.h\<close> the macro \<^verbatim>\<open>ASSIGN_OR_RETURN\<close> and of \<^verbatim>\<open>rdma_connection.h\<close> the macro
  \<^verbatim>\<open>RETURN_IF_ZERO\<close> are used nowhere. Signals other than \<^verbatim>\<open>SIGSEGV\<close> are left out: a write to a connection whose
  peer is gone fails here, while \<^verbatim>\<open>SIGPIPE\<close>, which nothing handles, may end the process.
\<close>

section \<open>From the client to the store and back\<close>

text \<open>The bytes of an answer as they leave the handler's buffer.\<close>

lemma getall_written_slack:
  assumes "length slack = 2"
  shows "getall_written ks @ slack = shard_answer ks slack"
proof -
  have "length (response_payload (RGetAll Status_Ok ks) @ slack) = 14 + length (strs_enc ks)"
    using assms by (simp add: length_response_payload keys_enc_def)
  then show ?thesis
    by (simp add: shard_answer_def framed_response response_bytes_def getall_written_def)
qed

lemma reply_getall:
  assumes "is_open s" and "length (shard_answer ks slack) < 4294967296"
    and "inq s = map Segment (packet_chunks (shard_answer ks slack)) @ q"
  shows "getall_reply net_status keys s = Inr (net_status, keys @ ks, s\<lparr>inq := q\<rparr>)"
proof -
  let ?r = "RGetAll Status_Ok ks"
  have "CreateResponsePacket (shard_answer ks slack @ z) =
      Inr (Some (GetAllResponsePacket (received_resp ?r slack) ks))" for z
    using CreateResponsePacket_slack [of ?r slack z] assms(2) by (simp add: shard_answer_def)
  then have "ReadFromServer s = Inr (StatusOr_ptr (Some (GetAllResponsePacket (received_resp ?r slack) ks)), s\<lparr>inq := q\<rparr>)"
    using assms(1,3) by (intro ReadFromServer_bytes) simp_all
  then show ?thesis
    by (simp add: getall_reply_def resp_keys_def received_resp_def ok_def Status_Ok_def)
qed

text \<open>C2: From the bytes of a command to what the client library makes of the answer. When the shard's request
  handler gets the bytes of a command, on any store that keeps its contract, and the bytes it
  reports arrive at a client in the pieces they are sent in, the reading half of the client's
  operation (what the library does behind a send that was ok) gives the caller what
  the specification says. A get that is ok has the value the store holds for the key; a put or
  delete changed the store exactly when it is ok; a scan returns the keys of the store with the
  prefix, in order and once each; and the answer is read to its end. The sending half of the library is not
  part of this: its operations end the client before they send anything, because they build their
  packets without a buffer, so the bytes have to come from another client of the same format.\<close>

theorem client_store_end_to_end:
  assumes "rocksdb_contract ops I M" and "I d" and "wf_command c"
    and "length out = kMaxBufferSize"
    and "KvRequestHandler_HandleReadCompletion ops d (encode_command c @ rest) out =
      Inr (StatusOr_ptr (Some n), out', d')"
    and "n \<le> length out"
    and "is_open s" and "inq s = map Segment (packet_chunks (take n out')) @ q"
  shows "I d' \<and>
    (case c of
       Get k \<Rightarrow> \<exists>st v'. get_reply Status_Ok v s = Inr (st, v', s\<lparr>inq := q\<rparr>) \<and> M d' = M d \<and>
         (if ok st then M d k = Some v' else v' = v)
     | Put k w \<Rightarrow> \<exists>st. status_reply s = Inr (st, s\<lparr>inq := q\<rparr>) \<and>
         M d' = (if ok st then (M d)(k \<mapsto> w) else M d)
     | Delete k \<Rightarrow> \<exists>st. status_reply s = Inr (st, s\<lparr>inq := q\<rparr>) \<and>
         M d' = (if ok st then (M d)(k := None) else M d)
     | GetAll p \<Rightarrow> \<exists>ks. getall_reply Status_Ok [] s = Inr (Status_Ok, ks, s\<lparr>inq := q\<rparr>) \<and> M d' = M d \<and>
         sorted ks \<and> distinct ks \<and> set ks = {k \<in> dom (M d). prefix p k})"
proof -
  from kv_handler_reply [OF assms(1-6)] obtain r where
    run: "kv_spec (M d) c r (M d')" "I d'" and short: "length (take n out') < 4294967296"
    and keyed: "\<not> is_getall r \<longrightarrow> take n out' = encode_response r \<and> wf_response r"
    and scan: "is_getall r \<longrightarrow>
      (\<exists>ks z. r = RGetAll Status_Ok ks \<and> length z = 2 \<and> take n out' = getall_written ks @ z)"
    by blast
  show ?thesis
  proof (cases "is_getall r")
    case True
    then obtain ks z where r: "r = RGetAll Status_Ok ks" "length z = 2" "take n out' = getall_written ks @ z"
      using scan by blast
    then have "take n out' = shard_answer ks z" using getall_written_slack by simp
    then have "getall_reply Status_Ok [] s = Inr (Status_Ok, [] @ ks, s\<lparr>inq := q\<rparr>)"
      using assms(7,8) short by (intro reply_getall) simp_all
    then show ?thesis
      using run by (cases c) (auto simp: r elim: kv_specE)
  next
    case False
    then have wf: "wf_response r" and pieces: "inq s = map Segment (packet_chunks (encode_response r)) @ q"
      using keyed assms(8) by simp_all
    note st = reply_status [OF wf assms(7) pieces]
    show ?thesis
    proof (cases c)
      case (Get k)
      then obtain st w where r: "r = RGet st w" "M d' = M d" "ok st \<longrightarrow> st = Status_Ok \<and> M d k = Some w"
        using run(1) by (auto elim!: kv_spec_GetE)
      have "get_reply Status_Ok v s = Inr (if ok st then Status_Ok else st, if ok st then w else v, s\<lparr>inq := q\<rparr>)"
        using reply_get [of st w s q] wf assms(7) pieces r(1) by blast
      then show ?thesis
        using Get r run(2) by (auto simp: ok_def Status_Ok_def)
    next
      case (Put k w)
      then show ?thesis
        using run st by (auto simp: ok_def Status_Ok_def elim!: kv_spec_PutE)
    next
      case (Delete k)
      then show ?thesis
        using run st by (auto simp: ok_def Status_Ok_def elim!: kv_spec_DeleteE)
    next
      case (GetAll p)
      then show ?thesis using run(1) False by (auto simp: is_getall_def elim!: kv_spec_GetAllE)
    qed
  qed
qed

lemma client_store_end_to_end_witness:
  "map_of [([107], [118])] [107] = Some [118] \<and>
   (\<exists>s'. get_reply Status_Ok [] (fresh_socket\<lparr>inq := map Segment (packet_chunks (take 17
        (fill (replicate kMaxBufferSize 0) (encode_response (RGet Status_Ok [118]))))) @ []\<rparr>) =
      Inr (Status_Ok, [118], s'))"
proof -
  let ?s = "fresh_socket\<lparr>inq := map Segment (packet_chunks (take 17
        (fill (replicate kMaxBufferSize 0) (encode_response (RGet Status_Ok [118]))))) @ []\<rparr>"
  have good: "mem_good [([107], [118])]" by (simp add: mem_good_def)
  have wf: "wf_command (Get [107])" "length (replicate kMaxBufferSize (0 :: byte)) = kMaxBufferSize"
      "17 \<le> length (replicate kMaxBufferSize (0 :: byte))"
    by (simp_all add: wf_command_def kMaxBufferSize_eq)
  have len: "17 = length (encode_response (RGet Status_Ok [118]))" by (simp add: length_encode_response)
  have "take 17 (fill (replicate kMaxBufferSize 0) (encode_response (RGet Status_Ok [118]))) =
      encode_response (RGet Status_Ok [118])"
    by (subst len, simp add: fill_def)
  then have "get_reply Status_Ok [] ?s = Inr (Status_Ok, [118], ?s\<lparr>inq := []\<rparr>)"
    using reply_get [of Status_Ok "[118]" ?s "[]" Status_Ok "[]"]
    by (simp add: wf_response_def is_getall_def length_response_payload ok_def Status_Ok_def)
  then show ?thesis
    using client_store_end_to_end [OF mem_db_contract good wf(1,2) kv_handler_Get_example wf(3),
      of ?s "[]" "[]"]
    by simp
qed

section \<open>What concurrent clients read\<close>

text \<open>A client reads its answers one after another, as the library does
  (\<^verbatim>\<open>Protocol::ReadFromServer\<close>), and takes each for the response in it.\<close>

fun read_replies :: "nat \<Rightarrow> socket \<Rightarrow> (response list \<times> socket) result" where
  "read_replies 0 s = Inr ([], s)"
| "read_replies (Suc m) s =
     bindR (ReadFromServer s) (\<lambda>(resp, s).
     bindR (so_deref resp) (\<lambda>p.
     bindR (read_replies m s) (\<lambda>(rs, s). Inr (packet_response p # rs, s))))"

lemma read_replies_all:
  assumes "list_all2 (\<lambda>e r. reads_as (snd e) r) h rs"
  shows "is_open s \<Longrightarrow> inq s = map Segment (replies h) @ q \<Longrightarrow>
    read_replies (length h) s = Inr (map response_norm rs, s\<lparr>inq := q\<rparr>)"
  using assms
proof (induction arbitrary: s rule: list_all2_induct)
  case Nil
  then show ?case by simp
next
  case (Cons e h r rs)
  from Cons.hyps(1) obtain p where p: "\<And>z. CreateResponsePacket (snd e @ z) = Inr (Some p)"
    "packet_response p = response_norm r" by (auto simp: reads_as_def)
  have "inq s = map Segment (packet_chunks (snd e)) @ map Segment (replies h) @ q"
    using Cons.prems(2) by (simp add: replies_def)
  then have "ReadFromServer s = Inr (StatusOr_ptr (Some p), s\<lparr>inq := map Segment (replies h) @ q\<rparr>)"
    using Cons.prems(1) p(1) by (intro ReadFromServer_bytes) simp_all
  then show ?case using Cons.IH [of "s\<lparr>inq := map Segment (replies h) @ q\<rparr>"] Cons.prems p(2) by simp
qed

text \<open>The responses in a run that belong to the commands of one session.\<close>

definition own_responses :: "nat \<Rightarrow> (nat \<times> command \<times> bytes) list \<Rightarrow> response list \<Rightarrow> response list" where
  "own_responses i H rs = map snd (filter (\<lambda>(e, r). fst e = i) (zip H rs))"

lemma own_responses_read:
  "list_all2 reads_as (snd (logged H)) rs \<Longrightarrow>
     list_all2 (\<lambda>e r. reads_as (snd e) r) (log_of i H) (own_responses i H rs)"
proof -
  assume "list_all2 reads_as (snd (logged H)) rs"
  then have "list_all2 (\<lambda>e r. reads_as (snd (snd e)) r) H rs"
    by (simp add: logged_def list_all2_map1 case_prod_beta)
  then show ?thesis
    by (induction rule: list_all2_induct) (simp_all add: log_of_def own_responses_def)
qed

text \<open>C1: What clients read is what one store would have answered them, in the setting of \<open>Sqpkv_Sessions\<close>:
  every client has a worker whose connections to the shards were made (which the test in \<^verbatim>\<open>CreateProxy\<close> never lets happen), and
  uses it as the client library would, sending a command of the format and reading the answer before it sends
  the next; a read gets a piece of a packet as it was written; and the shards answer with the bytes of
  their request handlers, which their TCP workers do not come to. Whatever any number of such clients
  do at the same time, for whatever keys, whether connections break, shards fall or the process of the proxy ends, the keyed commands that have
  been executed are, in the order of their
  execution, a run of the key-value specification on one map, and each client that reads what
  it has been sent, with the library's \<^verbatim>\<open>ReadFromServer\<close>, gets the responses of that run
  to its own executed commands, in its order, of all of them or of all but the last, and there is nothing
  else to read. A \<^verbatim>\<open>GetAll\<close>, or a command with a key the policy has no server for, is not executed as part of the run:
  it never gets an answer, and may end the process for all clients.\<close>

theorem clients_read_one_store:
  assumes "rocksdb_contract ops I M" and "\<forall>i. I (ds i)"
    and "(cluster_move (kv_answers ops) n)\<^sup>*\<^sup>* (cluster_new ds) S"
  shows "\<exists>rs. length rs = length (history S) \<and>
    kv_run (union_map (owner n) M ds) (zip (map (\<lambda>(i, c, reply). c) (history S)) rs)
      (union_map (owner n) M (shard_stores S)) \<and>
    (\<forall>i < length (sessions S). \<exists>m.
       m \<le> length (own_responses i (history S) rs) \<and> length (own_responses i (history S) rs) \<le> Suc m \<and>
       read_replies m (fresh_socket\<lparr>inq :=
           map Segment (outq (wires (sessions S ! i) (clientfd (proxy_of (sessions S ! i)))))\<rparr>) =
         Inr (map response_norm (take m (own_responses i (history S) rs)), fresh_socket))"
proof -
  from kv_shards.reachable_linearized [OF assms] obtain rs where
    rs: "list_all2 reads_as (snd (logged (history S))) rs"
      "kv_run (union_map (owner n) M ds) (zip (fst (logged (history S))) rs)
         (union_map (owner n) M (shard_stores S))"
    by (auto simp: linearized_def)
  have read: "\<exists>m. m \<le> length (own_responses i (history S) rs) \<and> length (own_responses i (history S) rs) \<le> Suc m \<and>
       read_replies m (fresh_socket\<lparr>inq :=
           map Segment (outq (wires (sessions S ! i) (clientfd (proxy_of (sessions S ! i)))))\<rparr>) =
         Inr (map response_norm (take m (own_responses i (history S) rs)), fresh_socket)"
    if "i < length (sessions S)" for i
  proof -
    let ?h = "log_of i (history S)" and ?own = "own_responses i (history S) rs"
    have own: "list_all2 (\<lambda>e r. reads_as (snd e) r) ?h ?own" using own_responses_read [OF rs(1)] .
    have good: "session_good n (sessions S ! i) ?h"
      using cluster_goodD(1) [OF reachable_good [OF assms(3)] that] .
    from session_log [OF good, unfolded heard_def] obtain m where m: "m \<le> length ?h" "length ?h \<le> Suc m"
      "outq (wires (sessions S ! i) (clientfd (proxy_of (sessions S ! i)))) = replies (take m ?h)"
      by blast
    have "read_replies (length (take m ?h)) (fresh_socket\<lparr>inq := map Segment (replies (take m ?h))\<rparr>) =
        Inr (map response_norm (take m ?own), (fresh_socket\<lparr>inq := map Segment (replies (take m ?h))\<rparr>)\<lparr>inq := []\<rparr>)"
      using own by (intro read_replies_all) (simp_all add: list_all2_takeI)
    then show ?thesis
      using m list_all2_lengthD [OF own] by (intro exI [of _ m]) (simp add: fresh_socket_def)
  qed
  moreover have "length rs = length (history S)"
    using list_all2_lengthD [OF rs(1)] by (simp add: logged_def)
  ultimately show ?thesis using rs(2) by (intro exI [of _ rs]) (simp add: logged_def)
qed

lemma clients_read_one_store_witness:
  "\<exists>S m r. (cluster_move (kv_answers mem_db) 2)\<^sup>*\<^sup>* (cluster_new example_shards) S \<and>
     kv_run (union_map (owner 2) map_of example_shards) [(Get [95, 51], r)]
       (union_map (owner 2) map_of (shard_stores S)) \<and> m \<le> 1 \<and>
     read_replies m (fresh_socket\<lparr>inq := map Segment (outq (wires (sessions S ! 0)
       (clientfd (proxy_of (sessions S ! 0)))))\<rparr>) = Inr (map response_norm (take m [r]), fresh_socket)"
proof -
  obtain S0 S m where S: "(cluster_move (kv_answers mem_db) 2)\<^sup>*\<^sup>* (cluster_new example_shards) S0"
    "(server_move (kv_answers mem_db) ^^ m) S0 S" "map submitted (sessions S0) = [[Get [95, 51]], []]"
    "history S = [(0, Get [95, 51], encode_response (RGet Status_Ok [118]))]"
    using example_exchange by (elim exE conjE) (rule that)
  have run: "(cluster_move (kv_answers mem_db) 2)\<^sup>*\<^sup>* (cluster_new example_shards) S"
    using S(1,2) by (rule moves_reach)
  have "length (sessions S) = 2"
    using server_moves_submitted [OF S(2)] S(3) by (metis length_map list.size(3,4) numeral_2_eq_2 One_nat_def add_Suc_right add_0_right)
  then have i: "0 < length (sessions S)" by simp
  have "\<forall>i. mem_good (example_shards i)" by (simp add: example_shards_def mem_good_def)
  from clients_read_one_store [OF mem_db_contract this run] obtain rs where
    rs: "length rs = length (history S)" "kv_run (union_map (owner 2) map_of example_shards)
      (zip (map (\<lambda>(i, c, reply). c) (history S)) rs) (union_map (owner 2) map_of (shard_stores S))"
    and reads: "\<forall>i < length (sessions S). \<exists>m.
       m \<le> length (own_responses i (history S) rs) \<and> length (own_responses i (history S) rs) \<le> Suc m \<and>
       read_replies m (fresh_socket\<lparr>inq :=
           map Segment (outq (wires (sessions S ! i) (clientfd (proxy_of (sessions S ! i)))))\<rparr>) =
         Inr (map response_norm (take m (own_responses i (history S) rs)), fresh_socket)"
    by (elim exE conjE) (rule that)
  obtain r where r: "rs = [r]" using rs(1) S(4) by (cases rs) auto
  have own: "own_responses 0 (history S) rs = [r]" by (simp add: own_responses_def S(4) r)
  from reads i obtain k where "k \<le> 1" "read_replies k (fresh_socket\<lparr>inq := map Segment (outq (wires (sessions S ! 0)
       (clientfd (proxy_of (sessions S ! 0)))))\<rparr>) = Inr (map response_norm (take k [r]), fresh_socket)"
    unfolding own [symmetric] by (auto simp: own)
  then show ?thesis using run rs(2) S(4) r by (intro exI [of _ S] exI [of _ k] exI [of _ r]) simp
qed

end
